(* ===== verification/Prelude.thy ===== *)
theory Prelude
  imports Main "HOL-Library.Word"
begin

text \<open>
  Shared vocabulary of the development: the machine integers of
  \<^verbatim>\<open>kernel/include/types/number.h\<close>, the outcome of running kernel code (a value,
  or one of the ways the kernel stops making progress), two collections of
  rewrite rules, and the generic lemmas on words, lists and address ranges that
  the component theories share.

  Address ranges are pairs of a start address and a length in bytes; they live
  in the wrapping 64-bit address space, so that disjointness is stated with
  the wrapping distances between the two start addresses.
\<close>

unbundle bit_operations_syntax

named_theorems outcome_simps \<open>evaluation of outcomes and of their sequencing\<close>
named_theorems addr_simps \<open>reading wrapping address arithmetic in \<open>nat\<close>\<close>

section \<open>Machine integers\<close>

type_synonym u8 = "8 word"
type_synonym u16 = "16 word"
type_synonym u32 = "32 word"
type_synonym u64 = "64 word"
type_synonym u128 = "128 word"

text \<open>Physical and virtual addresses, and \<^verbatim>\<open>size_t\<close>, are 64-bit integers.\<close>

type_synonym paddr_t = u64
type_synonym vaddr_t = u64
type_synonym size_t = u64

section \<open>Outcomes\<close>

text \<open>
  Kernel code has no exceptions: a failed \<^verbatim>\<open>assert\<close>, a \<^verbatim>\<open>todo\<close> and a
  \<^verbatim>\<open>panic\<close> print a message and spin for ever. The remaining constructors name the
  points where the source leaves defined behaviour or loops without a bound.
\<close>

datatype halt =
    Assertion string
  | Todo
  | Panic string
  | Null_deref
  | Out_of_bounds
  | Inactive_member
  | Unreachable
  | Overflow
  | Division_by_zero
  | Spin

datatype 'a outcome = Done 'a | Halt halt

fun bind_outcome :: "'a outcome \<Rightarrow> ('a \<Rightarrow> 'b outcome) \<Rightarrow> 'b outcome" where
  "bind_outcome (Done x) f = f x"
| "bind_outcome (Halt h) f = Halt h"

declare bind_outcome.simps [outcome_simps]

lemma bind_outcome_Done_iff:
  "bind_outcome r f = Done y \<longleftrightarrow> (\<exists>x. r = Done x \<and> f x = Done y)"
  by (cases r) auto

lemma bind_outcome_assoc:
  "bind_outcome (bind_outcome r f) g = bind_outcome r (\<lambda>x. bind_outcome (f x) g)"
  by (cases r) auto

text \<open>A loop that may never end returns an \<open>option\<close>; not returning is spinning.\<close>

definition or_spin :: "'a option \<Rightarrow> 'a outcome" where
  "or_spin r = (case r of None \<Rightarrow> Halt Spin | Some x \<Rightarrow> Done x)"

lemma or_spin_simps [simp, outcome_simps]:
  "or_spin (Some x) = Done x"
  "or_spin None = Halt Spin"
  by (simp_all add: or_spin_def)

text \<open>The same for a loop whose body may halt.\<close>

definition join_spin :: "'a outcome option \<Rightarrow> 'a outcome" where
  "join_spin r = (case r of None \<Rightarrow> Halt Spin | Some x \<Rightarrow> x)"

lemma join_spin_simps [simp, outcome_simps]:
  "join_spin (Some x) = x"
  "join_spin None = Halt Spin"
  by (simp_all add: join_spin_def)

section \<open>Words and natural numbers\<close>

lemma unat_add_nowrap:
  fixes a b :: "'a::len word"
  assumes "unat a + unat b < 2 ^ LENGTH('a)"
  shows "unat (a + b) = unat a + unat b"
  using assms by (simp add: unat_word_ariths)

lemma unat_sub_nowrap:
  fixes a b :: "'a::len word"
  assumes "b \<le> a"
  shows "unat (a - b) = unat a - unat b"
  using assms by (simp add: unat_sub)

lemma unat_add_of_nat:
  fixes a :: "'a::len word"
  assumes "unat a + n < 2 ^ LENGTH('a)"
  shows "unat (a + of_nat n) = unat a + n"
proof -
  have "unat (of_nat n :: 'a word) = n"
    using assms by (simp add: unat_of_nat)
  with assms show ?thesis by (simp add: unat_add_nowrap)
qed

lemma unat_Suc_less:
  fixes i n :: "'a::len word"
  assumes "i < n"
  shows "unat (i + 1) = Suc (unat i)"
proof -
  have "unat i + 1 \<le> unat n"
    using assms by (simp add: word_less_nat_alt)
  also have "\<dots> < 2 ^ LENGTH('a)"
    by (rule unsigned_less)
  finally show ?thesis
    by (simp add: unat_add_nowrap)
qed

lemma unat_less_64: "unat (x :: u64) < 18446744073709551616"
  using unsigned_less [of x, where 'a = nat] by simp

lemma bit_mask_low: "take_bit k x = x AND mask k" for x :: "'a::len word"
  by (rule take_bit_eq_mask)

lemma and_not_mask_eq_sub: "x AND NOT (mask k) = x - take_bit k x" for x :: "'a::len word"
proof -
  have "(x AND NOT (mask k)) + (x AND mask k) = x"
    by (subst disjunctive_add)
      (auto simp: bit_simps intro!: bit_word_eqI)
  then show ?thesis
    by (simp add: take_bit_eq_mask algebra_simps)
qed

lemma unat_take_bit_mod: "unat (take_bit k x) = unat x mod 2 ^ k" for x :: "'a::len word"
  by (simp add: unsigned_take_bit_eq) (simp add: take_bit_eq_mod)

lemma unat_and_not_mask:
  fixes x :: "'a::len word"
  shows "unat (x AND NOT (mask k)) = unat x div 2 ^ k * 2 ^ k"
proof -
  have "take_bit k x \<le> x"
    by (simp add: word_le_nat_alt unat_take_bit_mod)
  then have "unat (x AND NOT (mask k)) = unat x - unat x mod 2 ^ k"
    by (simp add: and_not_mask_eq_sub unat_sub_nowrap unat_take_bit_mod)
  also have "\<dots> = unat x div 2 ^ k * 2 ^ k"
    by (simp add: minus_mod_eq_div_mult)
  finally show ?thesis .
qed

section \<open>Address ranges\<close>

text \<open>\<open>in_range a (b, n)\<close>: the address \<open>a\<close> is one of the \<open>n\<close> bytes that start at \<open>b\<close>.\<close>

definition in_range :: "u64 \<Rightarrow> u64 \<times> nat \<Rightarrow> bool" where
  "in_range a r \<longleftrightarrow> unat (a - fst r) < snd r"

definition range_disj :: "u64 \<times> nat \<Rightarrow> u64 \<times> nat \<Rightarrow> bool" where
  "range_disj r t \<longleftrightarrow> snd r \<le> unat (fst t - fst r) \<and> snd t \<le> unat (fst r - fst t)"

fun ranges_disj :: "(u64 \<times> nat) list \<Rightarrow> bool" where
  "ranges_disj [] = True"
| "ranges_disj (r # rs) = (list_all (range_disj r) rs \<and> ranges_disj rs)"

lemma range_disj_sym: "range_disj r t \<Longrightarrow> range_disj t r"
  by (simp add: range_disj_def)

lemma unat_sub_cases:
  fixes a b :: u64
  shows "unat (a - b) = (if unat b \<le> unat a then unat a - unat b
    else 18446744073709551616 + unat a - unat b)"
  using unat_less_64 [of b] by (auto simp: unat_sub_if')

lemma unat_add_cases:
  fixes a b :: u64
  shows "unat (a + b) = (if unat a + unat b < 18446744073709551616 then unat a + unat b
    else unat a + unat b - 18446744073709551616)"
  using unat_less_64 [of a] unat_less_64 [of b] by (simp add: unat_word_ariths mod_if)

lemma range_disj_in_range:
  assumes "range_disj r t" and "in_range a r"
  shows "\<not> in_range a t"
  using assms unat_less_64 [of a] unat_less_64 [of "fst r"] unat_less_64 [of "fst t"]
  by (auto simp: range_disj_def in_range_def unat_sub_cases split: if_splits)

lemma range_disjI:
  assumes "unat a + n \<le> unat b" and "unat b + k \<le> 18446744073709551616" and "0 < n"
  shows "range_disj (a, n) (b, k)"
  using assms by (auto simp: range_disj_def unat_sub_cases)

lemma range_disjI':
  assumes "unat b + k \<le> unat a" and "unat a + n \<le> 18446744073709551616" and "0 < k"
  shows "range_disj (a, n) (b, k)"
  using assms by (intro range_disj_sym [OF range_disjI])

lemma in_range_nowrap:
  assumes "unat a + n \<le> 18446744073709551616"
  shows "in_range x (a, n) \<longleftrightarrow> unat a \<le> unat x \<and> unat x < unat a + n"
  using assms unat_less_64 [of x] by (auto simp: in_range_def unat_sub_cases)

lemma range_disj_nowrap:
  assumes "unat a + n \<le> unat b \<or> unat b + k \<le> unat a"
    and "unat a + n \<le> 18446744073709551616" and "unat b + k \<le> 18446744073709551616"
    and "0 < n" and "0 < k"
  shows "range_disj (a, n) (b, k)"
  using assms by (auto intro: range_disjI range_disjI')

lemma range_disj_inside:
  assumes "range_disj u r" and "\<And>x. in_range x t \<Longrightarrow> in_range x r" and "0 < snd t" and "0 < snd u"
  shows "range_disj t u"
proof -
  have "in_range (fst t) t" "in_range (fst u) u"
    using assms(3,4) by (simp_all add: in_range_def)
  then have "\<not> in_range (fst t) u" "\<not> in_range (fst u) t"
    using assms(1,2) by (blast dest: range_disj_in_range range_disj_sym)+
  then show ?thesis
    by (simp add: range_disj_def in_range_def)
qed

lemma range_disj_mono:
  assumes "range_disj (a, n) t" and "n' \<le> n"
  shows "range_disj (a, n') t"
  using assms by (auto simp: range_disj_def)

lemma range_disj_sub:
  assumes "range_disj (a, n) t" and "unat d + k \<le> n" and "0 < k"
  shows "range_disj (a + d, k) t"
  using assms unat_less_64 [of a] unat_less_64 [of "fst t"] unat_less_64 [of d]
  by (auto simp: range_disj_def unat_sub_cases unat_add_cases split: if_splits)

lemma ranges_disj_append:
  "ranges_disj (rs @ ts) \<longleftrightarrow>
    ranges_disj rs \<and> ranges_disj ts \<and> list_all (\<lambda>r. list_all (range_disj r) ts) rs"
  by (induction rs) (auto simp: list_all_iff)

end
