(* ===== verification/Number.thy ===== *)
theory Number
  imports Prelude
begin

text \<open>
  The arithmetic of \<^verbatim>\<open>kernel/include/types/number.h\<close>: rounding to an alignment,
  the alignment test, the minimum and the byte-order conversions. Every
  operation is on words of the width the source uses, so that wrapping is the
  one of the machine.
\<close>

section \<open>Operations\<close>

definition align_up :: "size_t \<Rightarrow> size_t \<Rightarrow> size_t" where
  "align_up v a = (v + a - 1) AND NOT (a - 1)"

definition align_down :: "size_t \<Rightarrow> size_t \<Rightarrow> size_t" where
  "align_down v a = v AND NOT (a - 1)"

definition is_aligned :: "size_t \<Rightarrow> size_t \<Rightarrow> bool" where
  "is_aligned v a \<longleftrightarrow> 0 = v mod a"

text \<open>The overloads for pointers convert to a number and back.\<close>

definition align_up_ptr :: "u64 \<Rightarrow> size_t \<Rightarrow> u64" where
  "align_up_ptr value_ptr alignment = align_up value_ptr alignment"

definition align_down_ptr :: "u64 \<Rightarrow> size_t \<Rightarrow> u64" where
  "align_down_ptr value_ptr alignment = align_down value_ptr alignment"

definition is_aligned_ptr :: "u64 \<Rightarrow> size_t \<Rightarrow> bool" where
  "is_aligned_ptr value_ptr alignment = is_aligned value_ptr alignment"

definition round_down :: "size_t \<Rightarrow> size_t \<Rightarrow> size_t" where
  "round_down v a = v AND NOT (a - 1)"

definition round_up :: "size_t \<Rightarrow> size_t \<Rightarrow> size_t" where
  "round_up v a = (v + (a - 1)) AND NOT (a - 1)"

definition num_min :: "'a::len word \<Rightarrow> 'a word \<Rightarrow> 'a word" where
  "num_min lhs rhs = (if lhs < rhs then lhs else rhs)"

definition flip_endianness16 :: "u16 \<Rightarrow> u16" where
  "flip_endianness16 num = drop_bit 8 num OR push_bit 8 num"

definition flip_endianness32 :: "u32 \<Rightarrow> u32" where
  "flip_endianness32 num =
     (drop_bit 24 num AND 0x000000FF) OR (drop_bit 8 num AND 0x0000FF00) OR
     (push_bit 8 num AND 0x00FF0000) OR (push_bit 24 num AND 0xFF000000)"

definition flip_endianness64 :: "u64 \<Rightarrow> u64" where
  "flip_endianness64 num =
     (drop_bit 56 num AND 0x00000000000000FF) OR (drop_bit 40 num AND 0x000000000000FF00) OR
     (drop_bit 24 num AND 0x0000000000FF0000) OR (drop_bit 8 num AND 0x00000000FF000000) OR
     (push_bit 8 num AND 0x000000FF00000000) OR (push_bit 24 num AND 0x0000FF0000000000) OR
     (push_bit 40 num AND 0x00FF000000000000) OR (push_bit 56 num AND 0xFF00000000000000)"

text \<open>
  The 128-bit conversion copies bytes between two unions of a word and sixteen
  bytes; RISC-V is little-endian, so that \<^verbatim>\<open>bytes[i]\<close> holds the bits
  \<open>8 * i\<close> to \<open>8 * i + 7\<close>.
\<close>

definition byte_of :: "nat \<Rightarrow> 'a::len word \<Rightarrow> u8" where
  "byte_of i w = ucast (drop_bit (8 * i) w)"

definition bytes_of :: "nat \<Rightarrow> 'a::len word \<Rightarrow> u8 list" where
  "bytes_of n w = map (\<lambda>i. byte_of i w) [0..<n]"

fun word_of_bytes :: "u8 list \<Rightarrow> 'a::len word" where
  "word_of_bytes [] = 0"
| "word_of_bytes (b # bs) = ucast b OR push_bit 8 (word_of_bytes bs)"

fun flip_copy :: "u8 list \<Rightarrow> nat \<Rightarrow> nat \<Rightarrow> u8 list \<Rightarrow> u8 list" where
  "flip_copy src i 0 dst = dst"
| "flip_copy src i (Suc k) dst = flip_copy src (Suc i) k (dst[i := src ! (15 - i)])"

definition flip_endianness128 :: "u128 \<Rightarrow> u128" where
  "flip_endianness128 num = word_of_bytes (flip_copy (bytes_of 16 num) 0 16 (replicate 16 0))"

section \<open>Alignment\<close>

lemma align_up_eq_mask: "align_up v (2 ^ k) = (v + mask k) AND NOT (mask k)"
  by (simp add: align_up_def mask_eq_exp_minus_1 algebra_simps)

lemma align_down_eq_mask: "align_down v (2 ^ k) = v AND NOT (mask k)"
  by (simp add: align_down_def mask_eq_exp_minus_1)

lemma unat_pow_64:
  assumes "k < 64"
  shows "unat (2 ^ k :: u64) = 2 ^ k"
proof -
  have "unat (push_bit k 1 :: u64) = take_bit 64 (push_bit k 1)"
    using unsigned_push_bit_eq [of k "1 :: u64", where 'a = nat] by simp
  also have "\<dots> = 2 ^ k"
    using assms by (simp add: push_bit_eq_mult take_bit_nat_eq_self_iff)
  finally show ?thesis
    by (simp add: push_bit_eq_mult)
qed

lemma pow_64_le: "k < 64 \<Longrightarrow> (2 :: nat) ^ k \<le> 2 ^ 63"
  by (intro power_increasing) auto

lemma unat_mask_64:
  assumes "k < 64"
  shows "unat (mask k :: u64) = 2 ^ k - 1"
proof -
  have "(1 :: u64) \<le> 2 ^ k"
    using assms by (simp add: word_le_nat_alt unat_pow_64)
  then show ?thesis
    using assms by (simp add: mask_eq_exp_minus_1 unat_sub_nowrap unat_pow_64)
qed

lemma unat_align_down: "unat (align_down v (2 ^ k)) = unat v div 2 ^ k * 2 ^ k"
  by (simp add: align_down_eq_mask unat_and_not_mask)

lemma unat_align_up:
  assumes "k < 64" and "unat v + 2 ^ k \<le> 2 ^ 64"
  shows "unat (align_up v (2 ^ k)) = (unat v + (2 ^ k - 1)) div 2 ^ k * 2 ^ k"
proof -
  have "(0 :: nat) < 2 ^ k" by simp
  then have "unat v + (2 ^ k - 1) < 2 ^ 64"
    using assms(2) by linarith
  then have "unat (v + mask k) = unat v + (2 ^ k - 1)"
    using assms(1) by (subst unat_add_nowrap) (simp_all add: unat_mask_64)
  then show ?thesis
    by (simp add: align_up_eq_mask unat_and_not_mask)
qed

lemma is_aligned_dvd: "is_aligned v a \<longleftrightarrow> unat a dvd unat v"
proof -
  have "is_aligned v a \<longleftrightarrow> unat (v mod a) = 0"
    by (auto simp: is_aligned_def unat_eq_0)
  then show ?thesis
    by (simp add: unat_mod dvd_eq_mod_eq_0)
qed

lemma is_aligned_pow: "k < 64 \<Longrightarrow> is_aligned v (2 ^ k) \<longleftrightarrow> 2 ^ k dvd unat v"
  by (simp add: is_aligned_dvd unat_pow_64)

text \<open>Rounding up lands on the least multiple that is not smaller.\<close>

lemma nat_round_up_bounds:
  fixes n p :: nat
  assumes "0 < p"
  shows "n \<le> (n + (p - 1)) div p * p" and "(n + (p - 1)) div p * p < n + p"
    and "p dvd m \<Longrightarrow> n \<le> m \<Longrightarrow> (n + (p - 1)) div p * p \<le> m"
proof -
  have e: "(n + (p - 1)) div p * p + (n + (p - 1)) mod p = n + (p - 1)"
    by (rule div_mult_mod_eq)
  moreover have "(n + (p - 1)) mod p < p"
    using assms by simp
  ultimately show "n \<le> (n + (p - 1)) div p * p" and *: "(n + (p - 1)) div p * p < n + p"
    using assms by linarith+
  assume "p dvd m" and "n \<le> m"
  then obtain q where q: "m = p * q" by blast
  have "(n + (p - 1)) div p * p < (q + 1) * p"
    using * \<open>n \<le> m\<close> q by (simp add: algebra_simps)
  then have "(n + (p - 1)) div p < q + 1"
    by (simp only: mult_less_cancel2)
  then have "(n + (p - 1)) div p * p \<le> q * p"
    by (intro mult_le_mono1) simp
  then show "(n + (p - 1)) div p * p \<le> m"
    by (simp only: q mult.commute [of q p])
qed

lemma align_up_props:
  assumes "k < 64" and "unat v + 2 ^ k \<le> 2 ^ 64"
  shows "unat v \<le> unat (align_up v (2 ^ k))"
    and "unat (align_up v (2 ^ k)) < unat v + 2 ^ k"
    and "2 ^ k dvd unat (align_up v (2 ^ k))"
    and "2 ^ k dvd m \<Longrightarrow> unat v \<le> m \<Longrightarrow> unat (align_up v (2 ^ k)) \<le> m"
  unfolding unat_align_up [OF assms] by (rule nat_round_up_bounds; simp; fail | simp)+

lemma align_down_props:
  shows "unat (align_down v (2 ^ k)) \<le> unat v"
    and "unat v < unat (align_down v (2 ^ k)) + 2 ^ k"
    and "2 ^ k dvd unat (align_down v (2 ^ k))"
proof -
  have "unat v div 2 ^ k * 2 ^ k + unat v mod 2 ^ k = unat v"
    by (rule div_mult_mod_eq)
  moreover have "unat v mod 2 ^ k < 2 ^ k"
    by simp
  ultimately show "unat (align_down v (2 ^ k)) \<le> unat v"
    and "unat v < unat (align_down v (2 ^ k)) + 2 ^ k"
    unfolding unat_align_down by linarith+
qed (simp add: unat_align_down)

lemma align_up_id:
  assumes "k < 64" and "2 ^ k dvd unat v"
  shows "align_up v (2 ^ k) = v"
proof -
  have t: "take_bit k v = 0"
    using assms by (simp add: unat_eq_0 [symmetric] unat_take_bit_mod dvd_eq_mod_eq_0)
  have "\<not> bit v n" if "n < k" for n
    using t that by (metis bit_take_bit_iff bit_0_eq bot_apply bot_bool_def)
  then have "v AND mask k = 0"
    using t by (simp add: take_bit_eq_mask)
  then have "v + mask k = v OR mask k"
    by (simp add: disjunctive_add_eq_or)
  moreover have "(v OR mask k) AND NOT (mask k) = v"
    using t by (auto simp: bit_simps intro!: bit_word_eqI) (use \<open>\<And>n. n < k \<Longrightarrow> \<not> bit v n\<close> in blast)
  ultimately show ?thesis
    by (simp add: align_up_eq_mask)
qed

text \<open>The rounding macros compute the same words as the functions.\<close>

lemma round_macros: "round_up v a = align_up v a" "round_down v a = align_down v a"
  by (simp_all add: round_up_def align_up_def round_down_def align_down_def algebra_simps)

section \<open>Byte order\<close>

lemma bit_byte_of: "bit (byte_of i w) k \<longleftrightarrow> k < 8 \<and> bit w (8 * i + k)"
  by (simp add: byte_of_def bit_simps)

lemma length_bytes_of [simp]: "length (bytes_of n w) = n"
  by (simp add: bytes_of_def)

lemma nth_bytes_of [simp]: "i < n \<Longrightarrow> bytes_of n w ! i = byte_of i w"
  by (simp add: bytes_of_def)

lemma bit_word_of_bytes:
  "bit (word_of_bytes bs :: 'a::len word) n \<longleftrightarrow>
    n < LENGTH('a) \<and> n div 8 < length bs \<and> bit (bs ! (n div 8)) (n mod 8)"
proof (induction bs arbitrary: n)
  case Nil
  show ?case by simp
next
  case (Cons b bs)
  show ?case
  proof (cases "n < 8")
    case True
    then show ?thesis by (auto simp: bit_simps)
  next
    case False
    then have "n div 8 = Suc ((n - 8) div 8)" and "(n - 8) mod 8 = n mod 8"
      by (simp_all add: le_div_geq le_mod_geq)
    moreover have "\<not> bit (ucast b :: 'a word) n"
      using False by (auto simp: bit_simps dest: bit_imp_le_length)
    ultimately show ?thesis
      using False by (auto simp: bit_simps Cons.IH)
  qed
qed

lemma word_of_bytes_of:
  assumes "LENGTH('a) \<le> 8 * n"
  shows "word_of_bytes (bytes_of n w) = (w :: 'a::len word)"
proof (rule bit_word_eqI)
  fix i assume "i < LENGTH('a)"
  moreover from this have "i div 8 < n" using assms by auto
  ultimately show "bit (word_of_bytes (bytes_of n w) :: 'a word) i = bit w i"
    by (simp add: bit_word_of_bytes bit_byte_of)
qed

lemma byte_of_word_of_bytes:
  assumes "i < length bs" and "8 * length bs \<le> LENGTH('a)"
  shows "byte_of i (word_of_bytes bs :: 'a::len word) = bs ! i"
proof (rule bit_word_eqI)
  fix n assume "n < LENGTH(8)"
  then show "bit (byte_of i (word_of_bytes bs :: 'a word)) n = bit (bs ! i) n"
    using assms by (auto simp: bit_byte_of bit_word_of_bytes)
qed

lemma word_eq_bytesI:
  fixes v w :: "'a::len word"
  assumes "LENGTH('a) = 8 * n" and "\<And>i. i < n \<Longrightarrow> byte_of i v = byte_of i w"
  shows "v = w"
proof -
  have "bytes_of n v = bytes_of n w"
    using assms(2) by (simp add: bytes_of_def)
  moreover have "word_of_bytes (bytes_of n x) = x" for x :: "'a word"
    by (rule word_of_bytes_of) (simp only: assms(1))
  ultimately show ?thesis
    by metis
qed

text \<open>The masks of the source select one byte each.\<close>

definition byte_mask :: "nat \<Rightarrow> 'a::len word" where
  "byte_mask j = push_bit (8 * j) (mask 8)"

lemma bit_byte_mask:
  "bit (byte_mask j :: 'a::len word) n \<longleftrightarrow> n < LENGTH('a) \<and> 8 * j \<le> n \<and> n < 8 * j + 8"
  by (auto simp: byte_mask_def bit_simps)

lemma flip_masks32:
  "(0x000000FF :: u32) = byte_mask 0" "(0x0000FF00 :: u32) = byte_mask 1"
  "(0x00FF0000 :: u32) = byte_mask 2" "(0xFF000000 :: u32) = byte_mask 3"
  by (simp_all add: byte_mask_def mask_numeral)

lemma flip_masks64:
  "(0x00000000000000FF :: u64) = byte_mask 0" "(0x000000000000FF00 :: u64) = byte_mask 1"
  "(0x0000000000FF0000 :: u64) = byte_mask 2" "(0x00000000FF000000 :: u64) = byte_mask 3"
  "(0x000000FF00000000 :: u64) = byte_mask 4" "(0x0000FF0000000000 :: u64) = byte_mask 5"
  "(0x00FF000000000000 :: u64) = byte_mask 6" "(0xFF00000000000000 :: u64) = byte_mask 7"
  by (simp_all add: byte_mask_def mask_numeral)

lemma nat_less_cases:
  "(i :: nat) < 2 \<longleftrightarrow> i = 0 \<or> i = 1"
  "(i :: nat) < 4 \<longleftrightarrow> i = 0 \<or> i = 1 \<or> i = 2 \<or> i = 3"
  "(i :: nat) < 8 \<longleftrightarrow> i = 0 \<or> i = 1 \<or> i = 2 \<or> i = 3 \<or> i = 4 \<or> i = 5 \<or> i = 6 \<or> i = 7"
  by auto

lemma byte_of_flip16: "i < 2 \<Longrightarrow> byte_of i (flip_endianness16 w) = byte_of (1 - i) w"
  unfolding nat_less_cases
  by (rule bit_word_eqI) (auto simp: bit_byte_of flip_endianness16_def bit_simps
      dest: bit_imp_le_length)

lemma byte_of_flip32: "i < 4 \<Longrightarrow> byte_of i (flip_endianness32 w) = byte_of (3 - i) w"
  unfolding nat_less_cases flip_endianness32_def flip_masks32
  by (rule bit_word_eqI) (elim disjE; simp add: bit_byte_of bit_byte_mask bit_simps)

lemma byte_of_flip64: "i < 8 \<Longrightarrow> byte_of i (flip_endianness64 w) = byte_of (7 - i) w"
  unfolding nat_less_cases flip_endianness64_def flip_masks64
  by (rule bit_word_eqI) (elim disjE; simp add: bit_byte_of bit_byte_mask bit_simps)

lemma flip_copy_spec:
  assumes "length dst = 16" and "i + k \<le> 16" and "j < 16"
  shows "flip_copy src i k dst ! j = (if i \<le> j \<and> j < i + k then src ! (15 - j) else dst ! j)"
    and "length (flip_copy src i k dst) = 16"
  using assms
proof (induction src i k dst rule: flip_copy.induct)
  case (2 src i k dst)
  { case 1 with 2 show ?case by (auto simp: nth_list_update) }
  { case 2 with "2.IH" show ?case by simp }
qed auto

lemma byte_of_flip128:
  assumes "i < 16"
  shows "byte_of i (flip_endianness128 w) = byte_of (15 - i) w"
  using assms
  by (simp add: flip_endianness128_def byte_of_word_of_bytes flip_copy_spec)

lemmas byte_of_flip = byte_of_flip16 byte_of_flip32 byte_of_flip64 byte_of_flip128

lemma flip_endianness_involution:
  "flip_endianness16 (flip_endianness16 a) = a" "flip_endianness32 (flip_endianness32 b) = b"
  "flip_endianness64 (flip_endianness64 c) = c" "flip_endianness128 (flip_endianness128 d) = d"
proof -
  show "flip_endianness16 (flip_endianness16 a) = a"
    by (rule word_eq_bytesI [where n = 2]) (simp_all add: byte_of_flip)
  show "flip_endianness32 (flip_endianness32 b) = b"
    by (rule word_eq_bytesI [where n = 4]) (simp_all add: byte_of_flip)
  show "flip_endianness64 (flip_endianness64 c) = c"
    by (rule word_eq_bytesI [where n = 8]) (simp_all add: byte_of_flip)
  show "flip_endianness128 (flip_endianness128 d) = d"
    by (rule word_eq_bytesI [where n = 16]) (simp_all add: byte_of_flip)
qed

end
