(* ===== verification/Memory.thy ===== *)
theory Memory
  imports Number
begin

text \<open>
  Byte-addressed memory, the loads and stores the compiled code performs on it
  (RISC-V is little-endian), and the routines of \<^verbatim>\<open>kernel/src/memory.cpp\<close>. The
  reads in device-tree order of \<^verbatim>\<open>kernel/include/types/number.h\<close> are here too, as
  they read memory. The lemmas give each routine a closed form and each load a
  frame rule.
\<close>

type_synonym mem = "u64 \<Rightarrow> u8"

section \<open>Loads and stores\<close>

definition load_bytes :: "nat \<Rightarrow> mem \<Rightarrow> u64 \<Rightarrow> u8 list" where
  "load_bytes n m a = map (\<lambda>i. m (a + of_nat i)) [0..<n]"

fun store_bytes :: "mem \<Rightarrow> u64 \<Rightarrow> u8 list \<Rightarrow> mem" where
  "store_bytes m a [] = m"
| "store_bytes m a (b # bs) = store_bytes (m(a := b)) (a + 1) bs"

definition load32 :: "mem \<Rightarrow> u64 \<Rightarrow> u32" where
  "load32 m a = word_of_bytes (load_bytes 4 m a)"

definition load64 :: "mem \<Rightarrow> u64 \<Rightarrow> u64" where
  "load64 m a = word_of_bytes (load_bytes 8 m a)"

definition load128 :: "mem \<Rightarrow> u64 \<Rightarrow> u128" where
  "load128 m a = word_of_bytes (load_bytes 16 m a)"

definition store64 :: "mem \<Rightarrow> u64 \<Rightarrow> u64 \<Rightarrow> mem" where
  "store64 m a v = store_bytes m a (bytes_of 8 v)"

definition read_big_endian32 :: "mem \<Rightarrow> u64 \<Rightarrow> u32" where
  "read_big_endian32 m p = flip_endianness32 (load32 m p)"

definition read_big_endian64 :: "mem \<Rightarrow> u64 \<Rightarrow> u64" where
  "read_big_endian64 m p = flip_endianness64 (load64 m p)"

definition read_big_endian128 :: "mem \<Rightarrow> u64 \<Rightarrow> u128" where
  "read_big_endian128 m p = flip_endianness128 (load128 m p)"

section \<open>The routines of memory.cpp\<close>

function fill_loop :: "mem \<Rightarrow> u64 \<Rightarrow> u8 \<Rightarrow> size_t \<Rightarrow> size_t \<Rightarrow> mem" where
  "fill_loop m dst c count i =
     (if i < count then fill_loop (m(dst + i := c)) dst c count (i + 1) else m)"
  by pat_completeness auto
termination
  by (relation "measure (\<lambda>(m, dst, c, count, i). unat count - unat i)")
    (auto simp: unat_Suc_less word_less_nat_alt)

declare fill_loop.simps [simp del]

definition fill :: "mem \<Rightarrow> u64 \<Rightarrow> u8 \<Rightarrow> size_t \<Rightarrow> mem" where
  "fill m dest c count = fill_loop m dest c count 0"

function cmp_loop :: "mem \<Rightarrow> u64 \<Rightarrow> u64 \<Rightarrow> size_t \<Rightarrow> int" where
  "cmp_loop m lhs rhs count =
     (if count - 1 \<noteq> 0 \<and> m lhs = m rhs then cmp_loop m (lhs + 1) (rhs + 1) (count - 1)
      else uint (m lhs) - uint (m rhs))"
  by pat_completeness auto
termination
  by (relation "measure (\<lambda>(m, lhs, rhs, count). unat (count - 1))")
    (auto simp: unat_gt_0 unat_sub_cases simp flip: unat_eq_0)

declare cmp_loop.simps [simp del]

definition cmp :: "mem \<Rightarrow> u64 \<Rightarrow> u64 \<Rightarrow> size_t \<Rightarrow> int" where
  "cmp m lhs rhs count =
     (if lhs = rhs \<or> count = 0 then 0 else cmp_loop m lhs rhs count)"

function copy_loop :: "mem \<Rightarrow> u64 \<Rightarrow> u64 \<Rightarrow> size_t \<Rightarrow> size_t \<Rightarrow> mem" where
  "copy_loop m src dst count i =
     (if i < count then copy_loop (m(dst + i := m (src + i))) src dst count (i + 1) else m)"
  by pat_completeness auto
termination
  by (relation "measure (\<lambda>(m, src, dst, count, i). unat count - unat i)")
    (auto simp: unat_Suc_less word_less_nat_alt)

declare copy_loop.simps [simp del]

definition copy :: "mem \<Rightarrow> u64 \<Rightarrow> u64 \<Rightarrow> size_t \<Rightarrow> mem" where
  "copy m src dst count = copy_loop m src dst count 0"

partial_function (option) strlen_loop :: "mem \<Rightarrow> u64 \<Rightarrow> size_t \<Rightarrow> size_t option" where
  "strlen_loop m src len =
     (if m (src + len) \<noteq> 0 then strlen_loop m src (len + 1) else Some len)"

definition strlen :: "mem \<Rightarrow> u64 \<Rightarrow> size_t option" where
  "strlen m src = strlen_loop m src 0"

section \<open>Frame rules\<close>

lemma length_load_bytes [simp]: "length (load_bytes n m a) = n"
  by (simp add: load_bytes_def)

lemma nth_load_bytes [simp]: "i < n \<Longrightarrow> load_bytes n m a ! i = m (a + of_nat i)"
  by (simp add: load_bytes_def)

lemma in_range_offset:
  assumes "i < n" and "n \<le> 18446744073709551616"
  shows "in_range (a + of_nat i) (a, n)"
  using assms by (simp add: in_range_def unat_of_nat)

lemma load_bytes_frame:
  assumes "\<And>x. in_range x (a, n) \<Longrightarrow> m' x = m x" and "n \<le> 18446744073709551616"
  shows "load_bytes n m' a = load_bytes n m a"
  using assms by (simp add: load_bytes_def in_range_offset)

lemma load64_frame:
  "(\<And>x. in_range x (a, 8) \<Longrightarrow> m' x = m x) \<Longrightarrow> load64 m' a = load64 m a"
  unfolding load64_def by (subst load_bytes_frame) simp_all

lemma store_bytes_other:
  "\<not> in_range x (a, length bs) \<Longrightarrow> store_bytes m a bs x = m x"
proof (induction bs arbitrary: m a)
  case (Cons b bs)
  then have "x \<noteq> a" and "\<not> in_range x (a + 1, length bs)"
    using unat_less_64 [of x] unat_less_64 [of a]
    by (auto simp: in_range_def unat_sub_cases unat_add_cases split: if_splits)
  with Cons.IH show ?case by simp
qed simp

lemma store_bytes_nth:
  assumes "i < length bs" and "length bs \<le> 18446744073709551616"
  shows "store_bytes m a bs (a + of_nat i) = bs ! i"
  using assms
proof (induction bs arbitrary: m a i)
  case (Cons b bs)
  show ?case
  proof (cases i)
    case 0
    have "\<not> in_range a (a + 1, length bs)"
      using Cons.prems(2) by (simp add: in_range_def unsigned_minus_1_eq_mask mask_eq_exp_minus_1)
    with 0 show ?thesis by (simp add: store_bytes_other)
  next
    case (Suc j)
    then have "store_bytes (m(a := b)) (a + 1) bs ((a + 1) + of_nat j) = bs ! j"
      using Cons.prems by (intro Cons.IH) simp_all
    moreover have "(a + 1) + of_nat j = a + of_nat i"
      using Suc by simp
    ultimately show ?thesis
      using Suc by (simp del: fun_upd_apply)
  qed
qed simp

lemma load_store_bytes:
  assumes "length bs \<le> 18446744073709551616"
  shows "load_bytes (length bs) (store_bytes m a bs) a = bs"
  using assms by (intro nth_equalityI) (simp_all add: store_bytes_nth)

lemma load64_store64 [simp]: "load64 (store64 m a v) a = v"
proof -
  have "load_bytes 8 (store_bytes m a (bytes_of 8 v)) a = bytes_of 8 v"
    using load_store_bytes [of "bytes_of 8 v" m a] by simp
  then show ?thesis
    by (simp add: load64_def store64_def word_of_bytes_of)
qed

lemma store64_other: "\<not> in_range x (a, 8) \<Longrightarrow> store64 m a v x = m x"
  by (simp add: store64_def store_bytes_other)

lemma load64_store64_other:
  assumes "range_disj (a, 8) (b, 8)"
  shows "load64 (store64 m b v) a = load64 m a"
  by (rule load64_frame) (metis assms range_disj_in_range store64_other)

section \<open>Closed forms of the loops\<close>

lemma unat_of_nat_64: "n < 18446744073709551616 \<Longrightarrow> unat (of_nat n :: u64) = n"
  by (simp add: unat_of_nat)

text \<open>The last steps of the ranges that the counting loops sweep.\<close>

lemma in_range_shift:
  assumes "i < count"
  shows "in_range x (d + i, unat (count - i)) \<longleftrightarrow>
    x = d + i \<or> in_range x (d + (i + 1), unat (count - (i + 1)))"
proof -
  have "unat i < unat count"
    using assms by (simp add: word_less_nat_alt)
  moreover have "unat (i + 1) = Suc (unat i)"
    using assms by (rule unat_Suc_less)
  moreover have "x = d + i \<longleftrightarrow> unat (x - (d + i)) = 0"
    by (auto simp: unat_eq_0)
  moreover have "x - (d + (i + 1)) = x - (d + i) - 1"
    by simp
  ultimately show ?thesis
    unfolding in_range_def fst_conv snd_conv
    using unat_less_64 [of "x - (d + i)"] unat_less_64 [of count]
    by (simp only: unat_sub_cases [of count] unat_sub_cases [of "x - (d + i)"]) auto
qed

lemma fill_loop_eq:
  "fill_loop m d c count i x =
    (if i < count \<and> in_range x (d + i, unat (count - i)) then c else m x)"
proof (induction m d c count i rule: fill_loop.induct)
  case (1 m d c count i)
  show ?case
  proof (cases "i < count")
    case True
    have last: "\<not> i + 1 < count \<Longrightarrow> \<not> in_range x (d + (i + 1), unat (count - (i + 1)))"
      using True unat_Suc_less [OF True]
      by (auto simp: in_range_def word_less_nat_alt unat_sub_cases)
    have "fill_loop m d c count i x = fill_loop (m(d + i := c)) d c count (i + 1) x"
      using True by (simp only: fill_loop.simps [of m] if_True)
    also have "\<dots> = (if i + 1 < count \<and> in_range x (d + (i + 1), unat (count - (i + 1)))
        then c else (m(d + i := c)) x)"
      by (rule "1.IH" [OF True])
    also have "\<dots> = (if i < count \<and> in_range x (d + i, unat (count - i)) then c else m x)"
      using True last unfolding in_range_shift [OF True] fun_upd_apply by auto
    finally show ?thesis .
  qed (simp add: fill_loop.simps [of m])
qed

lemma fill_eq: "fill m d c count x = (if in_range x (d, unat count) then c else m x)"
  by (auto simp: fill_def fill_loop_eq in_range_def word_less_nat_alt)

lemma load_bytes_fill:
  assumes "unat (a - d) + n \<le> unat count"
  shows "load_bytes n (fill m d c count) a = replicate n c"
proof (rule nth_equalityI)
  fix i assume i: "i < length (load_bytes n (fill m d c count) a)"
  have "unat (a - d + of_nat i) = unat (a - d) + i"
    using i assms unat_less_64 [of count] by (intro unat_add_of_nat) simp
  then have "unat (a + of_nat i - d) = unat (a - d) + i"
    by (simp add: diff_add_eq)
  with i assms show "load_bytes n (fill m d c count) a ! i = replicate n c ! i"
    by (simp add: fill_eq in_range_def)
qed simp

lemma word_of_bytes_zero: "word_of_bytes (replicate n 0) = 0"
  by (induction n) auto

lemma load64_fill_zero:
  assumes "unat (a - d) + 8 \<le> unat count"
  shows "load64 (fill m d 0 count) a = 0"
  by (simp add: load64_def load_bytes_fill [OF assms] word_of_bytes_zero)

lemma load64_fill_other:
  "range_disj (a, 8) (d, unat count) \<Longrightarrow> load64 (fill m d c count) a = load64 m a"
  by (rule load64_frame) (auto simp: fill_eq dest: range_disj_in_range)

text \<open>Copying between ranges that do not meet.\<close>

lemma copy_loop_eq:
  assumes "range_disj (d, unat count) (s, unat count)"
  shows "copy_loop m s d count i x =
    (if i < count \<and> in_range x (d + i, unat (count - i)) then m (s + (x - d)) else m x)"
  using assms
proof (induction m s d count i rule: copy_loop.induct)
  case (1 m s d count i)
  show ?case
  proof (cases "i < count")
    case True
    have last: "\<not> i + 1 < count \<Longrightarrow> \<not> in_range x (d + (i + 1), unat (count - (i + 1)))"
      using True unat_Suc_less [OF True]
      by (auto simp: in_range_def word_less_nat_alt unat_sub_cases)
    have inner: "i + 1 < count \<Longrightarrow> in_range x (d + (i + 1), unat (count - (i + 1))) \<Longrightarrow>
        s + (x - d) \<noteq> d + i"
    proof
      assume "i + 1 < count" and x: "in_range x (d + (i + 1), unat (count - (i + 1)))"
        and eq: "s + (x - d) = d + i"
      have "in_range x (d, unat count)"
        using x True unat_Suc_less [OF True] \<open>i + 1 < count\<close>
          unat_add_cases [of "x - (d + (i + 1))" "i + 1"] unat_less_64 [of count]
        by (auto simp: in_range_def word_less_nat_alt unat_sub_nowrap word_le_nat_alt
            split: if_splits)
      then have "in_range (s + (x - d)) (s, unat count)"
        by (simp add: in_range_def)
      moreover have "in_range (d + i) (d, unat count)"
        using True by (simp add: in_range_def word_less_nat_alt)
      ultimately show False
        using eq range_disj_in_range [OF "1.prems", of "d + i"] by simp
    qed
    have "copy_loop m s d count i x = copy_loop (m(d + i := m (s + i))) s d count (i + 1) x"
      using True by (simp only: copy_loop.simps [of m] if_True)
    also have "\<dots> = (if i + 1 < count \<and> in_range x (d + (i + 1), unat (count - (i + 1)))
        then (m(d + i := m (s + i))) (s + (x - d)) else (m(d + i := m (s + i))) x)"
      by (rule "1.IH" [OF True "1.prems"])
    also have "\<dots> = (if i < count \<and> in_range x (d + i, unat (count - i))
        then m (s + (x - d)) else m x)"
      using True last inner unfolding in_range_shift [OF True] fun_upd_apply by auto
    finally show ?thesis .
  qed (simp add: copy_loop.simps [of m])
qed

lemma copy_eq:
  assumes "range_disj (d, unat count) (s, unat count)"
  shows "copy m s d count x = (if in_range x (d, unat count) then m (s + (x - d)) else m x)"
  by (auto simp: copy_def copy_loop_eq [OF assms] in_range_def word_less_nat_alt)

text \<open>The comparison finds the first difference.\<close>

definition first_diff :: "mem \<Rightarrow> u64 \<Rightarrow> u64 \<Rightarrow> nat \<Rightarrow> nat option" where
  "first_diff m l r n = find (\<lambda>k. m (l + of_nat k) \<noteq> m (r + of_nat k)) [0..<n]"

lemma find_upt_Suc:
  "find P [0..<Suc n] = (if P 0 then Some 0 else map_option Suc (find (\<lambda>k. P (Suc k)) [0..<n]))"
proof -
  have "find P (map Suc xs) = map_option Suc (find (\<lambda>k. P (Suc k)) xs)" for xs
    by (induction xs) auto
  moreover have "[0..<Suc n] = 0 # map Suc [0..<n]"
    by (simp add: map_Suc_upt upt_conv_Cons del: upt_Suc)
  ultimately show ?thesis by simp
qed

lemma first_diff_Suc:
  "first_diff m l r (Suc n) =
    (if m l \<noteq> m r then Some 0 else map_option Suc (first_diff m (l + 1) (r + 1) n))"
  unfolding first_diff_def find_upt_Suc by (simp add: ac_simps)

lemma cmp_loop_eq:
  assumes "unat count = Suc n"
  shows "cmp_loop m l r count = (case first_diff m l r (Suc n) of
    None \<Rightarrow> 0 | Some k \<Rightarrow> uint (m (l + of_nat k)) - uint (m (r + of_nat k)))"
  using assms
proof (induction n arbitrary: l r count)
  case 0
  then have "count = 1"
    by (simp add: word_unat_eq_iff)
  then show ?case
    by (simp add: cmp_loop.simps [of m] first_diff_def)
next
  case (Suc n)
  have "unat (count - 1) = Suc n"
    using Suc.prems by (simp add: unat_sub_cases)
  moreover from this have "count - 1 \<noteq> 0" by auto
  ultimately show ?case
    using Suc.IH [of "count - 1" "l + 1" "r + 1"]
    by (subst cmp_loop.simps, subst first_diff_Suc) (auto split: option.split simp: ac_simps)
qed

lemma cmp_eq:
  "cmp m l r count = (case first_diff m l r (unat count) of
    None \<Rightarrow> 0 | Some k \<Rightarrow> uint (m (l + of_nat k)) - uint (m (r + of_nat k)))"
proof (cases "l = r \<or> count = 0")
  case True
  then have "first_diff m l r (unat count) = None"
    by (auto simp: first_diff_def find_None_iff)
  with True show ?thesis by (simp add: cmp_def)
next
  case False
  then obtain n where "unat count = Suc n"
    by (metis not0_implies_Suc unat_eq_0)
  with False show ?thesis
    using cmp_loop_eq by (simp add: cmp_def)
qed

lemma first_diff_SomeD:
  assumes "first_diff m l r n = Some k"
  shows "k < n" and "m (l + of_nat k) \<noteq> m (r + of_nat k)"
    and "\<And>j. j < k \<Longrightarrow> m (l + of_nat j) = m (r + of_nat j)"
proof -
  from assms obtain i where i: "i < n" "m (l + of_nat i) \<noteq> m (r + of_nat i)" "k = i"
    "\<forall>j<i. m (l + of_nat j) = m (r + of_nat j)"
    unfolding first_diff_def find_Some_iff by auto
  then show "k < n" and "m (l + of_nat k) \<noteq> m (r + of_nat k)"
    and "\<And>j. j < k \<Longrightarrow> m (l + of_nat j) = m (r + of_nat j)" by auto
qed

text \<open>The length of a string is the distance to its first zero byte.\<close>

lemma strlen_loop_zero: "strlen_loop m s i = Some r \<Longrightarrow> m (s + r) = 0"
proof (rule strlen_loop.raw_induct [where P = "\<lambda>m s i r. m (s + r) = 0"], goal_cases)
  case (1 f m s i r)
  then show ?case by (auto split: if_splits)
qed

lemma strlen_loop_first:
  assumes "m (s + n) = 0" and "\<And>k. i \<le> k \<Longrightarrow> k < n \<Longrightarrow> m (s + k) \<noteq> 0" and "i \<le> n"
  shows "strlen_loop m s i = Some n"
  using assms(2,3)
proof (induction "unat n - unat i" arbitrary: i)
  case 0
  then have "i = n" by (simp add: word_le_nat_alt word_unat_eq_iff)
  then show ?case using assms(1) by (simp add: strlen_loop.simps)
next
  case (Suc d)
  then have "i < n" by (simp add: word_less_nat_alt)
  then have *: "unat (i + 1) = Suc (unat i)" by (rule unat_Suc_less)
  then have "strlen_loop m s (i + 1) = Some n"
    using Suc.hyps(2) Suc.prems \<open>i < n\<close>
    by (intro Suc.hyps(1)) (simp_all add: word_le_nat_alt word_less_nat_alt)
  with Suc.prems \<open>i < n\<close> show ?case
    by (subst strlen_loop.simps) simp
qed

lemma strlen_eq_Some_iff:
  "strlen m s = Some n \<longleftrightarrow> m (s + n) = 0 \<and> (\<forall>k. k < n \<longrightarrow> m (s + k) \<noteq> 0)"
proof
  show *: "strlen m s = Some n" if "m (s + n) = 0 \<and> (\<forall>k. k < n \<longrightarrow> m (s + k) \<noteq> 0)" for n
    using that unfolding strlen_def by (intro strlen_loop_first) auto
  assume s: "strlen m s = Some n"
  then have z: "m (s + n) = 0"
    unfolding strlen_def by (rule strlen_loop_zero)
  define l where "l = (LEAST l :: nat. m (s + of_nat l) = 0)"
  have l: "m (s + of_nat l) = 0"
    unfolding l_def by (rule LeastI [of _ "unat n"]) (simp add: z)
  have le: "l \<le> k" if "m (s + of_nat k) = 0" for k
    unfolding l_def using that by (rule Least_le)
  have "l \<le> unat n" using le [of "unat n"] z by simp
  then have ul: "unat (of_nat l :: u64) = l"
    using unat_less_64 [of n] by (simp add: unat_of_nat_64)
  have first: "\<forall>k. k < of_nat l \<longrightarrow> m (s + k) \<noteq> 0"
  proof (intro allI impI notI)
    fix k :: u64 assume "k < of_nat l" and "m (s + k) = 0"
    then show False using le [of "unat k"] ul by (simp add: word_less_nat_alt)
  qed
  then have "strlen m s = Some (of_nat l)" using * l by blast
  with s have "n = of_nat l" by simp
  with l first show "m (s + n) = 0 \<and> (\<forall>k. k < n \<longrightarrow> m (s + k) \<noteq> 0)" by simp
qed

end
