(* ===== verification/Views.thy ===== *)
theory Views
  imports Memory "HOL-Library.List_Lexorder"
begin

text \<open>
  The non-owning views of \<^verbatim>\<open>kernel/include/types/byte_view.h\<close> and
  \<^verbatim>\<open>kernel/include/types/str_view.h\<close>: a pointer and a length. The two classes hold
  the same search and comparison loops, which are shared here. The lemmas relate
  each operation to the sequence of bytes the view shows.
\<close>

section \<open>Byte views\<close>

record byte_view =
  bv_data :: u64
  bv_size :: size_t

definition s_sentinel :: size_t where
  "s_sentinel = - 1"

text \<open>The constructors; a size that a static assertion refuses is \<open>None\<close>.\<close>

definition byte_view_literal :: "u64 \<Rightarrow> size_t \<Rightarrow> byte_view option" where
  "byte_view_literal literal N =
     (if N - 1 = s_sentinel then None else Some \<lparr>bv_data = literal, bv_size = N - 1\<rparr>)"

definition byte_view_make :: "u64 \<Rightarrow> size_t \<Rightarrow> byte_view" where
  "byte_view_make buf buf_len = \<lparr>bv_data = buf, bv_size = buf_len\<rparr>"

definition byte_view_index :: "mem \<Rightarrow> byte_view \<Rightarrow> size_t \<Rightarrow> u8" where
  "byte_view_index m v i = m (bv_data v + i)"

text \<open>\<^verbatim>\<open>advance\<close> and \<^verbatim>\<open>shorten\<close> change the view in place and return a copy of it.\<close>

definition byte_view_advance :: "byte_view \<Rightarrow> size_t \<Rightarrow> byte_view" where
  "byte_view_advance v n = v\<lparr>bv_data := bv_data v + n\<rparr>"

definition byte_view_shorten :: "byte_view \<Rightarrow> size_t \<Rightarrow> byte_view" where
  "byte_view_shorten v n = v\<lparr>bv_size := bv_size v - n\<rparr>"

definition byte_view_subview :: "byte_view \<Rightarrow> size_t \<Rightarrow> size_t \<Rightarrow> byte_view" where
  "byte_view_subview v start len =
     (if start > bv_size v then \<lparr>bv_data = bv_data v + bv_size v, bv_size = 0\<rparr>
      else \<lparr>bv_data = bv_data v + start, bv_size = num_min len (bv_size v - start)\<rparr>)"

function find_loop :: "mem \<Rightarrow> u64 \<Rightarrow> size_t \<Rightarrow> u8 \<Rightarrow> size_t \<Rightarrow> size_t" where
  "find_loop m data len val i =
     (if i < len then
        (if m (data + i) = val then i else find_loop m data len val (i + 1))
      else s_sentinel)"
  by pat_completeness auto
termination
  by (relation "measure (\<lambda>(m, data, len, val, i). unat len - unat i)")
    (auto simp: unat_Suc_less word_less_nat_alt)

declare find_loop.simps [simp del]

definition byte_view_find :: "mem \<Rightarrow> byte_view \<Rightarrow> u8 \<Rightarrow> size_t \<Rightarrow> size_t" where
  "byte_view_find m v val start = find_loop m (bv_data v) (bv_size v) val start"

function compare_loop ::
  "mem \<Rightarrow> u64 \<Rightarrow> size_t \<Rightarrow> u64 \<Rightarrow> size_t \<Rightarrow> size_t \<Rightarrow> int" where
  "compare_loop m d1 n1 d2 n2 i =
     (if i < n1 \<and> i < n2 then
        (if m (d1 + i) \<noteq> m (d2 + i) then uint (m (d1 + i)) - uint (m (d2 + i))
         else compare_loop m d1 n1 d2 n2 (i + 1))
      else sint n1 - sint n2)"
  by pat_completeness auto
termination
  by (relation "measure (\<lambda>(m, d1, n1, d2, n2, i). unat n1 - unat i)")
    (auto simp: unat_Suc_less word_less_nat_alt)

declare compare_loop.simps [simp del]

definition byte_view_compare :: "mem \<Rightarrow> byte_view \<Rightarrow> byte_view \<Rightarrow> int" where
  "byte_view_compare m s1 s2 =
     compare_loop m (bv_data s1) (bv_size s1) (bv_data s2) (bv_size s2) 0"

section \<open>String views\<close>

record str_view =
  sv_data :: u64
  sv_size :: size_t

definition str_view_empty :: str_view where
  "str_view_empty = \<lparr>sv_data = 0, sv_size = 0\<rparr>"

text \<open>\<open>N\<close> counts the zero at the end of the literal.\<close>

definition str_view_literal :: "u64 \<Rightarrow> size_t \<Rightarrow> str_view option" where
  "str_view_literal literal N =
     (if N - 1 = s_sentinel then None else Some \<lparr>sv_data = literal, sv_size = N - 1\<rparr>)"

definition str_view_make :: "u64 \<Rightarrow> size_t \<Rightarrow> str_view" where
  "str_view_make str str_len = \<lparr>sv_data = str, sv_size = str_len\<rparr>"

text \<open>A string without a terminating zero byte keeps \<^verbatim>\<open>strlen\<close> running for ever.\<close>

definition str_view_from_null_term :: "mem \<Rightarrow> u64 \<Rightarrow> str_view outcome" where
  "str_view_from_null_term m str =
     bind_outcome (or_spin (strlen m str)) (\<lambda>n. Done \<lparr>sv_data = str, sv_size = n\<rparr>)"

definition str_view_from_byte_view :: "byte_view \<Rightarrow> str_view" where
  "str_view_from_byte_view v = \<lparr>sv_data = bv_data v, sv_size = bv_size v\<rparr>"

definition str_view_index :: "mem \<Rightarrow> str_view \<Rightarrow> size_t \<Rightarrow> u8" where
  "str_view_index m v i = m (sv_data v + i)"

definition str_view_advance :: "str_view \<Rightarrow> size_t \<Rightarrow> str_view" where
  "str_view_advance v n = \<lparr>sv_data = sv_data v + n, sv_size = sv_size v\<rparr>"

definition str_view_shorten :: "str_view \<Rightarrow> size_t \<Rightarrow> str_view" where
  "str_view_shorten v n = \<lparr>sv_data = sv_data v, sv_size = sv_size v - n\<rparr>"

definition str_view_substr :: "str_view \<Rightarrow> size_t \<Rightarrow> size_t \<Rightarrow> str_view" where
  "str_view_substr v start len =
     (if start > sv_size v then \<lparr>sv_data = sv_data v + sv_size v, sv_size = 0\<rparr>
      else \<lparr>sv_data = sv_data v + start, sv_size = num_min len (sv_size v - start)\<rparr>)"

definition str_view_find :: "mem \<Rightarrow> str_view \<Rightarrow> u8 \<Rightarrow> size_t \<Rightarrow> size_t" where
  "str_view_find m v c start = find_loop m (sv_data v) (sv_size v) c start"

definition str_view_compare :: "mem \<Rightarrow> str_view \<Rightarrow> str_view \<Rightarrow> int" where
  "str_view_compare m s1 s2 =
     compare_loop m (sv_data s1) (sv_size s1) (sv_data s2) (sv_size s2) 0"

section \<open>The bytes a view shows\<close>

definition view_bytes :: "mem \<Rightarrow> u64 \<Rightarrow> size_t \<Rightarrow> u8 list" where
  "view_bytes m d n = load_bytes (unat n) m d"

abbreviation bv_bytes :: "mem \<Rightarrow> byte_view \<Rightarrow> u8 list" where
  "bv_bytes m v \<equiv> view_bytes m (bv_data v) (bv_size v)"

abbreviation sv_bytes :: "mem \<Rightarrow> str_view \<Rightarrow> u8 list" where
  "sv_bytes m v \<equiv> view_bytes m (sv_data v) (sv_size v)"

text \<open>
  A view of a string literal shows the string; the constructor for byte arrays is the same, and leaves out the
  last byte of the array.
\<close>

lemma literal_size: "N - 1 \<noteq> s_sentinel \<Longrightarrow> unat (N - 1) = unat N - 1"
  by (cases "N = 0") (simp_all add: s_sentinel_def unat_minus_one)

lemma byte_view_literal_bytes:
  "byte_view_literal d N = Some v \<Longrightarrow> bv_bytes m v = butlast (load_bytes (unat N) m d)"
  by (cases "unat N") (auto simp: byte_view_literal_def view_bytes_def load_bytes_def literal_size split: if_split_asm)

lemma str_view_literal_bytes:
  "str_view_literal d N = Some v \<Longrightarrow> load_bytes (unat N) m d = s @ [0] \<Longrightarrow> sv_bytes m v = s"
  using byte_view_literal_bytes [of d N "\<lparr>bv_data = d, bv_size = N - 1\<rparr>" m]
  by (auto simp: byte_view_literal_def str_view_literal_def split: if_split_asm)

lemma length_view_bytes [simp]: "length (view_bytes m d n) = unat n"
  by (simp add: view_bytes_def)

lemma nth_view_bytes: "i < n \<Longrightarrow> view_bytes m d n ! unat i = m (d + i)"
  by (simp add: view_bytes_def word_less_nat_alt)

section \<open>Search\<close>

lemma find_loop_spec:
  assumes "i \<le> len"
  shows "find_loop m d len val i =
    (case find (\<lambda>k. view_bytes m d len ! k = val) [unat i..<unat len] of
       None \<Rightarrow> s_sentinel | Some k \<Rightarrow> of_nat k)"
  using assms
proof (induction m d len val i rule: find_loop.induct)
  case (1 m d len val i)
  show ?case
  proof (cases "i < len")
    case True
    then have up: "[unat i..<unat len] = unat i # [unat (i + 1)..<unat len]"
      by (simp add: unat_Suc_less upt_conv_Cons word_less_nat_alt)
    have "i + 1 \<le> len"
      using True by (rule inc_le)
    with True 1 show ?thesis
      by (simp add: find_loop.simps [of m d len val i] up nth_view_bytes)
  next
    case False
    with "1.prems" show ?thesis by (simp add: find_loop.simps)
  qed
qed

section \<open>Comparison\<close>

fun compare_bytes :: "u8 list \<Rightarrow> u8 list \<Rightarrow> int" where
  "compare_bytes (x # xs) (y # ys) =
     (if x \<noteq> y then uint x - uint y else compare_bytes xs ys)"
| "compare_bytes xs ys = int (length xs) - int (length ys)"

lemma compare_bytes_eq_0: "compare_bytes xs ys = 0 \<longleftrightarrow> xs = ys"
  by (induction xs ys rule: compare_bytes.induct) (auto simp: word_uint_eq_iff)

lemma compare_bytes_swap: "compare_bytes ys xs = - compare_bytes xs ys"
  by (induction xs ys rule: compare_bytes.induct) auto

lemma Nil_less_iff: "([] :: u8 list) < ys \<longleftrightarrow> ys \<noteq> []"
  by (cases ys) auto

lemma compare_bytes_less: "compare_bytes xs ys < 0 \<longleftrightarrow> xs < ys"
  by (induction xs ys rule: compare_bytes.induct) (auto simp: word_less_def Nil_less_iff)

lemma drop_view_bytes:
  "i < n \<Longrightarrow> drop (unat i) (view_bytes m d n) = m (d + i) # drop (unat (i + 1)) (view_bytes m d n)"
  by (subst Cons_nth_drop_Suc [symmetric])
    (simp_all add: nth_view_bytes unat_Suc_less word_less_nat_alt)

lemma sint_small:
  assumes "unat (n :: u64) < 2 ^ 63"
  shows "sint n = uint n"
proof -
  have "int (unat n) < int (2 ^ 63)"
    using assms by (simp only: of_nat_less_iff)
  then have "uint n < 2 ^ 63"
    by simp
  moreover have "- (2 ^ 63) \<le> uint n"
    by (rule order_trans [of _ 0]) simp_all
  ultimately show ?thesis
    by (simp add: sint_uint signed_take_bit_int_eq_self_iff)
qed

lemma compare_bytes_end:
  "xs = [] \<or> ys = [] \<Longrightarrow> compare_bytes xs ys = int (length xs) - int (length ys)"
  by (cases xs; cases ys) auto

lemma compare_loop_eq:
  assumes "unat n1 < 2 ^ 63" and "unat n2 < 2 ^ 63" and "i \<le> n1" and "i \<le> n2"
  shows "compare_loop m d1 n1 d2 n2 i =
    compare_bytes (drop (unat i) (view_bytes m d1 n1)) (drop (unat i) (view_bytes m d2 n2))"
  using assms
proof (induction m d1 n1 d2 n2 i rule: compare_loop.induct)
  case (1 m d1 n1 d2 n2 i)
  show ?case
  proof (cases "i < n1 \<and> i < n2")
    case True
    then have "i + 1 \<le> n1" "i + 1 \<le> n2"
      by (simp_all add: inc_le)
    with True 1 show ?thesis
      by (simp add: compare_loop.simps [of m d1 n1 d2 n2 i] drop_view_bytes)
  next
    case False
    then have "drop (unat i) (view_bytes m d1 n1) = [] \<or> drop (unat i) (view_bytes m d2 n2) = []"
      using "1.prems" by (auto simp: word_less_nat_alt)
    moreover have "unat i \<le> unat n1" "unat i \<le> unat n2"
      using "1.prems" by (simp_all add: word_le_nat_alt)
    ultimately have "compare_bytes (drop (unat i) (view_bytes m d1 n1))
        (drop (unat i) (view_bytes m d2 n2)) = uint n1 - uint n2"
      by (simp add: compare_bytes_end of_nat_diff)
    then show ?thesis
      using False "1.prems" by (subst compare_loop.simps) (simp only: if_False sint_small)
  qed
qed

text \<open>Both comparisons order views of less than \<open>2 ^ 63\<close> bytes by their contents.\<close>

lemma view_compare_eq:
  "unat (bv_size a) < 2 ^ 63 \<Longrightarrow> unat (bv_size b) < 2 ^ 63 \<Longrightarrow>
    byte_view_compare m a b = compare_bytes (bv_bytes m a) (bv_bytes m b)"
  "unat (sv_size s) < 2 ^ 63 \<Longrightarrow> unat (sv_size t) < 2 ^ 63 \<Longrightarrow>
    str_view_compare m s t = compare_bytes (sv_bytes m s) (sv_bytes m t)"
  by (simp_all add: byte_view_compare_def str_view_compare_def compare_loop_eq)

end
