(* ===== verification/Error.thy ===== *)
theory Error
  imports Views
begin

text \<open>
  The error codes and the error stack of \<^verbatim>\<open>kernel/include/types/error.h\<close>. An
  \<^verbatim>\<open>error\<close> is a 64-bit word; its low byte is the top error code. The table of
  messages has one entry per code below the guard value, so that reading the
  message of any other byte leaves the table.
\<close>

section \<open>Error codes\<close>

datatype error_code =
    SUCCESS
  | NOT_IMPLEMENTED
  | NULL_ARGUMENT
  | SLAB_REGION_TOO_SMALL
  | SLAB_BAD_ALIGN
  | LIMINE_REQUEST_ERROR
  | PMM_REGION_TOO_SMALL
  | PMM_REGION_LIST_FULL
  | PMM_REGION_MANAGED
  | PMM_REGION_NOT_MANAGED
  | PMM_BAD_ALIGN
  | PMM_OUT_OF_MEM
  | ELF_MAGIC_NUMBER
  | ELF_CLASS_32BIT
  | ELF_ENDIANNESS
  | ELF_WRONG_VERSION
  | ELF_NON_SYSVABI
  | ELF_WRONG_ABI_VERSION
  | ELF_UNSUPPORTED_TYPE
  | ELF_UNSUPPORTED_MACHINE
  | PAGING_UNALIGNED_ADDR
  | PAGING_ALLOC_FAILED
  | PAGING_MAP_EXISTS
  | DYN_ARR_REALLOC_FAILURE
  | DYN_ARR_ALLOC_FAILURE
  | DT_MAGIC_NUMBER
  | DT_NO_NODES
  | DT_REWRITE_FAILED
  | DT_ADDRESS_CELLS_TOO_LARGE
  | DT_SIZE_CELLS_TOO_LARGE
  | ERROR_CODE_GUARD_VALUE

text \<open>\<^verbatim>\<open>static_cast<u8>\<close> of an error code.\<close>

fun code_of :: "error_code \<Rightarrow> u8" where
  "code_of SUCCESS = 0"
| "code_of NOT_IMPLEMENTED = 1"
| "code_of NULL_ARGUMENT = 2"
| "code_of SLAB_REGION_TOO_SMALL = 3"
| "code_of SLAB_BAD_ALIGN = 4"
| "code_of LIMINE_REQUEST_ERROR = 5"
| "code_of PMM_REGION_TOO_SMALL = 6"
| "code_of PMM_REGION_LIST_FULL = 7"
| "code_of PMM_REGION_MANAGED = 8"
| "code_of PMM_REGION_NOT_MANAGED = 9"
| "code_of PMM_BAD_ALIGN = 10"
| "code_of PMM_OUT_OF_MEM = 11"
| "code_of ELF_MAGIC_NUMBER = 12"
| "code_of ELF_CLASS_32BIT = 13"
| "code_of ELF_ENDIANNESS = 14"
| "code_of ELF_WRONG_VERSION = 15"
| "code_of ELF_NON_SYSVABI = 16"
| "code_of ELF_WRONG_ABI_VERSION = 17"
| "code_of ELF_UNSUPPORTED_TYPE = 18"
| "code_of ELF_UNSUPPORTED_MACHINE = 19"
| "code_of PAGING_UNALIGNED_ADDR = 20"
| "code_of PAGING_ALLOC_FAILED = 21"
| "code_of PAGING_MAP_EXISTS = 22"
| "code_of DYN_ARR_REALLOC_FAILURE = 23"
| "code_of DYN_ARR_ALLOC_FAILURE = 24"
| "code_of DT_MAGIC_NUMBER = 25"
| "code_of DT_NO_NODES = 26"
| "code_of DT_REWRITE_FAILED = 27"
| "code_of DT_ADDRESS_CELLS_TOO_LARGE = 28"
| "code_of DT_SIZE_CELLS_TOO_LARGE = 29"
| "code_of ERROR_CODE_GUARD_VALUE = 30"

definition error_strings :: "string list" where
  "error_strings =
    [''SYS_OK: No error.'',
     ''NOT_IMPLEMENTED: This function has not been implemented.'',
     ''NULL_ARGUMENT: Pointer argument to function was NULL.'',
     ''SLAB_REGION_TOO_SMALL: Region added to slab_alloc is too small to allocate a block from.'',
     ''SLAB_BAD_ALIGN: Region added to slab_alloc is not aligned properly.'',
     ''LIMINE_REQUEST_ERROR: Limine requests failed.'',
     ''PMM_REGION_TOO_SMALL: Added a region that was smaller than system BASE_PAGE_SIZE.'',
     ''PMM_REGION_LIST_FULL: Region list is full, can't add more regions.'',
     ''PMM_REGION_MANAGED: Added a region that was already being managed.'',
     ''PMM_REGION_NOT_MANAGED: Removed a region that was not being managed.'',
     ''PMM_BAD_ALIGN: Alignment must be a power of two and at least system BASE_PAGE_SIZE.'',
     ''PMM_OUT_OF_MEM: There is not enough free memory to satisfy the allocation request.'',
     ''ELF_MAGIC_NUMBER: Invalid magic number found in file header, file may not be an ELF file.'',
     ''ELF_CLASS_32BIT: System only supports 64-bit ELF files, but a 32-bit ELF file was found.'',
     ''ELF_ENDIANNESS: System only supports little-endian ELF files.'',
     ''ELF_WRONG_VERSION: ELF file is compiled with non-current ELF version.'',
     ''ELF_NON_SYSVABI: ELF file is compiled with an ABI that isn't System-V.'',
     ''ELF_WRONG_ABI_VERSION: Elf file was not compiled for System-V version 3.'',
     ''ELF_UNSUPPORTED_TYPE: Elf file type is not one-of: { Relocatable, Executable, SharedObject, CoreDump }.'',
     ''ELF_UNSUPPORTED_MACHINE: Elf file was not compiled for RISC-V.'',
     ''PAGING_UNALIGNED_ADDR: Attempted to install a page table with an unaligned vaddr_t or paddr_t.'',
     ''PAGING_ALLOC_FAILED: Physical paging allocation for intermediate page table failed.'',
     ''PAGING_MAP_EXISTS: Attempted to install a mapping where one already exists.'',
     ''DYN_ARR_REALLOC_FAILURE: Failed to grow a dynamic array.'',
     ''DYN_ARR_ALLOC_FAILURE: Failed to allocate initial memory for dynamic array.'',
     ''DT_MAGIC_NUMBER: The device tree blob magic number is invalid. Expected 0xD00DFEED.'',
     ''DT_NO_NODES: The parsed device tree blob was empty.'',
     ''DT_REWRITE_FAILED: Failed to rewrite device tree properties, either due to an unsupported property type or a malformed DTB.'',
     ''DT_ADDRESS_CELLS_TOO_LARGE: Failed to parse device tree, #address-cells property encountered with a value larger than 3.'',
     ''DT_SIZE_CELLS_TOO_LARGE: Failed to parse device tree, #size-cells property encountered with a value larger than 2.'']"

section \<open>The error stack\<close>

record error =
  m_stack :: u64

definition no_error :: error where
  "no_error = \<lparr>m_stack = 0\<rparr>"

definition error_of :: "error_code \<Rightarrow> error" where
  "error_of c = \<lparr>m_stack = ucast (code_of c)\<rparr>"

text \<open>
  \<^verbatim>\<open>push\<close> changes the error in place and returns a copy of it. The shift counts of
  \<^verbatim>\<open>push\<close> and \<^verbatim>\<open>pop\<close> are \<^verbatim>\<open>sizeof(ErrorCode)\<close>, the size of the code in bytes.
\<close>

definition sizeof_ErrorCode :: nat where
  "sizeof_ErrorCode = 1"

definition error_push :: "error \<Rightarrow> error_code \<Rightarrow> error" where
  "error_push e c =
     \<lparr>m_stack = push_bit sizeof_ErrorCode (m_stack e) OR ucast (code_of c)\<rparr>"

definition error_pop :: "error \<Rightarrow> error" where
  "error_pop e = \<lparr>m_stack = drop_bit sizeof_ErrorCode (m_stack e)\<rparr>"

definition error_top :: "error \<Rightarrow> u8" where
  "error_top e = ucast (m_stack e AND 0xFF)"

definition is_ok :: "error \<Rightarrow> bool" where
  "is_ok e \<longleftrightarrow> error_top e = code_of SUCCESS"

definition is_err :: "error \<Rightarrow> bool" where
  "is_err e \<longleftrightarrow> \<not> is_ok e"

definition error_str :: "error \<Rightarrow> string outcome" where
  "error_str e =
     (if unat (error_top e) < length error_strings
      then Done (error_strings ! unat (error_top e)) else Halt Out_of_bounds)"

section \<open>Codes as bytes\<close>

lemma length_error_strings [simp]: "length error_strings = 30"
  by (simp add: error_strings_def)

lemma code_of_inject: "code_of a = code_of b \<longleftrightarrow> a = b"
  by (cases a; cases b) simp_all

lemma code_of_le: "code_of c \<le> 30"
  by (cases c) simp_all

lemma code_of_eq_0_iff: "code_of c = 0 \<longleftrightarrow> c = SUCCESS"
  using code_of_inject [of c SUCCESS] by simp

lemma code_of_in_table: "unat (code_of c) < length error_strings \<longleftrightarrow> c \<noteq> ERROR_CODE_GUARD_VALUE"
  by (cases c) simp_all

text \<open>Codes of the scoped enumeration compare by their byte.\<close>

instantiation error_code :: linorder
begin

definition less_eq_error_code :: "error_code \<Rightarrow> error_code \<Rightarrow> bool" where
  "less_eq_error_code a b \<longleftrightarrow> code_of a \<le> code_of b"

definition less_error_code :: "error_code \<Rightarrow> error_code \<Rightarrow> bool" where
  "less_error_code a b \<longleftrightarrow> code_of a < code_of b"

instance
proof
  fix a b c :: error_code
  show "a < b \<longleftrightarrow> a \<le> b \<and> \<not> b \<le> a"
    by (auto simp: less_eq_error_code_def less_error_code_def)
  show "a \<le> b \<Longrightarrow> b \<le> a \<Longrightarrow> a = b"
    by (simp add: less_eq_error_code_def flip: code_of_inject)
qed (auto simp: less_eq_error_code_def)

end

section \<open>The top of the stack\<close>

lemma byte_of_and_FF: "(ucast ((w :: u64) AND 0xFF) :: u8) = ucast w"
proof -
  have m: "(0xFF :: u64) = mask 8" by (simp add: mask_numeral)
  show ?thesis unfolding m by (rule bit_word_eqI) (auto simp: bit_simps)
qed

lemma error_top_eq: "error_top e = ucast (m_stack e)"
  by (simp add: error_top_def byte_of_and_FF)

lemma ucast_byte: "(ucast (ucast (x :: u8) :: u64) :: u8) = x"
  by (rule bit_word_eqI) (auto simp: bit_simps)

lemma error_top_of [simp]: "error_top (error_of c) = code_of c"
  by (simp add: error_top_eq error_of_def ucast_byte)

lemma error_top_no_error [simp]: "error_top no_error = 0"
  by (simp add: error_top_eq no_error_def)

lemma error_of_inject [simp]: "error_of c = error_of d \<longleftrightarrow> c = d"
  using error_top_of code_of_inject by metis

lemma is_ok_error_of [simp]: "is_ok (error_of c) \<longleftrightarrow> c = SUCCESS"
  by (simp add: is_ok_def code_of_eq_0_iff)

lemma is_ok_no_error [simp]: "is_ok no_error"
  by (simp add: is_ok_def)

lemma is_err_error_of [simp]: "is_err (error_of c) \<longleftrightarrow> c \<noteq> SUCCESS"
  by (simp add: is_err_def)

lemma error_str_of:
  "c \<noteq> ERROR_CODE_GUARD_VALUE \<Longrightarrow> error_str (error_of c) = Done (error_strings ! unat (code_of c))"
  by (simp add: error_str_def code_of_in_table [simplified])

text \<open>
  The shift by one bit mixes the old top with the pushed code: the new top is the
  old one doubled, or-ed with the code.
\<close>

lemma error_top_push: "error_top (error_push e c) = push_bit 1 (error_top e) OR code_of c"
  unfolding error_top_eq error_push_def sizeof_ErrorCode_def
  by (rule bit_word_eqI)
    (auto simp only: bit_or_iff bit_push_bit_iff bit_ucast_iff error.simps len_num0 len_bit0
      len_num1 possible_bit_word)

lemma word_or_eq_0: "x OR y = 0 \<longleftrightarrow> x = 0 \<and> y = 0" for x y :: "'a::len word"
  by (auto simp: bit_eq_iff bit_simps)

lemma is_err_push: "c \<noteq> SUCCESS \<Longrightarrow> is_err (error_push e c)"
  by (simp add: is_err_def is_ok_def error_top_push word_or_eq_0 code_of_eq_0_iff)

end
