(* ===== verification/Base_Properties.thy ===== *)
theory Base_Properties
  imports Views Error
begin

text \<open>
  What the freestanding support code guarantees: rounding, byte order, the memory
  routines, the views and the error stack.
\<close>

section \<open>Numbers\<close>



text \<open>The value of bytes in big-endian order.\<close>

definition be_value :: "u8 list \<Rightarrow> nat" where
  "be_value bs = foldl (\<lambda>acc b. 256 * acc + unat b) 0 bs"

fun le_value :: "u8 list \<Rightarrow> nat" where
  "le_value [] = 0"
| "le_value (b # bs) = unat b + 256 * le_value bs"

lemma be_value_rev: "be_value (rev bs) = le_value bs"
  by (induction bs) (simp_all add: be_value_def)

lemma le_value_less: "le_value bs < 256 ^ length bs"
proof (induction bs)
  case (Cons b bs)
  have "unat b < 256" using unsigned_less [of b] by simp
  with Cons show ?case by simp
qed simp

lemma unat_word_of_bytes:
  assumes "8 * length bs \<le> LENGTH('a)"
  shows "unat (word_of_bytes bs :: 'a::len word) = le_value bs"
  using assms
proof (induction bs)
  case (Cons b bs)
  let ?w = "word_of_bytes bs :: 'a word"
  have w: "unat ?w = le_value bs" using Cons by simp
  have "(256 :: nat) ^ length (b # bs) = 2 ^ (8 * length (b # bs))"
    by (simp add: power_add power_mult)
  also have "\<dots> \<le> 2 ^ LENGTH('a)"
    using Cons.prems by (intro power_increasing) simp_all
  finally have lt: "unat b + 256 * le_value bs < 2 ^ LENGTH('a)"
    using le_value_less [of "b # bs"] by simp
  have "ucast b AND push_bit 8 ?w = 0"
    by (rule bit_word_eqI) (auto simp: bit_simps dest: bit_imp_le_length)
  then have "ucast b OR push_bit 8 ?w = ucast b + push_bit 8 ?w"
    by (simp add: disjunctive_add_eq_or)
  moreover have "unat (push_bit 8 ?w) = 256 * le_value bs"
    unfolding unsigned_push_bit_eq w
    using lt by (simp add: take_bit_eq_mod push_bit_eq_mult)
  moreover have "unat (ucast b :: 'a word) = unat b"
    using lt by (simp add: unsigned_ucast_eq take_bit_nat_eq_self_iff)
  ultimately show ?case
    using lt by (simp add: unat_word_ariths)
qed simp

lemma bytes_of_flip:
  "bytes_of 2 (flip_endianness16 a) = rev (bytes_of 2 a)"
  "bytes_of 4 (flip_endianness32 b) = rev (bytes_of 4 b)"
  "bytes_of 8 (flip_endianness64 c) = rev (bytes_of 8 c)"
  "bytes_of 16 (flip_endianness128 d) = rev (bytes_of 16 d)"
  by (rule nth_equalityI; simp add: rev_nth byte_of_flip)+

text \<open>
  C28. Byte order. Every conversion reverses the bytes of its argument, and converting
  twice gives the argument back.
\<close>

theorem flip_endianness_reverses_bytes:
  "bytes_of 2 (flip_endianness16 a) = rev (bytes_of 2 a) \<and>
   bytes_of 4 (flip_endianness32 b) = rev (bytes_of 4 b) \<and>
   bytes_of 8 (flip_endianness64 c) = rev (bytes_of 8 c) \<and>
   bytes_of 16 (flip_endianness128 d) = rev (bytes_of 16 d) \<and>
   flip_endianness16 (flip_endianness16 a) = a \<and> flip_endianness32 (flip_endianness32 b) = b \<and>
   flip_endianness64 (flip_endianness64 c) = c \<and> flip_endianness128 (flip_endianness128 d) = d"
  by (simp add: bytes_of_flip flip_endianness_involution)

lemma bytes_of_load: "8 * n = LENGTH('a) \<Longrightarrow> bytes_of n (word_of_bytes (load_bytes n m p) :: 'a::len word) = load_bytes n m p"
  by (rule nth_equalityI) (simp_all add: byte_of_word_of_bytes)

lemma unat_of_rev_bytes:
  fixes w :: "'a::len word"
  assumes "8 * n = LENGTH('a)" and "bytes_of n w = rev bs"
  shows "unat w = be_value bs"
proof -
  have "w = word_of_bytes (rev bs)"
    using word_of_bytes_of [of n w] assms by simp
  moreover have "length bs = n"
    using arg_cong [OF assms(2), of length] by simp
  ultimately show ?thesis
    using unat_word_of_bytes [of "rev bs", where 'a = 'a] assms(1) be_value_rev [of "rev bs"] by simp
qed

text \<open>
  Reading big-endian integers. The value read at an address is the number that the
  bytes from there on write in base 256, most significant byte first.
\<close>

theorem read_big_endian_value:
  "unat (read_big_endian32 m p) = be_value (load_bytes 4 m p) \<and>
   unat (read_big_endian64 m p) = be_value (load_bytes 8 m p) \<and>
   unat (read_big_endian128 m p) = be_value (load_bytes 16 m p)"
proof (intro conjI)
  show "unat (read_big_endian32 m p) = be_value (load_bytes 4 m p)"
    unfolding read_big_endian32_def load32_def
    using bytes_of_flip(2) bytes_of_load [of 4 m p, where 'a = 32]
    by (intro unat_of_rev_bytes [of 4]) simp_all
  show "unat (read_big_endian64 m p) = be_value (load_bytes 8 m p)"
    unfolding read_big_endian64_def load64_def
    using bytes_of_flip(3) bytes_of_load [of 8 m p, where 'a = 64]
    by (intro unat_of_rev_bytes [of 8]) simp_all
  show "unat (read_big_endian128 m p) = be_value (load_bytes 16 m p)"
    unfolding read_big_endian128_def load128_def
    using bytes_of_flip(4) bytes_of_load [of 16 m p, where 'a = 128]
    by (intro unat_of_rev_bytes [of 16]) simp_all
qed

section \<open>Memory\<close>

text \<open>
  C26. \<open>fill\<close> and \<open>copy\<close>. The loops do what the library routines promise: \<open>fill\<close> sets
  exactly the bytes of its range; \<open>copy\<close>, between ranges that do not meet, makes the
  destination equal to the source and changes nothing else.
\<close>

theorem fill_copy_correct:
  assumes "range_disj (d, unat count) (s, unat count)"
  shows "(\<forall>x. fill m a c n x = (if in_range x (a, unat n) then c else m x)) \<and>
    load_bytes (unat count) (copy m s d count) d = load_bytes (unat count) m s \<and>
    (\<forall>x. \<not> in_range x (d, unat count) \<longrightarrow> copy m s d count x = m x)"
proof (intro conjI allI impI)
  show "load_bytes (unat count) (copy m s d count) d = load_bytes (unat count) m s"
  proof (rule nth_equalityI)
    fix i assume i: "i < length (load_bytes (unat count) (copy m s d count) d)"
    then have "in_range (d + of_nat i) (d, unat count)"
      using unat_less_64 [of count] by (intro in_range_offset) simp_all
    then show "load_bytes (unat count) (copy m s d count) d ! i = load_bytes (unat count) m s ! i"
      using i by (simp add: copy_eq [OF assms])
  qed simp
qed (simp_all add: fill_eq copy_eq [OF assms])

theorem fill_copy_correct_witness:
  "load_bytes 3 (copy (\<lambda>x. ucast x) 0x10 0x20 3) 0x20 = [0x10, 0x11, 0x12]"
proof -
  have "range_disj (0x20, unat (3 :: u64)) (0x10, unat (3 :: u64))"
    by (simp add: range_disj_def)
  from fill_copy_correct [OF this, where m = "\<lambda>x. ucast x"] show ?thesis
    by (simp add: load_bytes_def upt_rec)
qed

text \<open>
  \<open>cmp\<close>. The result is zero exactly when the two ranges hold the same bytes, and
  otherwise the difference of the first two bytes that differ.
\<close>

theorem cmp_first_difference:
  "(cmp m l r n = 0 \<longleftrightarrow> load_bytes (unat n) m l = load_bytes (unat n) m r) \<and>
   cmp m l r n = (case find (\<lambda>k. m (l + of_nat k) \<noteq> m (r + of_nat k)) [0..<unat n] of
     None \<Rightarrow> 0 | Some k \<Rightarrow> uint (m (l + of_nat k)) - uint (m (r + of_nat k)))"
proof (intro conjI)
  show eq: "cmp m l r n = (case find (\<lambda>k. m (l + of_nat k) \<noteq> m (r + of_nat k)) [0..<unat n] of
     None \<Rightarrow> 0 | Some k \<Rightarrow> uint (m (l + of_nat k)) - uint (m (r + of_nat k)))"
    unfolding cmp_eq first_diff_def ..
  show "cmp m l r n = 0 \<longleftrightarrow> load_bytes (unat n) m l = load_bytes (unat n) m r"
  proof (cases "first_diff m l r (unat n)")
    case None
    then have "cmp m l r n = 0" by (simp add: cmp_eq)
    moreover have "load_bytes (unat n) m l = load_bytes (unat n) m r"
      using None by (auto simp: first_diff_def find_None_iff load_bytes_def)
    ultimately show ?thesis by simp
  next
    case (Some k)
    note d = first_diff_SomeD [OF Some]
    have "load_bytes (unat n) m l ! k \<noteq> load_bytes (unat n) m r ! k" using d by simp
    then have "load_bytes (unat n) m l \<noteq> load_bytes (unat n) m r" by metis
    with d(2) Some show ?thesis by (simp add: cmp_eq word_uint_eq_iff)
  qed
qed

text \<open>
  C27. \<open>strlen\<close>. The loop ends with \<open>n\<close> exactly when byte \<open>n\<close> is the first zero byte of the
  string; without a zero byte anywhere it runs for ever, and only then.
\<close>

theorem strlen_first_zero:
  "(strlen m s = Some n \<longleftrightarrow> m (s + n) = 0 \<and> (\<forall>k. k < n \<longrightarrow> m (s + k) \<noteq> 0)) \<and>
   (strlen m s = None \<longleftrightarrow> (\<forall>k. m (s + k) \<noteq> 0))"
proof (intro conjI)
  show "strlen m s = None \<longleftrightarrow> (\<forall>k. m (s + k) \<noteq> 0)"
  proof
    assume none: "strlen m s = None"
    show "\<forall>k. m (s + k) \<noteq> 0"
    proof (rule ccontr)
      assume "\<not> (\<forall>k. m (s + k) \<noteq> 0)"
      then obtain k0 where "m (s + k0) = 0" by blast
      then obtain k where "m (s + k) = 0" "\<forall>j. unat j < unat k \<longrightarrow> m (s + j) \<noteq> 0"
        using exists_least_iff [of "\<lambda>n. \<exists>k. unat k = n \<and> m (s + k) = 0"] by metis
      then have "strlen m s = Some k"
        by (simp add: strlen_eq_Some_iff word_less_nat_alt)
      with none show False by simp
    qed
  next
    assume "\<forall>k. m (s + k) \<noteq> 0"
    then show "strlen m s = None"
      using strlen_eq_Some_iff [of m s] by (cases "strlen m s") auto
  qed
qed (rule strlen_eq_Some_iff)

theorem strlen_first_zero_witness:
  "strlen (\<lambda>x. if x = 0x103 then 0 else 0x41) 0x100 = Some 3 \<and> strlen (\<lambda>_. 0x41) 0x100 = None"
  using strlen_first_zero [of "\<lambda>x. if x = 0x103 then 0 else 0x41" "0x100" 3]
    strlen_first_zero [of "\<lambda>_. 0x41" "0x100" 3]
  by (auto simp: word_less_nat_alt)

section \<open>Views\<close>

lemma view_bytes_sub:
  assumes "start \<le> n" and "len \<le> n - start"
  shows "view_bytes m (d + start) len = take (unat len) (drop (unat start) (view_bytes m d n))"
proof (rule nth_equalityI)
  have n: "unat (n - start) = unat n - unat start"
    using assms(1) by (simp add: unat_sub_nowrap)
  then show "length (view_bytes m (d + start) len) =
      length (take (unat len) (drop (unat start) (view_bytes m d n)))"
    using assms(2) by (simp add: word_le_nat_alt)
  fix i assume "i < length (view_bytes m (d + start) len)"
  then show "view_bytes m (d + start) len ! i =
      take (unat len) (drop (unat start) (view_bytes m d n)) ! i"
    using assms n by (simp add: view_bytes_def word_le_nat_alt add.assoc)
qed

text \<open>
  Sub-views. The bytes shown by \<open>subview\<close> and \<open>substr\<close> are the corresponding segment of
  the bytes of the view, for every start and length, clipped at the end of the view.
\<close>

theorem subview_segment:
  "bv_bytes m (byte_view_subview v start len) = take (unat len) (drop (unat start) (bv_bytes m v)) \<and>
   sv_bytes m (str_view_substr t start len) = take (unat len) (drop (unat start) (sv_bytes m t))"
proof -
  have seg: "view_bytes m (d + start) (num_min len (n - start)) =
      take (unat len) (drop (unat start) (view_bytes m d n))" if "start \<le> n" for d n
  proof (cases "len < n - start")
    case True
    then show ?thesis using view_bytes_sub [OF that, of len m d] by (simp add: num_min_def)
  next
    case False
    then have le: "n - start \<le> len" by simp
    have "unat (n - start) = unat n - unat start"
      using that by (simp add: unat_sub_nowrap)
    then show ?thesis
      using view_bytes_sub [OF that order_refl, of m d] le False
      by (simp add: num_min_def word_le_nat_alt)
  qed
  have past: "view_bytes m p 0 = take (unat len) (drop (unat start) (view_bytes m d n))"
    if "n < start" for p d n
    using that by (simp add: view_bytes_def load_bytes_def word_less_nat_alt)
  show ?thesis
    using seg past by (auto simp: byte_view_subview_def str_view_substr_def)
qed



text \<open>
  Search in views. \<open>find\<close> returns the first index from the start that holds the byte,
  and the sentinel \<^verbatim>\<open>-1\<close> when there is none.
\<close>

theorem view_find_first:
  assumes "start \<le> sv_size v"
  shows "str_view_find m v c start =
    (case find (\<lambda>k. sv_bytes m v ! k = c) [unat start..<unat (sv_size v)] of
       None \<Rightarrow> s_sentinel | Some k \<Rightarrow> of_nat k)"
  unfolding str_view_find_def by (rule find_loop_spec [OF assms])

theorem view_find_first_witness:
  "str_view_find (\<lambda>x. ucast x) \<lparr>sv_data = 0x41, sv_size = 4\<rparr> 0x43 1 = 2"
  using view_find_first [of 1 "\<lparr>sv_data = 0x41, sv_size = 4\<rparr>" "\<lambda>x. ucast x" "0x43"]
  by (simp add: view_bytes_def load_bytes_def upt_rec)

section \<open>Errors\<close>

lemma ucast_take_bit_8: "(ucast (w :: u64) :: u8) = ucast (take_bit 8 w)"
  by (rule bit_word_eqI) (auto simp: bit_simps)

text \<open>
  C33. The error stack. Pushing a code onto an error shifts the stack by one bit, the value
  of \<^verbatim>\<open>sizeof(ErrorCode)\<close>, so that the new top is the old top doubled, or-ed with the
  code, and popping does not restore it. An allocation failure seen by the page
  tables reads as another error, and a failure of the device tree rewriting has no text.
\<close>

theorem error_push_mixes_codes:
  "error_top (error_push e c) = push_bit 1 (error_top e) OR code_of c \<and>
   error_top (error_pop (error_push e c)) = error_top e OR drop_bit 1 (code_of c) \<and>
   error_push (error_of PMM_OUT_OF_MEM) PAGING_ALLOC_FAILED = error_of DYN_ARR_REALLOC_FAILURE \<and>
   error_str (error_push (error_of DT_ADDRESS_CELLS_TOO_LARGE) DT_REWRITE_FAILED) = Halt Out_of_bounds"
proof (intro conjI)
  show "error_top (error_push e c) = push_bit 1 (error_top e) OR code_of c"
    by (rule error_top_push)
  show "error_top (error_pop (error_push e c)) = error_top e OR drop_bit 1 (code_of c)"
    unfolding error_top_eq error_push_def error_pop_def sizeof_ErrorCode_def
    by (rule bit_word_eqI)
      (auto simp only: bit_or_iff bit_push_bit_iff bit_drop_bit_eq bit_ucast_iff error.simps
        len_num0 len_bit0 len_num1 possible_bit_word o_apply add_diff_cancel_left')
qed (simp_all add: error_push_def error_of_def sizeof_ErrorCode_def error_str_def error_top_def
    error_strings_def)

end
