(* ===== verification/Slab.thy ===== *)
theory Slab
  imports Error
begin

text \<open>
  The slab allocator of \<^verbatim>\<open>kernel/include/allocators/slab.h\<close>. Regions and blocks
  live in memory: a region starts with the 32-byte header
  \<^verbatim>\<open>{m_total, m_free, m_blocks, m_next}\<close>, and a free block holds the address of the
  next free block in its first eight bytes. The template parameter \<^verbatim>\<open>T\<close> enters
  through its size and alignment.

  The abstraction of an allocator is the list of its regions, each with the
  addresses of its free blocks; \<open>slab_rep\<close> relates it to memory, and \<open>grow\<close> and
  \<open>alloc\<close> are shown to refine insertion of a region and removal of a block.
\<close>

section \<open>Layout\<close>

record slab_alloc =
  m_regions :: u64
  m_total :: u64
  m_free :: u64

definition slab_alloc_empty :: slab_alloc where
  "slab_alloc_empty = \<lparr>m_regions = 0, m_total = 0, m_free = 0\<rparr>"

definition sizeof_slab_region :: size_t where
  "sizeof_slab_region = 32"

definition alignof_slab_region :: size_t where
  "alignof_slab_region = 8"

text \<open>A block is a union of an eight-byte header and an object of type \<^verbatim>\<open>T\<close>.\<close>

definition block_align :: "size_t \<Rightarrow> size_t" where
  "block_align alignof_T = max 8 alignof_T"

definition block_sz :: "size_t \<Rightarrow> size_t \<Rightarrow> size_t" where
  "block_sz sizeof_T alignof_T = align_up (max 8 sizeof_T) (block_align alignof_T)"

definition region_align :: size_t where
  "region_align = alignof_slab_region"

definition region_size :: "size_t \<Rightarrow> size_t \<Rightarrow> size_t \<Rightarrow> size_t" where
  "region_size bsz bal n = align_up sizeof_slab_region bal + n * bsz"

definition minimal_region_sz :: "size_t \<Rightarrow> size_t \<Rightarrow> size_t" where
  "minimal_region_sz bsz bal = region_size bsz bal 1"

text \<open>Fields of a region in memory.\<close>

definition region_total :: "mem \<Rightarrow> u64 \<Rightarrow> u64" where
  "region_total m r = load64 m r"

definition region_free :: "mem \<Rightarrow> u64 \<Rightarrow> u64" where
  "region_free m r = load64 m (r + 8)"

definition region_blocks :: "mem \<Rightarrow> u64 \<Rightarrow> u64" where
  "region_blocks m r = load64 m (r + 16)"

definition region_next :: "mem \<Rightarrow> u64 \<Rightarrow> u64" where
  "region_next m r = load64 m (r + 24)"

section \<open>Operations\<close>

function link_loop :: "mem \<Rightarrow> u64 \<Rightarrow> u64 \<Rightarrow> size_t \<Rightarrow> u64 \<Rightarrow> u64 \<Rightarrow> mem \<times> u64" where
  "link_loop m block ptr bsz n i =
     (if i < n then
        link_loop (store64 m block (ptr + bsz)) (ptr + bsz) (ptr + bsz) bsz n (i + 1)
      else (m, block))"
  by pat_completeness auto
termination
  by (relation "measure (\<lambda>(m, block, ptr, bsz, n, i). unat n - unat i)")
    (auto simp: unat_Suc_less word_less_nat_alt)

declare link_loop.simps [simp del]

definition slab_grow ::
  "size_t \<Rightarrow> size_t \<Rightarrow> u64 \<Rightarrow> size_t \<Rightarrow> mem \<times> slab_alloc \<Rightarrow> (mem \<times> slab_alloc) outcome" where
  "slab_grow bsz bal buffer buffer_size = (\<lambda>(m, sa).
     if buffer = 0 then Halt (Assertion ''buffer != nullptr'')
     else if buffer mod region_align \<noteq> 0
       then Halt (Assertion ''reinterpret_cast<size_t>(buffer) % region_align() == 0'')
     else if buffer_size < minimal_region_sz bsz bal
       then Halt (Assertion ''buffer_size >= s_MINIMAL_REGION_SZ'')
     else
       let new_region = buffer;
           buffer_size' = buffer_size - sizeof_slab_region;
           ptr = buffer + align_up sizeof_slab_region bal;
           n = buffer_size' div bsz;
           m1 = store64 (store64 m new_region n) (new_region + 8) n;
           m2 = store64 m1 (new_region + 16) ptr;
           (m3, block) = link_loop m2 ptr ptr bsz n 0;
           m4 = store64 m3 block 0;
           m5 = store64 m4 (new_region + 24) (m_regions sa)
       in Done (m5, sa\<lparr>m_regions := new_region, m_total := m_total sa + n,
                       m_free := m_free sa + n\<rparr>))"

text \<open>The constructor with a buffer.\<close>

definition slab_create :: "size_t \<Rightarrow> size_t \<Rightarrow> u64 \<Rightarrow> size_t \<Rightarrow> mem \<Rightarrow> (mem \<times> slab_alloc) outcome" where
  "slab_create bsz bal buffer N m = slab_grow bsz bal buffer N (m, slab_alloc_empty)"

text \<open>The search for a region with a free block follows the region list in memory.\<close>

partial_function (option) find_region :: "mem \<Rightarrow> u64 \<Rightarrow> u64 option" where
  "find_region m region =
     (if region \<noteq> 0 \<and> region_free m region = 0 then find_region m (region_next m region)
      else Some region)"

definition slab_alloc_block ::
  "bool \<Rightarrow> size_t \<Rightarrow> mem \<times> slab_alloc \<Rightarrow> (u64 \<times> mem \<times> slab_alloc) outcome" where
  "slab_alloc_block zero_out bsz = (\<lambda>(m, sa).
     if m_free sa = 0 then Done (0, m, sa)
     else bind_outcome (or_spin (find_region m (m_regions sa))) (\<lambda>region.
       if region = 0 then Done (0, m, sa)
       else
         let b = region_blocks m region in
         if b = 0 then Halt Null_deref
         else
           let m1 = store64 m (region + 16) (load64 m b);
               m2 = store64 m1 (region + 8) (region_free m1 region - 1);
               m3 = (if zero_out then fill m2 b 0 bsz else m2)
           in Done (b, m3, sa\<lparr>m_free := m_free sa - 1\<rparr>)))"

definition slab_free :: "u64 \<Rightarrow> error" where
  "slab_free obj = error_of NOT_IMPLEMENTED"

definition slab_free_count :: "slab_alloc \<Rightarrow> size_t" where
  "slab_free_count sa = m_free sa"

section \<open>Abstraction\<close>

text \<open>
  \<open>chain m p bs\<close>: starting from the pointer \<open>p\<close>, the free list runs through the
  blocks \<open>bs\<close>. What follows the last of them is left open: \<open>grow\<close> links one block
  more than it counts.
\<close>

fun chain :: "mem \<Rightarrow> u64 \<Rightarrow> u64 list \<Rightarrow> bool" where
  "chain m p [] = True"
| "chain m p (b # bs) = (p = b \<and> b \<noteq> 0 \<and> chain m (load64 m b) bs)"

fun region_list :: "mem \<Rightarrow> u64 \<Rightarrow> (u64 \<times> u64 list) list \<Rightarrow> bool" where
  "region_list m p [] = (p = 0)"
| "region_list m p ((r, bs) # xs) =
     (p = r \<and> r \<noteq> 0 \<and> region_free m r = of_nat (length bs) \<and>
      length bs < 2 ^ 64 \<and> chain m (region_blocks m r) bs \<and> region_list m (region_next m r) xs)"

text \<open>The bytes an allocator owns: headers, and the blocks that are free.\<close>

definition region_ranges :: "size_t \<Rightarrow> u64 \<times> u64 list \<Rightarrow> (u64 \<times> nat) list" where
  "region_ranges bsz = (\<lambda>(r, bs). (r, 32) # map (\<lambda>b. (b, unat bsz)) bs)"

definition slab_ranges :: "size_t \<Rightarrow> (u64 \<times> u64 list) list \<Rightarrow> (u64 \<times> nat) list" where
  "slab_ranges bsz xs = concat (map (region_ranges bsz) xs)"

definition free_total :: "(u64 \<times> u64 list) list \<Rightarrow> nat" where
  "free_total xs = sum_list (map (\<lambda>(r, bs). length bs) xs)"

definition slab_rep :: "size_t \<Rightarrow> mem \<times> slab_alloc \<Rightarrow> (u64 \<times> u64 list) list \<Rightarrow> bool" where
  "slab_rep bsz = (\<lambda>(m, sa) xs.
     8 \<le> unat bsz \<and> region_list m (m_regions sa) xs \<and> ranges_disj (slab_ranges bsz xs) \<and>
     m_free sa = of_nat (free_total xs) \<and> free_total xs < 2 ^ 64)"

text \<open>The abstract allocation: the first block of the first region that has one.\<close>

fun take_block :: "(u64 \<times> u64 list) list \<Rightarrow> (u64 \<times> (u64 \<times> u64 list) list) option" where
  "take_block [] = None"
| "take_block ((r, []) # xs) = map_option (\<lambda>(b, ys). (b, (r, []) # ys)) (take_block xs)"
| "take_block ((r, b # bs) # xs) = Some (b, (r, bs) # xs)"

section \<open>Frame rules\<close>

lemma chain_frame:
  assumes "\<And>b x. b \<in> set bs \<Longrightarrow> in_range x (b, 8) \<Longrightarrow> m' x = m x"
  shows "chain m' p bs = chain m p bs"
  using assms
proof (induction bs arbitrary: p)
  case (Cons b bs)
  have "load64 m' b = load64 m b"
    by (rule load64_frame) (simp add: Cons.prems [of b])
  moreover have "chain m' q bs = chain m q bs" for q
    by (rule Cons.IH) (meson Cons.prems list.set_intros(2))
  ultimately show ?case by simp
qed simp

lemma chain_frame_blocks:
  assumes "8 \<le> n" and "\<And>t x. t \<in> set (map (\<lambda>b. (b, n)) bs) \<Longrightarrow> in_range x t \<Longrightarrow> m' x = m x"
  shows "chain m' p bs = chain m p bs"
proof (rule chain_frame)
  fix b x assume "b \<in> set bs" and "in_range x (b, 8)"
  moreover from this have "in_range x (b, n)"
    using assms(1) by (simp add: in_range_def)
  ultimately show "m' x = m x"
    by (intro assms(2) [of "(b, n)"]) auto
qed

lemma in_range_field:
  assumes "in_range x (r + of_nat k, 8)" and "k + 8 \<le> n" and "n \<le> 2 ^ 64"
  shows "in_range x (r, n)"
proof -
  have "unat (x - r) = unat (x - (r + of_nat k) + of_nat k)"
    by simp
  also have "\<dots> = unat (x - (r + of_nat k)) + k"
    using assms by (intro unat_add_of_nat) (simp add: in_range_def)
  finally show ?thesis
    using assms by (simp add: in_range_def)
qed

lemma region_fields_frame:
  assumes "\<And>x. in_range x (r, 32) \<Longrightarrow> m' x = m x"
  shows "region_total m' r = region_total m r" "region_free m' r = region_free m r"
    "region_blocks m' r = region_blocks m r" "region_next m' r = region_next m r"
  unfolding region_total_def region_free_def region_blocks_def region_next_def
  using in_range_field [of _ r 0 32] in_range_field [of _ r 8 32]
    in_range_field [of _ r 16 32] in_range_field [of _ r 24 32]
  by (auto intro!: load64_frame assms)

lemma region_list_frame:
  assumes "8 \<le> unat bsz" and "\<And>t x. t \<in> set (slab_ranges bsz xs) \<Longrightarrow> in_range x t \<Longrightarrow> m' x = m x"
  shows "region_list m' p xs = region_list m p xs"
  using assms(2)
proof (induction xs arbitrary: p)
  case (Cons y xs)
  obtain r bs where y: "y = (r, bs)" by fastforce
  have hdr: "m' x = m x" if "in_range x (r, 32)" for x
    using Cons.prems [OF _ that] by (simp add: y slab_ranges_def region_ranges_def)
  have "chain m' q bs = chain m q bs" for q
    using assms(1) by (rule chain_frame_blocks)
      (rule Cons.prems, auto simp: y slab_ranges_def region_ranges_def)
  moreover have "region_list m' q xs = region_list m q xs" for q
    by (rule Cons.IH) (rule Cons.prems, simp_all add: slab_ranges_def)
  ultimately show ?case
    by (simp add: y region_fields_frame [OF hdr])
qed simp

lemma slab_ranges_append [simp]:
  "slab_ranges bsz (xs @ ys) = slab_ranges bsz xs @ slab_ranges bsz ys"
  by (simp add: slab_ranges_def)

lemma slab_ranges_Cons [simp]:
  "slab_ranges bsz ((r, bs) # xs) =
    (r, 32) # map (\<lambda>b. (b, unat bsz)) bs @ slab_ranges bsz xs"
  by (simp add: slab_ranges_def region_ranges_def)

lemma slab_ranges_Nil [simp]: "slab_ranges bsz [] = []"
  by (simp add: slab_ranges_def)

section \<open>The search\<close>

lemma take_block_NoneD:
  "take_block xs = None \<Longrightarrow> list_all (\<lambda>(r, bs). bs = []) xs"
  by (induction xs rule: take_block.induct) auto

lemma take_block_SomeD:
  assumes "take_block xs = Some (b, ys)"
  obtains pre r bs post where "xs = pre @ (r, b # bs) # post" and "ys = pre @ (r, bs) # post"
    and "list_all (\<lambda>(r, bs). bs = []) pre"
  using assms
proof (induction xs arbitrary: ys thesis rule: take_block.induct)
  case (2 r xs)
  then obtain zs where zs: "take_block xs = Some (b, zs)" "ys = (r, []) # zs" by auto
  from "2.IH" [OF _ zs(1)] obtain pre r' bs post where
    "xs = pre @ (r', b # bs) # post" "zs = pre @ (r', bs) # post"
    "list_all (\<lambda>(r, bs). bs = []) pre" by blast
  with zs(2) show ?case by (intro "2.prems"(1) [of "(r, []) # pre"]) auto
next
  case (3 r b' bs xs)
  then show ?case by (intro "3.prems"(1) [of "[]"]) auto
qed simp

lemma of_nat_64_eq_0: "n < 2 ^ 64 \<Longrightarrow> (of_nat n :: u64) = 0 \<longleftrightarrow> n = 0"
  using unat_of_nat_64 [of n] by (auto simp flip: unat_eq_0)

lemma find_region_skip:
  assumes "region_list m p (pre @ xs)" and "list_all (\<lambda>(r, bs). bs = []) pre"
  shows "\<exists>q. region_list m q xs \<and> find_region m p = find_region m q"
  using assms
proof (induction pre arbitrary: p)
  case (Cons y pre)
  obtain r where y: "y = (r, [])" using Cons.prems(2) by (cases y) auto
  with Cons.prems have "region_list m (region_next m r) (pre @ xs)"
    and "find_region m p = find_region m (region_next m r)"
    by (auto simp: find_region.simps [of m r])
  with Cons show ?case by auto
qed auto

section \<open>Allocation refines removal\<close>

definition alloc_mem :: "bool \<Rightarrow> size_t \<Rightarrow> mem \<Rightarrow> u64 \<Rightarrow> u64 \<Rightarrow> mem" where
  "alloc_mem zero_out bsz m r b =
     (let m1 = store64 m (r + 16) (load64 m b);
          m2 = store64 m1 (r + 8) (region_free m1 r - 1)
      in if zero_out then fill m2 b 0 bsz else m2)"

lemma alloc_mem_other:
  assumes "\<not> in_range x (r, 32)" and "\<not> in_range x (b, unat bsz)"
  shows "alloc_mem zo bsz m r b x = m x"
proof -
  have "\<not> in_range x (r + 8, 8)" "\<not> in_range x (r + 16, 8)"
    using assms(1) in_range_field [of x r 8 32] in_range_field [of x r 16 32] by auto
  with assms(2) show ?thesis
    by (simp add: alloc_mem_def Let_def fill_eq store64_other)
qed

lemma fields_disj:
  "range_disj (r + 8, 8) (r + 16, 8)" "range_disj (r + 16, 8) (r + 8, 8)"
  "range_disj (r, 8) (r + 8, 8)" "range_disj (r, 8) (r + 16, 8)" "range_disj (r, 8) (r + 24, 8)"
  "range_disj (r + 8, 8) (r, 8)" "range_disj (r + 16, 8) (r, 8)"
  "range_disj (r + 24, 8) (r + 8, 8)" "range_disj (r + 24, 8) (r + 16, 8)"
  "range_disj (r + 8, 8) (r + 24, 8)" "range_disj (r + 16, 8) (r + 24, 8)"
  by (simp_all add: range_disj_def unsigned_minus_1_eq_mask)

lemma alloc_mem_fields:
  assumes "range_disj (r, 32) (b, unat bsz)" and "8 \<le> unat bsz"
  shows "region_free (alloc_mem zo bsz m r b) r = region_free m r - 1"
    and "region_blocks (alloc_mem zo bsz m r b) r = load64 m b"
    and "region_next (alloc_mem zo bsz m r b) r = region_next m r"
proof -
  have sub: "range_disj (r + d, 8) (b, unat bsz)" if "unat d + 8 \<le> 32" for d
    using range_disj_sub [OF assms(1) that] by simp
  have fr: "load64 (if zo then fill m' b 0 bsz else m') (r + d) = load64 m' (r + d)"
    if "unat d + 8 \<le> 32" for d m'
    using load64_fill_other [OF sub [OF that]] by simp
  show "region_free (alloc_mem zo bsz m r b) r = region_free m r - 1"
    "region_blocks (alloc_mem zo bsz m r b) r = load64 m b"
    "region_next (alloc_mem zo bsz m r b) r = region_next m r"
    unfolding alloc_mem_def Let_def region_free_def region_blocks_def region_next_def
    by (simp_all add: fr load64_store64_other fields_disj)
qed

lemma alloc_mem_zeroed:
  assumes "unat (a - b) + 8 \<le> unat bsz"
  shows "load64 (alloc_mem True bsz m r b) a = 0"
  by (simp add: alloc_mem_def Let_def load64_fill_zero [OF assms])

lemma ranges_disj_remove:
  assumes "ranges_disj (as @ t # bs)"
  shows "ranges_disj (as @ bs)" and "\<And>u. u \<in> set (as @ bs) \<Longrightarrow> range_disj t u"
  using assms by (auto simp: ranges_disj_append list_all_iff intro: range_disj_sym)

lemma slab_ranges_take:
  assumes "ranges_disj (slab_ranges bsz (pre @ (r, b # bs) # post))"
  shows "ranges_disj (slab_ranges bsz (pre @ (r, bs) # post))"
    and "\<And>u. u \<in> set (slab_ranges bsz (pre @ (r, bs) # post)) \<Longrightarrow> range_disj (b, unat bsz) u"
    and "\<And>u. u \<in> set (slab_ranges bsz pre @ map (\<lambda>b. (b, unat bsz)) bs @ slab_ranges bsz post)
        \<Longrightarrow> range_disj (r, 32) u"
proof -
  let ?A = "slab_ranges bsz pre" let ?B = "map (\<lambda>b. (b, unat bsz)) bs @ slab_ranges bsz post"
  have "ranges_disj ((?A @ [(r, 32)]) @ (b, unat bsz) # ?B)"
    using assms by simp
  from ranges_disj_remove [OF this]
  show *: "ranges_disj (slab_ranges bsz (pre @ (r, bs) # post))"
    and "\<And>u. u \<in> set (slab_ranges bsz (pre @ (r, bs) # post)) \<Longrightarrow> range_disj (b, unat bsz) u"
    by simp_all
  from * have "ranges_disj (?A @ (r, 32) # ?B)" by simp
  from ranges_disj_remove(2) [OF this]
  show "\<And>u. u \<in> set (?A @ map (\<lambda>b. (b, unat bsz)) bs @ slab_ranges bsz post)
        \<Longrightarrow> range_disj (r, 32) u" by simp
qed

lemma region_list_update:
  assumes "8 \<le> unat bsz" and "region_list m p (pre @ (r, b # bs) # post)"
    and "\<And>t x. t \<in> set (slab_ranges bsz pre @ map (\<lambda>b. (b, unat bsz)) bs @ slab_ranges bsz post)
      \<Longrightarrow> in_range x t \<Longrightarrow> m' x = m x"
    and "region_free m' r = region_free m r - 1" and "region_blocks m' r = load64 m b"
    and "region_next m' r = region_next m r"
  shows "region_list m' p (pre @ (r, bs) # post)"
  using assms(2,3)
proof (induction pre arbitrary: p)
  case Nil
  have "chain m' q bs = chain m q bs" for q
    using assms(1) by (rule chain_frame_blocks) (rule Nil.prems(2), auto)
  moreover have "region_list m' q post = region_list m q post" for q
    using Nil.prems(2) by (intro region_list_frame [OF assms(1)]) auto
  ultimately show ?case
    using Nil.prems(1) assms(4-6) by auto
next
  case (Cons y pre)
  obtain r' bs' where y: "y = (r', bs')" by fastforce
  have "region_list m' (region_next m r') (pre @ (r, bs) # post)"
    using Cons.prems by (intro Cons.IH) (auto simp: y)
  moreover have "m' x = m x" if "in_range x (r', 32)" for x
    using Cons.prems(2) [OF _ that] by (simp add: y)
  note hdr = region_fields_frame [OF this]
  moreover have "chain m' q bs' = chain m q bs'" for q
    using assms(1) by (rule chain_frame_blocks) (rule Cons.prems(2), auto simp: y)
  ultimately show ?case
    using Cons.prems(1) by (simp add: y hdr)
qed

lemma free_total_simps [simp]:
  "free_total [] = 0" "free_total ((r, bs) # xs) = length bs + free_total xs"
  "free_total (xs @ ys) = free_total xs + free_total ys"
  by (simp_all add: free_total_def)

lemma take_block_None_total: "take_block xs = None \<longleftrightarrow> free_total xs = 0"
  by (induction xs rule: take_block.induct) (auto split: option.splits)

lemma slab_alloc_None:
  assumes "slab_rep bsz (m, sa) xs" and "take_block xs = None"
  shows "slab_alloc_block zo bsz (m, sa) = Done (0, m, sa)"
  using assms by (simp add: slab_rep_def slab_alloc_block_def take_block_None_total)

lemma slab_alloc_Some:
  assumes rep: "slab_rep bsz (m, sa) xs" and take: "take_block xs = Some (b, ys)"
  obtains r where "slab_alloc_block zo bsz (m, sa) =
      Done (b, alloc_mem zo bsz m r b, sa\<lparr>m_free := m_free sa - 1\<rparr>)"
    and "slab_rep bsz (alloc_mem zo bsz m r b, sa\<lparr>m_free := m_free sa - 1\<rparr>) ys"
    and "b \<noteq> 0" and "(r, 32) \<in> set (slab_ranges bsz xs)" and "(b, unat bsz) \<in> set (slab_ranges bsz xs)"
    and "\<And>u. u \<in> set (slab_ranges bsz ys) \<Longrightarrow> range_disj (b, unat bsz) u"
proof -
  from take obtain pre r bs post where xs: "xs = pre @ (r, b # bs) # post"
    and ys: "ys = pre @ (r, bs) # post" and pre: "list_all (\<lambda>(r, bs). bs = []) pre"
    by (rule take_block_SomeD)
  have sz: "8 \<le> unat bsz" and rl: "region_list m (m_regions sa) xs"
    and dj: "ranges_disj (slab_ranges bsz xs)" and fr: "m_free sa = of_nat (free_total xs)"
    and lt: "free_total xs < 2 ^ 64"
    using rep by (simp_all add: slab_rep_def)
  have "m_free sa \<noteq> 0"
    using of_nat_64_eq_0 [OF lt] by (simp add: fr xs)
  obtain q where q: "region_list m q ((r, b # bs) # post)"
    and find: "find_region m (m_regions sa) = find_region m q"
    using find_region_skip [OF rl [unfolded xs] pre] by blast
  then have "q = r" "r \<noteq> 0" "region_blocks m r = b" "b \<noteq> 0"
    and free: "region_free m r = of_nat (length (b # bs))" "length (b # bs) < 2 ^ 64"
    by simp_all
  have "region_free m r \<noteq> 0"
    using of_nat_64_eq_0 [OF free(2)] by (simp only: free(1)) simp
  then have "find_region m (m_regions sa) = Some r"
    using find \<open>q = r\<close> by (simp add: find_region.simps [of m r])
  with \<open>m_free sa \<noteq> 0\<close> \<open>r \<noteq> 0\<close> \<open>region_blocks m r = b\<close> \<open>b \<noteq> 0\<close>
  have step: "slab_alloc_block zo bsz (m, sa) =
      Done (b, alloc_mem zo bsz m r b, sa\<lparr>m_free := m_free sa - 1\<rparr>)"
    by (simp add: slab_alloc_block_def alloc_mem_def Let_def)
  note disj = slab_ranges_take [OF dj [unfolded xs]]
  have rb: "range_disj (r, 32) (b, unat bsz)"
    using disj(2) [of "(r, 32)"] by (auto intro: range_disj_sym)
  let ?m = "alloc_mem zo bsz m r b"
  have "region_list ?m (m_regions sa) ys"
    unfolding ys
  proof (rule region_list_update [OF sz rl [unfolded xs]])
    fix t x assume t: "t \<in> set (slab_ranges bsz pre @ map (\<lambda>b. (b, unat bsz)) bs @ slab_ranges bsz post)"
      and x: "in_range x t"
    have "\<not> in_range x (r, 32)"
      using disj(3) [OF t] x by (blast dest: range_disj_sym range_disj_in_range)
    moreover have "\<not> in_range x (b, unat bsz)"
      using disj(2) [of t] t x by (auto dest: range_disj_sym range_disj_in_range)
    ultimately show "?m x = m x" by (rule alloc_mem_other)
  qed (simp_all add: alloc_mem_fields [OF rb sz])
  moreover have "m_free sa - 1 = of_nat (free_total ys)"
    by (simp add: fr xs ys)
  ultimately have "slab_rep bsz (?m, sa\<lparr>m_free := m_free sa - 1\<rparr>) ys"
    using sz lt disj(1) by (simp add: slab_rep_def xs ys)
  with step show ?thesis
    using that \<open>b \<noteq> 0\<close> disj(2) by (auto simp: xs ys)
qed

section \<open>Linking the blocks of a new region\<close>

fun link_mem :: "mem \<Rightarrow> u64 \<Rightarrow> size_t \<Rightarrow> nat \<Rightarrow> mem" where
  "link_mem m p bsz 0 = m"
| "link_mem m p bsz (Suc k) = link_mem (store64 m p (p + bsz)) (p + bsz) bsz k"

lemma link_loop_eq:
  "i \<le> n \<Longrightarrow> link_loop m p p bsz n i =
    (link_mem m p bsz (unat n - unat i), p + of_nat (unat n - unat i) * bsz)"
proof (induction "unat n - unat i" arbitrary: m p i)
  case 0
  then have "\<not> i < n" by (simp add: word_less_nat_alt)
  with 0 show ?case by (simp add: link_loop.simps)
next
  case (Suc k)
  then have "i < n" by (simp add: word_less_nat_alt)
  then have i: "unat (i + 1) = Suc (unat i)" "i + 1 \<le> n"
    by (simp_all add: unat_Suc_less inc_le)
  have k: "unat n - unat (i + 1) = k" using Suc.hyps(2) i(1) by simp
  have "link_loop m p p bsz n i =
      link_loop (store64 m p (p + bsz)) (p + bsz) (p + bsz) bsz n (i + 1)"
    using \<open>i < n\<close> by (simp only: link_loop.simps [of m] if_True)
  also have "\<dots> = (link_mem (store64 m p (p + bsz)) (p + bsz) bsz k, p + bsz + of_nat k * bsz)"
    using Suc.hyps(1) [of "i + 1"] i(2) k by simp
  finally show ?case
    by (simp add: Suc.hyps(2) [symmetric] algebra_simps)
qed

lemma unat_of_nat_mult:
  fixes b :: u64
  assumes "j * unat b < 18446744073709551616"
  shows "unat (of_nat j * b) = j * unat b"
proof -
  have "unat (of_nat (j * unat b) :: u64) = j * unat b"
    using assms by (rule unat_of_nat_64)
  then show ?thesis by simp
qed

lemma spaced_disj:
  assumes "8 \<le> unat bsz" and "j * unat bsz + 8 \<le> 18446744073709551616" and "0 < j"
  shows "range_disj (p, 8) (p + of_nat j * bsz, 8)"
proof -
  have "unat bsz \<le> j * unat bsz" using \<open>0 < j\<close> by simp
  then have b: "8 \<le> j * unat bsz" "j * unat bsz \<le> 18446744073709551608"
    using assms(1,2) by linarith+
  then have u: "unat (of_nat j * bsz) = j * unat bsz"
    by (intro unat_of_nat_mult) simp
  have "unat (- (of_nat j * bsz)) = 18446744073709551616 - j * unat bsz"
    using unat_sub_cases [of 0 "of_nat j * bsz"] b(1) assms(1,3)
    by (simp only: u diff_0) simp
  with b u show ?thesis
    by (simp add: range_disj_def)
qed

lemma link_mem_other:
  assumes "\<And>j. j < k \<Longrightarrow> \<not> in_range x (p + of_nat j * bsz, 8)"
  shows "link_mem m p bsz k x = m x"
  using assms
proof (induction k arbitrary: m p)
  case (Suc k)
  have "\<not> in_range x (p + bsz + of_nat j * bsz, 8)" if "j < k" for j
    using Suc.prems [of "Suc j"] that by (simp add: algebra_simps)
  moreover have "\<not> in_range x (p, 8)"
    using Suc.prems [of 0] by simp
  ultimately show ?case
    using Suc.IH by (simp add: store64_other)
qed simp

lemma link_mem_load:
  assumes "8 \<le> unat bsz" and "k * unat bsz + 8 \<le> 18446744073709551616" and "j < k"
  shows "load64 (link_mem m p bsz k) (p + of_nat j * bsz) = p + of_nat (Suc j) * bsz"
  using assms(2,3)
proof (induction k arbitrary: m p j)
  case (Suc k)
  show ?case
  proof (cases j)
    case 0
    have "\<not> in_range x (p + bsz + of_nat l * bsz, 8)" if "l < k" and "in_range x (p, 8)" for l x
    proof -
      have "Suc l * unat bsz \<le> Suc k * unat bsz"
        using that(1) by (intro mult_le_mono1) simp
      then have "Suc l * unat bsz + 8 \<le> 18446744073709551616"
        using Suc.prems(1) by linarith
      then have "range_disj (p, 8) (p + of_nat (Suc l) * bsz, 8)"
        by (intro spaced_disj assms(1)) simp_all
      from range_disj_in_range [OF this that(2)] show ?thesis by (simp add: algebra_simps)
    qed
    then have "load64 (link_mem (store64 m p (p + bsz)) (p + bsz) bsz k) p =
        load64 (store64 m p (p + bsz)) p"
      by (intro load64_frame link_mem_other) auto
    with 0 show ?thesis by simp
  next
    case (Suc l)
    have "load64 (link_mem (store64 m p (p + bsz)) (p + bsz) bsz k) (p + bsz + of_nat l * bsz) =
        p + bsz + of_nat (Suc l) * bsz"
      using Suc.prems Suc by (intro Suc.IH) simp_all
    with Suc show ?thesis by (simp add: algebra_simps)
  qed
qed simp

lemma chain_spaced:
  assumes "\<And>j. j < k \<Longrightarrow> load64 m (p + of_nat j * bsz) = p + of_nat (Suc j) * bsz"
    and "\<And>j. j < k \<Longrightarrow> p + of_nat j * bsz \<noteq> 0"
  shows "chain m p (map (\<lambda>j. p + of_nat j * bsz) [0..<k])"
  using assms
proof (induction k arbitrary: p)
  case (Suc k)
  have "map (\<lambda>j. p + of_nat j * bsz) [0..<Suc k] =
      p # map (\<lambda>j. (p + bsz) + of_nat j * bsz) [0..<k]"
    by (simp add: upt_conv_Cons map_Suc_upt [symmetric] algebra_simps del: upt_Suc)
  moreover have "chain m (p + bsz) (map (\<lambda>j. (p + bsz) + of_nat j * bsz) [0..<k])"
    using Suc.prems(1) [of "Suc j" for j] Suc.prems(2) [of "Suc j" for j]
    by (intro Suc.IH) (auto simp: algebra_simps)
  ultimately show ?case
    using Suc.prems(1) [of 0] Suc.prems(2) [of 0] by simp
qed simp

section \<open>Growing refines insertion of a region\<close>

definition grow_mem :: "mem \<Rightarrow> u64 \<Rightarrow> u64 \<Rightarrow> u64 \<Rightarrow> size_t \<Rightarrow> size_t \<Rightarrow> mem" where
  "grow_mem m nx buffer ptr bsz n =
    (let m2 = store64 (store64 (store64 m buffer n) (buffer + 8) n) (buffer + 16) ptr;
         m4 = store64 (link_mem m2 ptr bsz (unat n)) (ptr + n * bsz) 0
     in store64 m4 (buffer + 24) nx)"

definition spaced :: "u64 \<Rightarrow> size_t \<Rightarrow> nat \<Rightarrow> u64 list" where
  "spaced p bsz k = map (\<lambda>j. p + of_nat j * bsz) [0..<k]"

lemma length_spaced [simp]: "length (spaced p bsz k) = k"
  by (simp add: spaced_def)

lemma slab_grow_eq:
  assumes "buffer \<noteq> 0" and "buffer mod region_align = 0"
    and "minimal_region_sz bsz bal \<le> buffer_size"
    and "ptr = buffer + align_up sizeof_slab_region bal"
    and "n = (buffer_size - sizeof_slab_region) div bsz"
  shows "slab_grow bsz bal buffer buffer_size (m, sa) =
    Done (grow_mem m (m_regions sa) buffer ptr bsz n,
      sa\<lparr>m_regions := buffer, m_total := m_total sa + n, m_free := m_free sa + n\<rparr>)"
  using assms(1-3)
  by (simp add: slab_grow_def grow_mem_def Let_def link_loop_eq assms(4,5) not_less)

text \<open>Rejected buffers: the three assertions.\<close>

lemma slab_grow_halts:
  assumes "buffer = 0 \<or> buffer mod region_align \<noteq> 0 \<or> buffer_size < minimal_region_sz bsz bal"
  shows "\<exists>msg. slab_grow bsz bal buffer buffer_size s = Halt (Assertion msg)"
  using assms by (cases s) (auto simp: slab_grow_def)

text \<open>Positions of the blocks of a buffer that ends before the address space does.\<close>

lemma unat_spaced:
  fixes p bsz :: u64
  assumes "unat p + k * unat bsz < 18446744073709551616" and "j \<le> k"
  shows "unat (p + of_nat j * bsz) = unat p + j * unat bsz"
proof -
  have "j * unat bsz \<le> k * unat bsz"
    using assms(2) by (rule mult_le_mono1)
  then have "unat p + j * unat bsz < 18446744073709551616"
    using assms(1) by linarith
  moreover from this have "j * unat bsz < 18446744073709551616"
    by linarith
  note u = unat_of_nat_mult [OF this]
  ultimately show ?thesis
    by (simp add: unat_add_cases u)
qed

lemma spaced_bounds:
  assumes "unat p + k * unat bsz < 18446744073709551616" and "b \<in> set (spaced p bsz k)"
  shows "unat p \<le> unat b" and "unat b + unat bsz \<le> unat p + k * unat bsz"
proof -
  from assms(2) obtain j where j: "j < k" "b = p + of_nat j * bsz"
    by (auto simp: spaced_def)
  have "unat b = unat p + j * unat bsz"
    using unat_spaced [OF assms(1), of j] j by simp
  moreover have "Suc j * unat bsz \<le> k * unat bsz"
    using j(1) by (intro mult_le_mono1) simp
  ultimately show "unat p \<le> unat b" and "unat b + unat bsz \<le> unat p + k * unat bsz"
    by simp_all
qed

lemma spaced_ranges_disj:
  assumes "unat p + k * unat bsz < 18446744073709551616" and "0 < unat bsz"
  shows "ranges_disj (map (\<lambda>b. (b, unat bsz)) (spaced p bsz k))"
  using assms
proof (induction k)
  case 0
  then show ?case by (simp add: spaced_def)
next
  case (Suc k)
  have bound: "unat p + k * unat bsz < 18446744073709551616"
    using Suc.prems by simp
  have "range_disj (b, unat bsz) (p + of_nat k * bsz, unat bsz)"
    if "b \<in> set (spaced p bsz k)" for b
    using spaced_bounds [OF bound that] unat_spaced [OF bound order_refl] Suc.prems
    by (intro range_disj_nowrap) simp_all
  with Suc bound show ?case
    by (simp add: spaced_def ranges_disj_append list_all_iff)
qed

text \<open>The memory after growing, for a buffer of \<open>buffer_size\<close> bytes at \<open>buffer\<close>.\<close>

lemma grow_mem_spec:
  fixes m :: mem and buffer bsz n nx :: u64
  defines "p \<equiv> buffer + 32"
  defines "m' \<equiv> grow_mem m nx buffer p bsz n"
  assumes sz: "8 \<le> unat bsz"
    and fit: "unat buffer + (32 + unat n * unat bsz + 8) \<le> 18446744073709551616"
  shows "region_total m' buffer = n" and "region_free m' buffer = n"
    and "region_blocks m' buffer = p" and "region_next m' buffer = nx"
    and "chain m' p (spaced p bsz (unat n))"
    and "load64 m' (p + n * bsz) = 0"
    and "\<And>x. \<not> in_range x (buffer, 32 + unat n * unat bsz + 8) \<Longrightarrow> m' x = m x"
proof -
  define m2 where "m2 = store64 (store64 (store64 m buffer n) (buffer + 8) n) (buffer + 16) p"
  define e where "e = p + n * bsz"
  define m3 where "m3 = link_mem m2 p bsz (unat n)"
  have m': "m' = store64 (store64 m3 e 0) (buffer + 24) nx"
    by (simp add: m'_def grow_mem_def m2_def m3_def e_def Let_def)
  have f: "unat (buffer + 8) = unat buffer + 8" "unat (buffer + 16) = unat buffer + 16"
    "unat (buffer + 24) = unat buffer + 24" "unat p = unat buffer + 32"
    using fit by (simp_all add: unat_add_cases p_def)
  have lt: "unat p + unat n * unat bsz < 18446744073709551616"
    using fit f by simp
  have e: "unat e = unat p + unat n * unat bsz"
    using unat_spaced [OF lt order_refl] by (simp add: e_def)
  have blk: "unat (p + of_nat j * bsz) = unat p + j * unat bsz" if "j \<le> unat n" for j
    using unat_spaced [OF lt that] .
  have step: "j * unat bsz + unat bsz \<le> unat n * unat bsz" if "j < unat n" for j
    using that mult_le_mono1 [of "Suc j" "unat n" "unat bsz"] by simp
  have out3: "m3 x = m2 x" if "unat x < unat p \<or> unat e \<le> unat x" for x
    unfolding m3_def
  proof (rule link_mem_other)
    fix j assume j: "j < unat n"
    then show "\<not> in_range x (p + of_nat j * bsz, 8)"
      using that step [OF j] sz e fit f
      by (subst in_range_nowrap) (auto simp: blk)
  qed
  have ld3: "load64 m3 a = load64 m2 a" if "unat a + 8 \<le> unat p" for a
    using that lt by (intro load64_frame out3) (simp add: in_range_nowrap)
  have far: "range_disj (buffer + d, 8) (e, 8)" if "unat d + 8 \<le> 32" for d
    using that f e fit by (intro range_disj_nowrap) (simp_all add: unat_add_cases)
  have lde: "load64 (store64 m3 e 0) (buffer + d) = load64 m3 (buffer + d)"
    if "unat d + 8 \<le> 32" for d
    using load64_store64_other [OF far [OF that]] .
  show "region_total m' buffer = n" "region_free m' buffer = n" "region_blocks m' buffer = p"
    "region_next m' buffer = nx"
    using lde [of 0] lde [of 8] lde [of 16] ld3 [of buffer] ld3 [of "buffer + 8"]
      ld3 [of "buffer + 16"] f
    unfolding region_total_def region_free_def region_blocks_def region_next_def m'
    by (simp_all add: load64_store64_other fields_disj m2_def)
  have ldm': "load64 m' a = load64 (store64 m3 e 0) a"
    if "unat p \<le> unat a" "unat a + 8 \<le> 18446744073709551616" for a
    unfolding m' using that f by (intro load64_store64_other range_disj_nowrap) simp_all
  show "load64 m' (p + n * bsz) = 0"
    using ldm' [of e] e fit f by (simp add: e_def)
  show "chain m' p (spaced p bsz (unat n))"
    unfolding spaced_def
  proof (rule chain_spaced)
    fix j assume j: "j < unat n"
    let ?a = "p + of_nat j * bsz"
    have a: "unat ?a = unat p + j * unat bsz" "unat ?a + unat bsz \<le> unat e"
      using blk [of j] step [OF j] e j by simp_all
    show "?a \<noteq> 0"
      using a(1) f by (auto simp flip: unat_eq_0)
    have "load64 m' ?a = load64 (store64 m3 e 0) ?a"
      using a sz e fit f by (intro ldm') simp_all
    also have "\<dots> = load64 m3 ?a"
      using a sz e fit f by (intro load64_store64_other range_disj_nowrap) simp_all
    also have "\<dots> = p + of_nat (Suc j) * bsz"
      unfolding m3_def
      using fit by (intro link_mem_load [OF sz _ j]) simp
    finally show "load64 m' ?a = p + of_nat (Suc j) * bsz" .
  qed
  show "m' x = m x" if "\<not> in_range x (buffer, 32 + unat n * unat bsz + 8)" for x
  proof -
    have x: "unat x < unat buffer \<or> unat e + 8 \<le> unat x"
      using that e f fit by (auto simp: in_range_nowrap)
    have "\<not> in_range x (buffer + d, 8)" if "unat d + 8 \<le> 32" for d
      using x that e f fit by (subst in_range_nowrap) (auto simp: unat_add_cases)
    note hdr = this
    have "\<not> in_range x (e, 8)"
      using x e f fit by (subst in_range_nowrap) auto
    then have "m' x = m3 x"
      using hdr [of 24] by (simp add: m' store64_other)
    also have "\<dots> = m2 x"
      using x f e by (intro out3) auto
    also have "\<dots> = m x"
      using hdr [of 0] hdr [of 8] hdr [of 16] by (simp add: m2_def store64_other)
    finally show ?thesis .
  qed
qed

lemma slab_ranges_spaced:
  assumes "unat buffer + (32 + k * unat bsz + 8) \<le> 18446744073709551616" and "8 \<le> unat bsz"
  shows "ranges_disj (region_ranges bsz (buffer, spaced (buffer + 32) bsz k))"
    and "\<And>t x. t \<in> set (region_ranges bsz (buffer, spaced (buffer + 32) bsz k)) \<Longrightarrow>
      in_range x t \<Longrightarrow> in_range x (buffer, 32 + k * unat bsz + 8)"
proof -
  have p: "unat (buffer + 32) = unat buffer + 32"
    using assms(1) by (simp add: unat_add_cases)
  have lt: "unat (buffer + 32) + k * unat bsz < 18446744073709551616"
    using assms(1) p by simp
  have hdr: "range_disj (buffer, 32) (b, unat bsz)" if "b \<in> set (spaced (buffer + 32) bsz k)" for b
    using spaced_bounds [OF lt that] p lt assms(2) by (intro range_disj_nowrap) simp_all
  then show "ranges_disj (region_ranges bsz (buffer, spaced (buffer + 32) bsz k))"
    using spaced_ranges_disj [OF lt] assms(2) by (simp add: region_ranges_def list_all_iff)
  show "in_range x (buffer, 32 + k * unat bsz + 8)"
    if t: "t \<in> set (region_ranges bsz (buffer, spaced (buffer + 32) bsz k))" and x: "in_range x t" for t x
  proof -
    consider "t = (buffer, 32)" | b where "b \<in> set (spaced (buffer + 32) bsz k)" "t = (b, unat bsz)"
      using t unfolding region_ranges_def by auto
    then show ?thesis
    proof cases
      case 1
      then show ?thesis using x by (simp add: in_range_def)
    next
      case 2
      then show ?thesis
        using spaced_bounds [OF lt 2(1)] x p lt assms(1) by (auto simp: in_range_nowrap)
    qed
  qed
qed

lemma slab_grow_rep:
  assumes rep: "slab_rep bsz (m, sa) xs"
    and buf: "buffer \<noteq> 0" "buffer mod region_align = 0"
    and min: "minimal_region_sz bsz bal \<le> buffer_size" and al: "align_up sizeof_slab_region bal = 32"
    and n: "n = (buffer_size - sizeof_slab_region) div bsz"
    and fit: "unat buffer + (32 + unat n * unat bsz + 8) \<le> 18446744073709551616"
    and fresh: "\<And>t. t \<in> set (slab_ranges bsz xs) \<Longrightarrow> range_disj t (buffer, 32 + unat n * unat bsz + 8)"
    and lt: "free_total xs + unat n < 18446744073709551616"
  obtains m' sa' where "slab_grow bsz bal buffer buffer_size (m, sa) = Done (m', sa')"
    and "slab_rep bsz (m', sa') ((buffer, spaced (buffer + 32) bsz (unat n)) # xs)"
    and "m_total sa' = m_total sa + n"
    and "\<And>x. \<not> in_range x (buffer, 32 + unat n * unat bsz + 8) \<Longrightarrow> m' x = m x"
proof -
  have sz: "8 \<le> unat bsz" and rl: "region_list m (m_regions sa) xs"
    and dj: "ranges_disj (slab_ranges bsz xs)" and fr: "m_free sa = of_nat (free_total xs)"
    using rep by (simp_all add: slab_rep_def)
  let ?m = "grow_mem m (m_regions sa) buffer (buffer + 32) bsz n"
  let ?sa = "sa\<lparr>m_regions := buffer, m_total := m_total sa + n, m_free := m_free sa + n\<rparr>"
  note spec = grow_mem_spec [OF sz fit, where m = m and nx = "m_regions sa"]
  have step: "slab_grow bsz bal buffer buffer_size (m, sa) = Done (?m, ?sa)"
    by (rule slab_grow_eq [OF buf min _ n]) (simp add: al)
  have "region_list ?m (m_regions sa) xs = region_list m (m_regions sa) xs"
    using fresh by (intro region_list_frame [OF sz] spec(7)) (blast dest: range_disj_in_range)
  then have "region_list ?m buffer ((buffer, spaced (buffer + 32) bsz (unat n)) # xs)"
    using rl buf(1) spec(2-5) unat_less_64 [of n] by simp
  moreover have "range_disj t u"
    if t: "t \<in> set (region_ranges bsz (buffer, spaced (buffer + 32) bsz (unat n)))"
      and u: "u \<in> set (slab_ranges bsz xs)" for t u
  proof (rule range_disj_inside [OF fresh [OF u]])
    show "in_range x t \<Longrightarrow> in_range x (buffer, 32 + unat n * unat bsz + 8)" for x
      by (rule slab_ranges_spaced(2) [OF fit sz t])
    show "0 < snd t" "0 < snd u"
      using t u sz by (auto simp: region_ranges_def slab_ranges_def)
  qed
  then have "ranges_disj (slab_ranges bsz ((buffer, spaced (buffer + 32) bsz (unat n)) # xs))"
    using slab_ranges_spaced(1) [OF fit sz] dj
    by (simp only: slab_ranges_def list.map concat.simps ranges_disj_append list_all_iff) blast
  moreover have "m_free sa + n = of_nat (free_total ((buffer, spaced (buffer + 32) bsz (unat n)) # xs))"
    by (simp add: fr)
  ultimately have "slab_rep bsz (?m, ?sa) ((buffer, spaced (buffer + 32) bsz (unat n)) # xs)"
    using sz lt by (simp add: slab_rep_def)
  with step show ?thesis
    using that spec(7) by simp
qed

text \<open>
  When the buffer is exactly as large as \<^verbatim>\<open>region_size\<close> says, the terminating null
  pointer of the free list is written to the eight bytes that follow the buffer.
\<close>

lemma slab_grow_past_end:
  assumes "buffer \<noteq> 0" and "buffer mod region_align = 0"
    and "minimal_region_sz bsz bal \<le> region_size bsz bal n"
    and "align_up sizeof_slab_region bal = 32" and "8 \<le> unat bsz"
    and "unat buffer + (32 + unat n * unat bsz + 8) \<le> 18446744073709551616"
  obtains m' sa' where
    "slab_grow bsz bal buffer (region_size bsz bal n) (m, sa) = Done (m', sa')"
    and "load64 m' (buffer + region_size bsz bal n) = 0"
proof -
  have lt: "unat n * unat bsz < 18446744073709551616"
    using assms(6) by linarith
  then have nb: "unat (n * bsz) = unat n * unat bsz"
    by (simp add: unat_word_ariths)
  have "unat (n * bsz div bsz) = unat n"
    using assms(5) by (simp add: unat_div nb)
  then have n: "n = (region_size bsz bal n - sizeof_slab_region) div bsz"
    using assms(4) by (simp add: region_size_def sizeof_slab_region_def) (simp add: word_unat_eq_iff)
  let ?m = "grow_mem m (m_regions sa) buffer (buffer + 32) bsz n"
  have "slab_grow bsz bal buffer (region_size bsz bal n) (m, sa) = Done (?m,
      sa\<lparr>m_regions := buffer, m_total := m_total sa + n, m_free := m_free sa + n\<rparr>)"
    by (rule slab_grow_eq [OF assms(1-3) _ n]) (simp add: assms(4))
  moreover have "load64 ?m (buffer + 32 + n * bsz) = 0"
    by (rule grow_mem_spec(6) [OF assms(5,6)])
  ultimately show ?thesis
    using that by (simp add: region_size_def assms(4) add.assoc)
qed

end
