(* ===== verification/Area_Source.thy ===== *)
theory Area_Source
  imports Prelude
begin

text \<open>
  The contract between a memory provider and its clients. A provider hands out areas
  of memory (\<open>acquire\<close>) and is given memory to hand out (\<open>donate\<close>). What it promises is
  stated over the set of bytes it still owns: an area it hands out comes from them and
  leaves them. The contract is the reason why two areas handed out never overlap, no
  matter how the calls are ordered. The slab allocator and the physical memory manager
  both meet it.
\<close>

type_synonym area = "u64 \<times> nat"

definition area_bytes :: "area \<Rightarrow> u64 set" where
  "area_bytes a = {x. in_range x a}"

definition all_bytes :: "area list \<Rightarrow> u64 set" where
  "all_bytes as = (\<Union>a \<in> set as. area_bytes a)"

fun pairwise_disjoint :: "area list \<Rightarrow> bool" where
  "pairwise_disjoint [] = True"
| "pairwise_disjoint (a # as) = (area_bytes a \<inter> all_bytes as = {} \<and> pairwise_disjoint as)"

lemma area_bytes_iff [simp]: "x \<in> area_bytes a \<longleftrightarrow> in_range x a"
  by (simp add: area_bytes_def)

lemma all_bytes_simps [simp]:
  "all_bytes [] = {}" "all_bytes (a # as) = area_bytes a \<union> all_bytes as"
  by (simp_all add: all_bytes_def)

lemma pairwise_disjoint_nth:
  assumes "pairwise_disjoint as" and "i < length as" and "j < length as" and "i \<noteq> j"
  shows "area_bytes (as ! i) \<inter> area_bytes (as ! j) = {}"
proof -
  have "area_bytes (as ! i) \<inter> area_bytes (as ! j) = {}"
    if "pairwise_disjoint as" "i < j" "j < length as" for i j
    using that
  proof (induction as arbitrary: i j)
    case (Cons a as)
    then obtain j' where j': "j = Suc j'" "j' < length as" by (cases j) auto
    then have "area_bytes (as ! j') \<subseteq> all_bytes as"
      using nth_mem [OF j'(2)] unfolding all_bytes_def by blast
    then show ?case
      using Cons.prems Cons.IH [of _ j'] j' by (cases i) auto
  qed simp
  then show ?thesis
    using assms by (metis Int_commute linorder_neqE_nat)
qed

text \<open>
  A history of a provider: the areas handed out so far, latest first. Memory is donated
  only when no one else holds it.
\<close>

inductive run ::
  "('s \<Rightarrow> area \<Rightarrow> 's \<Rightarrow> bool) \<Rightarrow> ('s \<Rightarrow> u64 set \<Rightarrow> 's \<Rightarrow> bool) \<Rightarrow> 's \<Rightarrow> area list \<Rightarrow> 's \<Rightarrow> bool"
  for acquire donate s0 where
  run_start: "run acquire donate s0 [] s0"
| run_acquire: "run acquire donate s0 as s \<Longrightarrow> acquire s a s' \<Longrightarrow> run acquire donate s0 (a # as) s'"
| run_donate: "run acquire donate s0 as s \<Longrightarrow> donate s F s' \<Longrightarrow> F \<inter> all_bytes as = {} \<Longrightarrow>
    run acquire donate s0 as s'"

inductive_cases run_ConsE: "run acquire donate s0 (a # as) s"

locale area_source =
  fixes inv :: "'s \<Rightarrow> bool"
    and owned :: "'s \<Rightarrow> u64 set"
    and acquire :: "'s \<Rightarrow> area \<Rightarrow> 's \<Rightarrow> bool"
    and donate :: "'s \<Rightarrow> u64 set \<Rightarrow> 's \<Rightarrow> bool"
  assumes acquire_inv: "inv s \<Longrightarrow> acquire s a s' \<Longrightarrow> inv s'"
    and acquire_owned: "inv s \<Longrightarrow> acquire s a s' \<Longrightarrow> area_bytes a \<subseteq> owned s"
    and acquire_leaves: "inv s \<Longrightarrow> acquire s a s' \<Longrightarrow> owned s' \<subseteq> owned s - area_bytes a"
    and donate_inv: "inv s \<Longrightarrow> donate s F s' \<Longrightarrow> inv s'"
    and donate_owned: "inv s \<Longrightarrow> donate s F s' \<Longrightarrow> owned s' \<subseteq> owned s \<union> F"
begin

lemma run_invariant:
  assumes "run acquire donate s0 as s" and "inv s0"
  shows "inv s \<and> owned s \<inter> all_bytes as = {} \<and> pairwise_disjoint as"
  using assms
proof induction
  case (run_acquire as s a s')
  then show ?case
    using acquire_inv [of s a s'] acquire_owned [of s a s'] acquire_leaves [of s a s'] by auto
next
  case (run_donate as s F s')
  then show ?case
    using donate_inv [of s F s'] donate_owned [of s F s'] by blast
qed simp

lemma run_inv: "run acquire donate s0 as s \<Longrightarrow> inv s0 \<Longrightarrow> inv s"
  using run_invariant by blast

lemma run_disjoint: "run acquire donate s0 as s \<Longrightarrow> inv s0 \<Longrightarrow> pairwise_disjoint as"
  using run_invariant by blast

text \<open>Without donations everything handed out was owned at the start.\<close>

lemma run_origin:
  assumes "run acquire donate s0 as s" and "inv s0" and "\<forall>s F s'. donate s F s' \<longrightarrow> F = {}"
  shows "owned s \<union> all_bytes as \<subseteq> owned s0"
  using assms(1)
proof induction
  case (run_acquire as s a s')
  then have "inv s" using run_inv assms(2) by blast
  then show ?case
    using acquire_owned [of s a s'] acquire_leaves [of s a s'] run_acquire by auto
next
  case (run_donate as s F s')
  then have "inv s" using run_inv assms(2) by blast
  then show ?case
    using donate_owned [of s F s'] assms(3) run_donate by blast
qed simp

text \<open>What a provider hands out next was not handed out before.\<close>

lemma run_next:
  assumes "run acquire donate s0 as s" and "inv s0" and "acquire s a s'"
  shows "area_bytes a \<inter> all_bytes as = {}"
  using run_invariant [OF assms(1,2)] acquire_owned [of s a s'] assms(3) by blast

end

end
