(* ===== verification/Slab_Source.thy ===== *)
theory Slab_Source
  imports Slab Area_Source
begin

text \<open>
  The slab allocator as a provider of memory. The state carries, beside memory and the
  allocator, the lists of free blocks that it represents. \<open>alloc\<close> hands out a block;
  \<open>grow\<close> donates a buffer.
\<close>

type_synonym slab_ghost = "(mem \<times> slab_alloc) \<times> (u64 \<times> u64 list) list"

definition slab_inv :: "size_t \<Rightarrow> slab_ghost \<Rightarrow> bool" where
  "slab_inv bsz = (\<lambda>(s, xs). slab_rep bsz s xs)"

definition covered :: "area list \<Rightarrow> u64 set" where
  "covered ts = {x. \<exists>t \<in> set ts. in_range x t}"

lemma covered_append: "covered (ts @ us) = covered ts \<union> covered us"
  by (auto simp: covered_def)

lemma covered_subset: "(\<And>t x. t \<in> set ts \<Longrightarrow> in_range x t \<Longrightarrow> x \<in> F) \<Longrightarrow> covered ts \<subseteq> F"
  by (auto simp: covered_def)

definition slab_owned :: "size_t \<Rightarrow> slab_ghost \<Rightarrow> u64 set" where
  "slab_owned bsz = (\<lambda>(s, xs). covered (slab_ranges bsz xs))"

definition slab_acquire :: "bool \<Rightarrow> size_t \<Rightarrow> slab_ghost \<Rightarrow> area \<Rightarrow> slab_ghost \<Rightarrow> bool" where
  "slab_acquire zero_out bsz = (\<lambda>(s, xs) (b, n) (s', ys).
     n = unat bsz \<and> b \<noteq> 0 \<and>
     slab_alloc_block zero_out bsz s = Done (b, s') \<and> take_block xs = Some (b, ys))"

definition slab_donate :: "size_t \<Rightarrow> size_t \<Rightarrow> slab_ghost \<Rightarrow> u64 set \<Rightarrow> slab_ghost \<Rightarrow> bool" where
  "slab_donate bsz bal = (\<lambda>(s, xs) F (s', ys). \<exists>buffer buffer_size n.
     slab_grow bsz bal buffer buffer_size s = Done s' \<and>
     n = (buffer_size - sizeof_slab_region) div bsz \<and> buffer \<noteq> 0 \<and>
     buffer mod region_align = 0 \<and>
     minimal_region_sz bsz bal \<le> buffer_size \<and> align_up sizeof_slab_region bal = 32 \<and>
     unat buffer + (32 + unat n * unat bsz + 8) \<le> 2 ^ 64 \<and>
     (\<forall>t \<in> set (slab_ranges bsz xs). range_disj t (buffer, 32 + unat n * unat bsz + 8)) \<and>
     free_total xs + unat n < 2 ^ 64 \<and>
     F = {x. in_range x (buffer, 32 + unat n * unat bsz + 8)} \<and>
     ys = (buffer, spaced (buffer + 32) bsz (unat n)) # xs)"

lemma slab_acquire_laws:
  assumes "slab_inv bsz s" and "slab_acquire zo bsz s a s'"
  shows "slab_inv bsz s'" "area_bytes a \<subseteq> slab_owned bsz s"
    "slab_owned bsz s' \<subseteq> slab_owned bsz s - area_bytes a"
proof -
  obtain m sa xs b s2 ys where s: "s = ((m, sa), xs)" "a = (b, unat bsz)" "s' = (s2, ys)"
    "slab_rep bsz (m, sa) xs" "slab_alloc_block zo bsz (m, sa) = Done (b, s2)"
    "take_block xs = Some (b, ys)"
    using assms by (cases s; cases a; cases s') (auto simp: slab_inv_def slab_acquire_def)
  obtain r where r: "slab_alloc_block zo bsz (m, sa) =
      Done (b, alloc_mem zo bsz m r b, sa\<lparr>m_free := m_free sa - 1\<rparr>)"
    "slab_rep bsz (alloc_mem zo bsz m r b, sa\<lparr>m_free := m_free sa - 1\<rparr>) ys"
    "(b, unat bsz) \<in> set (slab_ranges bsz xs)"
    "\<And>u. u \<in> set (slab_ranges bsz ys) \<Longrightarrow> range_disj (b, unat bsz) u"
    by (rule slab_alloc_Some [OF s(4,6), of zo]) blast
  show "slab_inv bsz s'" using r(1,2) s by (simp add: slab_inv_def)
  show "area_bytes a \<subseteq> slab_owned bsz s" using r(3) s by (auto simp: slab_owned_def covered_def)
  have "set (slab_ranges bsz ys) \<subseteq> set (slab_ranges bsz xs)"
    by (rule take_block_SomeD [OF s(6)]) auto
  then show "slab_owned bsz s' \<subseteq> slab_owned bsz s - area_bytes a"
    using r(4) s range_disj_in_range
    unfolding slab_owned_def covered_def area_bytes_def by simp blast
qed

lemma slab_donate_laws:
  assumes "slab_inv bsz s" and "slab_donate bsz bal s F s'"
  shows "slab_inv bsz s'" "slab_owned bsz s' \<subseteq> slab_owned bsz s \<union> F"
proof -
  obtain m sa xs s2 ys where s: "s = ((m, sa), xs)" "s' = (s2, ys)"
    by (cases s; cases s') auto
  then have rep: "slab_rep bsz (m, sa) xs" using assms(1) by (simp add: slab_inv_def)
  obtain buffer buffer_size n where grow: "slab_grow bsz bal buffer buffer_size (m, sa) = Done s2"
      "ys = (buffer, spaced (buffer + 32) bsz (unat n)) # xs"
    and F: "F = {x. in_range x (buffer, 32 + unat n * unat bsz + 8)}"
    and n: "n = (buffer_size - sizeof_slab_region) div bsz" "free_total xs + unat n < 2 ^ 64"
    and buf: "buffer \<noteq> 0" "buffer mod region_align = 0" "minimal_region_sz bsz bal \<le> buffer_size"
      "align_up sizeof_slab_region bal = 32"
    and fit: "unat buffer + (32 + unat n * unat bsz + 8) \<le> 2 ^ 64"
    and fresh: "\<forall>t \<in> set (slab_ranges bsz xs). range_disj t (buffer, 32 + unat n * unat bsz + 8)"
    using assms(2) unfolding s slab_donate_def split_conv by (elim exE conjE) (rule that)
  have fit: "unat buffer + (32 + unat n * unat bsz + 8) \<le> 18446744073709551616"
    and lt: "free_total xs + unat n < 18446744073709551616"
    using fit n(2) by simp_all
  obtain m' sa' where "slab_grow bsz bal buffer buffer_size (m, sa) = Done (m', sa')"
    "slab_rep bsz (m', sa') ys"
    unfolding grow(2) by (rule slab_grow_rep [OF rep buf n(1) fit fresh [rule_format] lt])
  with s grow show "slab_inv bsz s'" by (simp add: slab_inv_def)
  have "8 \<le> unat bsz" using rep by (simp add: slab_rep_def)
  note inside = slab_ranges_spaced(2) [OF fit this]
  have "slab_ranges bsz ys = region_ranges bsz (buffer, spaced (buffer + 32) bsz (unat n)) @
      slab_ranges bsz xs"
    by (simp add: grow(2) slab_ranges_def)
  moreover have "covered (region_ranges bsz (buffer, spaced (buffer + 32) bsz (unat n))) \<subseteq> F"
    unfolding F by (rule covered_subset) (use inside in simp)
  ultimately show "slab_owned bsz s' \<subseteq> slab_owned bsz s \<union> F"
    by (auto simp: slab_owned_def s covered_append)
qed

interpretation slab_src: area_source "slab_inv bsz" "slab_owned bsz" "slab_acquire zo bsz"
    "slab_donate bsz bal" for bsz bal zo
  by unfold_locales (rule slab_acquire_laws slab_donate_laws, assumption, assumption)+

section \<open>Properties\<close>

lemma alloc_mem_zero: "in_range x (b, unat bsz) \<Longrightarrow> alloc_mem True bsz m r b x = 0"
  by (simp add: alloc_mem_def Let_def fill_eq)

text \<open>An allocator for objects of 24 bytes that was given one buffer for two of them.\<close>

lemma demo_slab:
  obtains s where "slab_grow 24 8 0x1000 80 (m, slab_alloc_empty) = Done s"
    and "slab_rep 24 s [(0x1000, [0x1020, 0x1038])]"
    and "slab_donate 24 8 ((m, slab_alloc_empty), []) {x. in_range x (0x1000, 88)}
      (s, [(0x1000, [0x1020, 0x1038])])"
proof -
  have blocks: "spaced (0x1000 + 32) 24 (unat (2 :: u64)) = [0x1020, 0x1038]"
    by (simp add: spaced_def upt_rec)
  have const: "minimal_region_sz 24 8 \<le> 80" "align_up sizeof_slab_region 8 = 32"
    "(0x1000 :: u64) mod region_align = 0" "(2 :: u64) = (80 - sizeof_slab_region) div 24"
    by (simp_all add: minimal_region_sz_def region_size_def align_up_def sizeof_slab_region_def
        region_align_def alignof_slab_region_def)
  have empty: "slab_rep 24 (m, slab_alloc_empty) []"
    by (simp add: slab_rep_def slab_alloc_empty_def)
  obtain m' sa' where g: "slab_grow 24 8 0x1000 80 (m, slab_alloc_empty) = Done (m', sa')"
    "slab_rep 24 (m', sa') [(0x1000, [0x1020, 0x1038])]"
    by (rule slab_grow_rep [OF empty _ const(3,1,2,4)]) (simp_all add: blocks [simplified])
  then have "slab_donate 24 8 ((m, slab_alloc_empty), []) {x. in_range x (0x1000, 88)}
      ((m', sa'), [(0x1000, [0x1020, 0x1038])])"
    unfolding slab_donate_def split_conv
    using const blocks by (intro exI [of _ "0x1000"] exI [of _ 80] exI [of _ 2]) simp
  with g show ?thesis using that by blast
qed

text \<open>
  C9. Refinement of \<open>slab_alloc::alloc\<close>. On an allocator whose free lists are \<open>xs\<close>, the
  search and the unlinking in memory take the first block of the first region that has
  one; nothing is returned, and nothing changes, only when no block is free. The block
  is disjoint from every header and free block that remains, and zeroed if the
  allocator zeroes.
\<close>

theorem slab_alloc_refines:
  assumes "slab_rep bsz (m, sa) xs"
  shows "case take_block xs of
      None \<Rightarrow> slab_alloc_block zo bsz (m, sa) = Done (0, m, sa)
    | Some (b, ys) \<Rightarrow> \<exists>m' sa'. slab_alloc_block zo bsz (m, sa) = Done (b, m', sa') \<and> b \<noteq> 0 \<and>
        slab_rep bsz (m', sa') ys \<and>
        (\<forall>t \<in> set (slab_ranges bsz ys). range_disj (b, unat bsz) t) \<and>
        (zo \<longrightarrow> (\<forall>x \<in> area_bytes (b, unat bsz). m' x = 0)) \<and>
        slab_free_count sa' = slab_free_count sa - 1"
proof (cases "take_block xs")
  case (Some p)
  then obtain b ys where p: "take_block xs = Some (b, ys)" by (cases p) auto
  obtain r where "slab_alloc_block zo bsz (m, sa) =
      Done (b, alloc_mem zo bsz m r b, sa\<lparr>m_free := m_free sa - 1\<rparr>)" "b \<noteq> 0"
    "slab_rep bsz (alloc_mem zo bsz m r b, sa\<lparr>m_free := m_free sa - 1\<rparr>) ys"
    "\<forall>t \<in> set (slab_ranges bsz ys). range_disj (b, unat bsz) t"
    by (rule slab_alloc_Some [OF assms p, of zo]) blast
  then show ?thesis
    using alloc_mem_zero by (auto simp: p slab_free_count_def)
qed (use slab_alloc_None [OF assms] in simp)

theorem slab_alloc_refines_witness:
  "\<exists>m sa m' sa'. slab_rep 24 (m, sa) [(0x1000, [0x1020, 0x1038])] \<and>
    slab_alloc_block True 24 (m, sa) = Done (0x1020, m', sa') \<and>
    slab_rep 24 (m', sa') [(0x1000, [0x1038])]"
proof -
  obtain s where "slab_rep 24 s [(0x1000, [0x1020, 0x1038])]"
    by (rule demo_slab [of "\<lambda>_. 0"])
  then obtain m sa where s: "slab_rep 24 (m, sa) [(0x1000, [0x1020, 0x1038])]"
    by (cases s) auto
  from slab_alloc_refines [OF s, of True] s show ?thesis by fastforce
qed

text \<open>
  C10. Refinement of \<open>slab_alloc::grow\<close>. Growing by a buffer that is not null, aligned,
  large enough, and apart from what the allocator has adds one region to the front of
  its list, with as many blocks as fit behind the header, in ascending order; memory
  changes only in the header, the blocks and the eight bytes behind them.
\<close>

theorem slab_grow_refines:
  assumes "slab_rep bsz (m, sa) xs" and "buffer \<noteq> 0" and "buffer mod region_align = 0"
    and "minimal_region_sz bsz bal \<le> buffer_size" and "align_up sizeof_slab_region bal = 32"
    and "n = (buffer_size - sizeof_slab_region) div bsz"
    and "unat buffer + (32 + unat n * unat bsz + 8) \<le> 2 ^ 64"
    and "list_all (\<lambda>t. range_disj t (buffer, 32 + unat n * unat bsz + 8)) (slab_ranges bsz xs)"
    and "free_total xs + unat n < 2 ^ 64"
  shows "\<exists>m' sa'. slab_grow bsz bal buffer buffer_size (m, sa) = Done (m', sa') \<and>
    slab_rep bsz (m', sa') ((buffer, spaced (buffer + 32) bsz (unat n)) # xs) \<and>
    m_total sa' = m_total sa + n \<and>
    (\<forall>x. x \<notin> area_bytes (buffer, 32 + unat n * unat bsz + 8) \<longrightarrow> m' x = m x)"
  by (rule slab_grow_rep [OF assms(1-6)]) (use assms(7-9) in \<open>auto simp: list_all_iff\<close>)

theorem slab_grow_refines_witness:
  "\<exists>m sa. slab_grow 24 8 0x1000 80 (\<lambda>_. 0, slab_alloc_empty) = Done (m, sa) \<and>
    slab_rep 24 (m, sa) [(0x1000, spaced (0x1000 + 32) 24 (unat (2 :: u64)))] \<and> m_total sa = 2"
proof -
  have "slab_rep 24 (\<lambda>_. 0, slab_alloc_empty) []"
    by (simp add: slab_rep_def slab_alloc_empty_def)
  from slab_grow_refines [OF this, of "0x1000" 8 80 2] show ?thesis
    by (simp add: minimal_region_sz_def region_size_def align_up_def sizeof_slab_region_def
        region_align_def alignof_slab_region_def slab_alloc_empty_def)
      fastforce
qed



text \<open>
  C32. A write past the buffer. For a buffer of exactly the size that \<open>region_size\<close>
  computes for \<open>n\<close> blocks, \<open>grow\<close> writes a null pointer to the eight bytes behind it.
\<close>

theorem slab_grow_writes_past_end:
  assumes "buffer \<noteq> 0" and "buffer mod region_align = 0"
    and "minimal_region_sz bsz bal \<le> region_size bsz bal n"
    and "align_up sizeof_slab_region bal = 32" and "8 \<le> unat bsz"
    and "unat buffer + (32 + unat n * unat bsz + 8) \<le> 2 ^ 64"
  shows "\<exists>m' sa'. slab_grow bsz bal buffer (region_size bsz bal n) (m, sa) = Done (m', sa') \<and>
    load64 m' (buffer + region_size bsz bal n) = 0"
  by (rule slab_grow_past_end [OF assms(1-5)]) (use assms(6) in auto)

theorem slab_grow_writes_past_end_witness:
  "\<exists>m' sa'. slab_grow 24 8 0x1000 80 (\<lambda>_. 0xFF, slab_alloc_empty) = Done (m', sa') \<and>
    load64 m' (0x1000 + 80) = 0"
  using slab_grow_writes_past_end [of "0x1000" 24 8 2 "\<lambda>_. 0xFF" slab_alloc_empty]
  by (simp add: minimal_region_sz_def region_size_def align_up_def sizeof_slab_region_def
      region_align_def alignof_slab_region_def)

end
