(* ===== verification/Pmm.thy ===== *)
theory Pmm
  imports Slab
begin

text \<open>
  The physical memory manager of \<^verbatim>\<open>kernel/src/pmm.cpp\<close>: its state (the file's global
  variables, the memory that holds the list nodes, and the characters printed so
  far), and one definition per function, with the code's guards in the code's
  order. List nodes are \<^verbatim>\<open>memory_block\<close> objects in slab blocks:
  \<^verbatim>\<open>base\<close> at offset 0, \<^verbatim>\<open>length\<close> at 8, \<^verbatim>\<open>next\<close> at 16.
\<close>

section \<open>State\<close>

datatype policy = FIRST_FIT | BEST_FIT | WORST_FIT | NEXT_FIT

record memory_region =
  mr_base :: paddr_t
  mr_length :: size_t
  mr_free_bytes :: size_t
  mr_free_blocks :: u64

record pmm =
  pm_mem :: mem
  pm_pol :: policy
  pm_total_bytes :: size_t
  pm_free_bytes :: size_t
  pm_region_count :: size_t
  pm_regions :: "memory_region list"
  pm_block_allocator :: slab_alloc
  pm_console :: string

definition PAGE_SIZE :: size_t where
  "PAGE_SIZE = 0x1000"

definition INITIAL_MEM_BLOCK_COUNT :: size_t where
  "INITIAL_MEM_BLOCK_COUNT = 64"

definition REGION_COUNT :: size_t where
  "REGION_COUNT = 16"

text \<open>The slab instance for \<^verbatim>\<open>memory_block\<close>, an object of 24 bytes aligned to 8.\<close>

definition mb_size :: size_t where
  "mb_size = block_sz 24 8"

definition mb_align :: size_t where
  "mb_align = block_align 8"

definition BLOCK_BUF_SIZE :: size_t where
  "BLOCK_BUF_SIZE = region_size mb_size mb_align INITIAL_MEM_BLOCK_COUNT"

definition null_region :: memory_region where
  "null_region = \<lparr>mr_base = 0, mr_length = 0, mr_free_bytes = 0, mr_free_blocks = 0\<rparr>"

text \<open>The initial values of the globals, over the memory \<open>m\<close> the kernel starts with.\<close>

definition pmm_boot :: "mem \<Rightarrow> pmm" where
  "pmm_boot m = \<lparr>pm_mem = m, pm_pol = FIRST_FIT, pm_total_bytes = 0, pm_free_bytes = 0,
     pm_region_count = 0, pm_regions = replicate 16 null_region,
     pm_block_allocator = slab_alloc_empty, pm_console = []\<rparr>"

definition mb_base :: "mem \<Rightarrow> u64 \<Rightarrow> paddr_t" where
  "mb_base m p = load64 m p"

definition mb_length :: "mem \<Rightarrow> u64 \<Rightarrow> size_t" where
  "mb_length m p = load64 m (p + 8)"

definition mb_next :: "mem \<Rightarrow> u64 \<Rightarrow> u64" where
  "mb_next m p = load64 m (p + 16)"

definition store_mb :: "mem \<Rightarrow> u64 \<Rightarrow> paddr_t \<Rightarrow> size_t \<Rightarrow> u64 \<Rightarrow> mem" where
  "store_mb m p b l n = store64 (store64 (store64 m p b) (p + 8) l) (p + 16) n"

section \<open>Operations\<close>

text \<open>\<open>BLOCK_BUF\<close> is the address the linker gives to the static buffer of list nodes.\<close>

definition pmm_initialize :: "u64 \<Rightarrow> policy \<Rightarrow> pmm \<Rightarrow> pmm outcome" where
  "pmm_initialize BLOCK_BUF p s =
     bind_outcome
       (slab_grow mb_size mb_align BLOCK_BUF BLOCK_BUF_SIZE (pm_mem s, pm_block_allocator s))
       (\<lambda>(m, sa). Done (s\<lparr>pm_pol := p, pm_mem := m, pm_block_allocator := sa\<rparr>))"

definition active_regions :: "pmm \<Rightarrow> memory_region list" where
  "active_regions s = take (unat (pm_region_count s)) (pm_regions s)"

definition add_region :: "paddr_t \<Rightarrow> size_t \<Rightarrow> pmm \<Rightarrow> (error \<times> pmm) outcome" where
  "add_region region_base reg_size s =
     (if region_base = 0 then Done (error_of NULL_ARGUMENT, s)
      else if pm_region_count s \<ge> REGION_COUNT then Done (error_of PMM_REGION_LIST_FULL, s)
      else
        let aligned_base = align_up region_base PAGE_SIZE;
            aligned_size = align_down (reg_size - (aligned_base - region_base)) PAGE_SIZE;
            ALIGNED_REGION_FITS = aligned_base + aligned_size \<le> region_base + reg_size;
            NEW_SIZE_NON_ZERO = aligned_size \<ge> PAGE_SIZE
        in if \<not> ALIGNED_REGION_FITS \<or> \<not> NEW_SIZE_NON_ZERO
           then Done (error_of PMM_REGION_TOO_SMALL, s)
        else if list_ex (\<lambda>r. mr_base r \<le> aligned_base \<and> aligned_base \<le> mr_base r + mr_length r)
               (active_regions s)
           then Done (error_of PMM_REGION_MANAGED, s)
        else
          bind_outcome (slab_alloc_block True mb_size (pm_mem s, pm_block_allocator s))
            (\<lambda>(free_block, m1, sa1).
          if free_block = 0 then Halt (Assertion ''free_block != nullptr'')
          else bind_outcome (slab_alloc_block True mb_size (m1, sa1)) (\<lambda>(fb, m2, sa2).
          if fb = 0 then Halt Null_deref
          else Done (error_of SUCCESS,
            s\<lparr>pm_mem := store_mb m2 fb aligned_base aligned_size 0,
              pm_block_allocator := sa2,
              pm_regions := (pm_regions s)[unat (pm_region_count s) :=
                \<lparr>mr_base = aligned_base, mr_length = aligned_size,
                  mr_free_bytes = aligned_size, mr_free_blocks = fb\<rparr>],
              pm_region_count := pm_region_count s + 1,
              pm_total_bytes := pm_total_bytes s + aligned_size,
              pm_free_bytes := pm_free_bytes s + aligned_size\<rparr>))))"

definition remove_region :: "paddr_t \<Rightarrow> size_t \<Rightarrow> pmm \<Rightarrow> error \<times> pmm" where
  "remove_region region_base reg_size s = (error_of NOT_IMPLEMENTED, s)"

text \<open>
  One pass through the body of the \<^verbatim>\<open>while\<close> loop over the free list of region \<open>i\<close>.
  Every path through the body either returns from \<^verbatim>\<open>alloc_aligned\<close> or spins in an
  assertion, so that the loop has no second iteration. The \<^verbatim>\<open>if\<close> that moves to the
  next block has no \<^verbatim>\<open>continue\<close>: what follows runs with the bounds of the block it
  started from and the pointer to the next one.
\<close>

definition region_update :: "nat \<Rightarrow> (memory_region \<Rightarrow> memory_region) \<Rightarrow> pmm \<Rightarrow> pmm" where
  "region_update i f s = s\<lparr>pm_regions := (pm_regions s)[i := f (pm_regions s ! i)]\<rparr>"

definition carve_block ::
  "nat \<Rightarrow> size_t \<Rightarrow> size_t \<Rightarrow> u64 \<Rightarrow> pmm \<Rightarrow> (paddr_t \<times> pmm) outcome" where
  "carve_block i sz alignment curr0 s =
     (let m = pm_mem s;
          curr_base = mb_base m curr0;
          curr_len = mb_length m curr0;
          aligned_base = align_up curr_base alignment;
          (prev, curr) = (if curr_base + curr_len < aligned_base + sz
                          then (curr0, mb_next m curr0) else (0, curr0));
          offset = aligned_base - curr_base;
          EXISTS_PRECEEDING = curr_base \<noteq> aligned_base;
          EXISTS_POSTCEEDING = curr_base + curr_len > aligned_base + sz;
          post_len = curr_base + curr_len - (aligned_base + sz)
      in if EXISTS_PRECEEDING \<and> EXISTS_POSTCEEDING then
           if curr = 0 then Halt Null_deref
           else
             bind_outcome (slab_alloc_block True mb_size
                 (store64 m (curr + 8) offset, pm_block_allocator s)) (\<lambda>(extra, m1, sa1).
               if extra = 0 then Halt (Assertion ''extra != nullptr'')
               else Done (aligned_base,
                 s\<lparr>pm_mem := store_mb m1 extra (aligned_base + sz) post_len (mb_next m1 curr),
                   pm_block_allocator := sa1\<rparr>))
         else if EXISTS_PRECEEDING then
           if curr = 0 then Halt Null_deref
           else Done (aligned_base, s\<lparr>pm_mem := store64 m (curr + 8) offset\<rparr>)
         else if EXISTS_POSTCEEDING then
           if curr = 0 then Halt Null_deref
           else Done (aligned_base,
             s\<lparr>pm_mem := store64 (store64 m curr (aligned_base + sz)) (curr + 8) post_len\<rparr>)
         else if prev = 0 then
           Done (aligned_base, region_update i (\<lambda>r. r\<lparr>mr_free_blocks := mb_next m curr\<rparr>) s)
         else if curr = 0 then Halt Null_deref
         else if is_ok (slab_free curr)
           then Done (aligned_base, s\<lparr>pm_mem := store64 m (prev + 16) (mb_next m curr)\<rparr>)
           else Halt (Assertion ''err.is_ok()''))"

definition finish_alloc :: "nat \<Rightarrow> size_t \<Rightarrow> paddr_t \<times> pmm \<Rightarrow> error \<times> paddr_t option \<times> pmm" where
  "finish_alloc i sz = (\<lambda>(aligned_base, s).
     let s1 = region_update i (\<lambda>r. r\<lparr>mr_free_bytes := mr_free_bytes r - sz\<rparr>) s
     in (error_of SUCCESS, Some aligned_base,
         s1\<lparr>pm_free_bytes := pm_free_bytes s1 - sz,
            pm_mem := fill (pm_mem s1) aligned_base 0 sz\<rparr>))"

fun alloc_loop ::
  "size_t \<Rightarrow> size_t \<Rightarrow> nat list \<Rightarrow> pmm \<Rightarrow> (error \<times> paddr_t option \<times> pmm) outcome" where
  "alloc_loop sz alignment [] s = Done (error_of PMM_OUT_OF_MEM, Some 0, s)"
| "alloc_loop sz alignment (i # is) s =
     (let region = pm_regions s ! i
      in if mr_free_bytes region < sz then alloc_loop sz alignment is s
         else if mr_free_blocks region = 0 then alloc_loop sz alignment is s
         else bind_outcome (carve_block i sz alignment (mr_free_blocks region) s)
           (\<lambda>r. Done (finish_alloc i sz r)))"

text \<open>
  The result is the error, the value written through \<^verbatim>\<open>ret\<close> (\<open>None\<close> when nothing is
  written) and the new state; \<open>ret_null\<close> says that \<^verbatim>\<open>ret\<close> is the null pointer.
\<close>

definition alloc_aligned ::
  "size_t \<Rightarrow> size_t \<Rightarrow> bool \<Rightarrow> pmm \<Rightarrow> (error \<times> paddr_t option \<times> pmm) outcome" where
  "alloc_aligned sz0 alignment ret_null s =
     (let sz = align_up sz0 PAGE_SIZE
      in if ret_null then Done (error_of NULL_ARGUMENT, None, s)
         else if alignment < PAGE_SIZE \<or> alignment AND (alignment - 1) \<noteq> 0
           then Done (error_of PMM_BAD_ALIGN, Some 0, s)
         else if pm_free_bytes s < sz then Done (error_of PMM_OUT_OF_MEM, Some 0, s)
         else if slab_free_count (pm_block_allocator s) < 16 then Halt Todo
         else if pm_pol s \<noteq> FIRST_FIT then Halt Todo
         else alloc_loop sz alignment [0..<unat (pm_region_count s)] s)"

definition alloc_aligned_noerr :: "size_t \<Rightarrow> size_t \<Rightarrow> pmm \<Rightarrow> (paddr_t \<times> pmm) outcome" where
  "alloc_aligned_noerr sz alignment s =
     bind_outcome (alloc_aligned sz alignment False s) (\<lambda>(err, ret, s').
       case ret of
         None \<Rightarrow> Halt (Assertion ''err.is_ok()'')
       | Some pa \<Rightarrow> if is_ok err then Done (pa, s') else Halt (Assertion ''err.is_ok()''))"

definition pmm_alloc :: "size_t \<Rightarrow> bool \<Rightarrow> pmm \<Rightarrow> (error \<times> paddr_t option \<times> pmm) outcome" where
  "pmm_alloc sz ret_null s = alloc_aligned sz PAGE_SIZE ret_null s"

definition alloc_noerr :: "size_t \<Rightarrow> pmm \<Rightarrow> (paddr_t \<times> pmm) outcome" where
  "alloc_noerr sz s = alloc_aligned_noerr sz PAGE_SIZE s"

definition pmm_println :: "string \<Rightarrow> pmm \<Rightarrow> pmm" where
  "pmm_println msg s = s\<lparr>pm_console := pm_console s @ msg @ [CHR 0x0A]\<rparr>"

definition pmm_free :: "paddr_t \<Rightarrow> pmm \<Rightarrow> error \<times> pmm" where
  "pmm_free ret s =
     (error_of SUCCESS, pmm_println ''Need to implement the pmm free function.'' s)"

definition total_memory :: "pmm \<Rightarrow> size_t" where
  "total_memory s = pm_total_bytes s"

definition free_memory :: "pmm \<Rightarrow> size_t" where
  "free_memory s = pm_free_bytes s"

end
