(* ===== verification/Pmm_Invariant.thy ===== *)
theory Pmm_Invariant
  imports Pmm
begin

text \<open>
  The invariant of the physical memory manager and the proofs that every
  operation keeps it. The invariant says where the list nodes are, that every
  region of the table is page aligned and below the physical address limit of
  Sv39, that regions do not overlap, that a region's free list holds at most one
  block, and that the counters are the sums over the table.
\<close>

section \<open>Constants\<close>

lemma pmm_constants [simp]:
  "mb_size = 24" "mb_align = 8" "BLOCK_BUF_SIZE = 1568" "minimal_region_sz 24 8 = 56"
  "align_up sizeof_slab_region 8 = 32" "align_up 32 8 = 32"
  by (simp_all add: mb_size_def mb_align_def BLOCK_BUF_SIZE_def INITIAL_MEM_BLOCK_COUNT_def
      region_size_def minimal_region_sz_def block_sz_def block_align_def align_up_def
      sizeof_slab_region_def max_def)

lemma PAGE_SIZE_eq: "PAGE_SIZE = 2 ^ 12"
  by (simp add: PAGE_SIZE_def)

lemma unat_PAGE_SIZE [simp]: "unat PAGE_SIZE = 4096"
  by (simp add: PAGE_SIZE_def)

section \<open>The invariant\<close>

text \<open>
  The buffer of list nodes lies above the physical addresses of Sv39 (the linker
  script places the kernel at \<^verbatim>\<open>0xffffffff80000000\<close>), eight bytes short of the end of
  the address space, which \<^verbatim>\<open>grow\<close> needs for its terminating pointer.
\<close>

definition phys_limit :: nat where
  "phys_limit = 2 ^ 56"

definition buf_ok :: "u64 \<Rightarrow> bool" where
  "buf_ok buf \<longleftrightarrow> phys_limit \<le> unat buf \<and> unat buf + 1576 \<le> 2 ^ 64 \<and> buf mod 8 = 0"

definition node_addr :: "u64 \<Rightarrow> nat \<Rightarrow> u64" where
  "node_addr buf j = buf + 32 + of_nat j * 24"

definition used_nodes :: "pmm \<Rightarrow> nat" where
  "used_nodes s = 64 - unat (m_free (pm_block_allocator s))"

definition free_nodes :: "u64 \<Rightarrow> nat \<Rightarrow> u64 list" where
  "free_nodes buf k = map (node_addr buf) [k..<64]"

text \<open>An area of physical memory that the table may hold.\<close>

definition area_ok :: "nat \<Rightarrow> nat \<Rightarrow> bool" where
  "area_ok b l \<longleftrightarrow> 0 < b \<and> 0 < l \<and> 4096 dvd b \<and> 4096 dvd l \<and> b + l \<le> phys_limit"

definition block_ok :: "mem \<Rightarrow> memory_region \<Rightarrow> bool" where
  "block_ok m R \<longleftrightarrow>
     (let fb = mr_free_blocks R; b = unat (mb_base m fb); l = unat (mb_length m fb)
      in area_ok b l \<and> unat (mr_base R) \<le> b \<and>
         b + l \<le> unat (mr_base R) + unat (mr_length R) \<and>
         l \<le> unat (mr_free_bytes R) \<and> mb_next m fb = 0)"

definition region_ok :: "mem \<Rightarrow> memory_region \<Rightarrow> bool" where
  "region_ok m R \<longleftrightarrow>
     area_ok (unat (mr_base R)) (unat (mr_length R)) \<and> mr_free_bytes R \<le> mr_length R \<and>
     4096 dvd unat (mr_free_bytes R) \<and>
     (mr_free_blocks R = 0 \<or> block_ok m R)"

definition apart :: "memory_region \<Rightarrow> memory_region \<Rightarrow> bool" where
  "apart R S \<longleftrightarrow>
     unat (mr_base R) + unat (mr_length R) \<le> unat (mr_base S) \<or>
     unat (mr_base S) + unat (mr_length S) \<le> unat (mr_base R)"

fun all_apart :: "memory_region list \<Rightarrow> bool" where
  "all_apart [] = True"
| "all_apart (R # Rs) = (list_all (apart R) Rs \<and> all_apart Rs)"

definition live_nodes :: "memory_region list \<Rightarrow> u64 list" where
  "live_nodes Rs = filter (\<lambda>p. p \<noteq> 0) (map mr_free_blocks Rs)"

definition pmm_inv :: "u64 \<Rightarrow> pmm \<Rightarrow> bool" where
  "pmm_inv buf s \<longleftrightarrow>
     length (pm_regions s) = 16 \<and> unat (pm_region_count s) \<le> 16 \<and>
     unat (m_free (pm_block_allocator s)) \<le> 64 \<and>
     slab_rep 24 (pm_mem s, pm_block_allocator s) [(buf, free_nodes buf (used_nodes s))] \<and>
     list_all (region_ok (pm_mem s)) (active_regions s) \<and>
     all_apart (active_regions s) \<and>
     distinct (live_nodes (active_regions s)) \<and>
     set (live_nodes (active_regions s)) \<subseteq> node_addr buf ` {..<used_nodes s} \<and>
     pm_total_bytes s = sum_list (map mr_length (active_regions s)) \<and>
     pm_free_bytes s = sum_list (map mr_free_bytes (active_regions s))"

section \<open>Positions of nodes\<close>

lemma unat_node_addr:
  assumes "buf_ok buf" and "j \<le> 64"
  shows "unat (node_addr buf j) = unat buf + 32 + j * 24"
proof -
  have b: "unat buf + 1576 \<le> 18446744073709551616"
    using assms(1) by (simp add: buf_ok_def)
  then have "unat (buf + 32) = unat buf + 32"
    by (simp add: unat_add_cases)
  moreover have "unat (buf + 32 + of_nat j * 24) = unat (buf + 32) + j * unat (24 :: u64)"
    using assms(2) b calculation by (intro unat_spaced [of _ 64]) simp_all
  ultimately show ?thesis
    by (simp add: node_addr_def)
qed

lemma node_addr_inj:
  "buf_ok buf \<Longrightarrow> i \<le> 64 \<Longrightarrow> j \<le> 64 \<Longrightarrow> node_addr buf i = node_addr buf j \<longleftrightarrow> i = j"
  by (auto simp: unat_node_addr dest: arg_cong [where f = unat])

lemma node_addr_nonzero: "buf_ok buf \<Longrightarrow> j \<le> 64 \<Longrightarrow> node_addr buf j \<noteq> 0"
  by (auto simp: unat_node_addr phys_limit_def buf_ok_def simp flip: unat_eq_0)

lemma spaced_free_nodes: "spaced (buf + 32) 24 64 = free_nodes buf 0"
  by (simp add: spaced_def free_nodes_def node_addr_def)

lemma length_free_nodes [simp]: "length (free_nodes buf k) = 64 - k"
  by (simp add: free_nodes_def)

lemma free_nodes_Cons: "k < 64 \<Longrightarrow> free_nodes buf k = node_addr buf k # free_nodes buf (Suc k)"
  by (simp add: free_nodes_def upt_conv_Cons)

text \<open>Nodes, the allocator's memory and physical memory are apart.\<close>

lemma nodes_disj:
  assumes "buf_ok buf" and "i < 64" and "j < 64" and "i \<noteq> j"
  shows "range_disj (node_addr buf i, 24) (node_addr buf j, 24)"
proof -
  have "unat buf + 1576 \<le> 18446744073709551616"
    using assms(1) by (simp add: buf_ok_def)
  then show ?thesis
    using assms by (intro range_disj_nowrap) (auto simp: unat_node_addr)
qed

lemma node_header_disj:
  assumes "buf_ok buf" and "j < 64"
  shows "range_disj (node_addr buf j, 24) (buf, 32)"
proof -
  have "unat buf + 1576 \<le> 18446744073709551616"
    using assms(1) by (simp add: buf_ok_def)
  then show ?thesis
    using assms by (intro range_disj_nowrap) (auto simp: unat_node_addr)
qed

lemma node_phys_disj:
  assumes "buf_ok buf" and "j < 64" and "unat a + n \<le> phys_limit" and "0 < n"
  shows "range_disj (node_addr buf j, 24) (a, n)"
proof -
  have "unat buf + 1576 \<le> 18446744073709551616" "phys_limit \<le> unat buf"
    using assms(1) by (simp_all add: buf_ok_def)
  then show ?thesis
    using assms by (intro range_disj_nowrap) (auto simp: unat_node_addr)
qed

lemma in_node_not_in:
  assumes "buf_ok buf" and "j < 64" and "in_range x (node_addr buf j, 24)"
  shows "\<not> in_range x (buf, 32)"
    and "i < 64 \<Longrightarrow> i \<noteq> j \<Longrightarrow> \<not> in_range x (node_addr buf i, 24)"
  using range_disj_in_range [OF node_header_disj [OF assms(1,2)] assms(3)]
    range_disj_in_range [OF nodes_disj [OF assms(1,2), of i] assms(3)] by auto

lemma node_in_buf:
  assumes "buf_ok buf" and "j < 64" and "in_range x (node_addr buf j, 24)"
  shows "in_range x (buf, 1576)"
proof -
  have "unat buf + 1576 \<le> 18446744073709551616"
    using assms(1) by (simp add: buf_ok_def)
  moreover from this have "unat (node_addr buf j) + 24 \<le> 18446744073709551616"
    using assms by (simp add: unat_node_addr)
  ultimately show ?thesis
    using assms by (auto simp: in_range_nowrap unat_node_addr)
qed

lemma header_in_buf: "in_range x (buf, 32) \<Longrightarrow> in_range x (buf, 1576)"
  by (simp add: in_range_def)

lemma slab_ranges_buf:
  assumes "buf_ok buf" and "t \<in> set (slab_ranges 24 [(buf, free_nodes buf k)])"
  shows "t = (buf, 32) \<or> (\<exists>j. k \<le> j \<and> j < 64 \<and> t = (node_addr buf j, 24))"
  using assms(2) by (auto simp: free_nodes_def)

section \<open>Initialisation\<close>

lemma slab_rep_empty: "8 \<le> unat bsz \<Longrightarrow> slab_rep bsz (m, slab_alloc_empty) []"
  by (simp add: slab_rep_def slab_alloc_empty_def)

lemma initialize_ok:
  assumes "buf_ok buf"
  obtains s where "pmm_initialize buf p (pmm_boot m) = Done s" and "pmm_inv buf s"
    and "pm_pol s = p" and "active_regions s = []" and "m_free (pm_block_allocator s) = 64"
    and "pm_region_count s = 0" and "pm_console s = []"
    and "\<And>x. \<not> in_range x (buf, 1576) \<Longrightarrow> pm_mem s x = m x"
proof -
  have b: "unat buf + 1576 \<le> 18446744073709551616" "buf \<noteq> 0" "buf mod region_align = 0"
    using assms by (auto simp: buf_ok_def phys_limit_def region_align_def alignof_slab_region_def
        simp flip: unat_eq_0)
  obtain m' sa' where grow: "slab_grow 24 8 buf 1568 (m, slab_alloc_empty) = Done (m', sa')"
    and rep: "slab_rep 24 (m', sa') ((buf, spaced (buf + 32) 24 (unat (64 :: u64))) # [])"
    and out: "\<And>x. \<not> in_range x (buf, 32 + unat (64 :: u64) * unat (24 :: u64) + 8) \<Longrightarrow> m' x = m x"
    by (rule slab_grow_rep [OF slab_rep_empty [of 24 m] b(2,3), of 8 1568 64])
      (use b(1) in \<open>simp_all add: sizeof_slab_region_def\<close>)
  have free: "m_free sa' = 64"
    using rep by (simp add: slab_rep_def)
  let ?s = "(pmm_boot m)\<lparr>pm_pol := p, pm_mem := m', pm_block_allocator := sa'\<rparr>"
  have "pmm_initialize buf p (pmm_boot m) = Done ?s"
    using grow by (simp add: pmm_initialize_def pmm_boot_def)
  moreover have "active_regions ?s = []"
    by (simp add: active_regions_def pmm_boot_def)
  moreover from this have "pmm_inv buf ?s"
    using rep free
    by (simp add: pmm_inv_def pmm_boot_def used_nodes_def spaced_free_nodes live_nodes_def)
  ultimately show ?thesis
    using that free out by (simp add: pmm_boot_def)
qed

section \<open>Taking a node\<close>

lemma alloc_node:
  assumes buf: "buf_ok buf" and free: "0 < unat (m_free sa)" "unat (m_free sa) \<le> 64"
    and k: "k = 64 - unat (m_free sa)"
    and rep: "slab_rep 24 (m, sa) [(buf, free_nodes buf k)]"
  obtains m' sa' where "slab_alloc_block True 24 (m, sa) = Done (node_addr buf k, m', sa')"
    and "slab_rep 24 (m', sa') [(buf, free_nodes buf (Suc k))]"
    and "unat (m_free sa') = unat (m_free sa) - 1"
    and "mb_next m' (node_addr buf k) = 0"
    and "\<And>x. \<not> in_range x (buf, 32) \<Longrightarrow> \<not> in_range x (node_addr buf k, 24) \<Longrightarrow> m' x = m x"
proof -
  have "k < 64" using free k by simp
  then have take: "take_block [(buf, free_nodes buf k)] =
      Some (node_addr buf k, [(buf, free_nodes buf (Suc k))])"
    by (simp add: free_nodes_Cons)
  obtain r where r: "slab_alloc_block True 24 (m, sa) = Done (node_addr buf k,
        alloc_mem True 24 m r (node_addr buf k), sa\<lparr>m_free := m_free sa - 1\<rparr>)"
    and rep': "slab_rep 24 (alloc_mem True 24 m r (node_addr buf k),
        sa\<lparr>m_free := m_free sa - 1\<rparr>) [(buf, free_nodes buf (Suc k))]"
    and in_r: "(r, 32) \<in> set (slab_ranges 24 [(buf, free_nodes buf k)])"
    by (rule slab_alloc_Some [OF rep take])
  have "r = buf"
    using slab_ranges_buf [OF buf in_r] by auto
  have "unat (m_free sa - 1) = unat (m_free sa) - 1"
    using free(1) by (simp add: unat_sub_cases)
  moreover have "mb_next (alloc_mem True 24 m r (node_addr buf k)) (node_addr buf k) = 0"
    unfolding mb_next_def by (rule alloc_mem_zeroed) simp
  ultimately show ?thesis
    using that [OF r rep'] alloc_mem_other [of _ r "node_addr buf k" 24] \<open>r = buf\<close> by simp
qed

section \<open>Frame rules\<close>

lemma mb_frame:
  assumes "\<And>x. in_range x (p, 24) \<Longrightarrow> m' x = m x"
  shows "mb_base m' p = mb_base m p" "mb_length m' p = mb_length m p" "mb_next m' p = mb_next m p"
proof -
  have "load64 m' (p + of_nat k) = load64 m (p + of_nat k)" if "k + 8 \<le> 24" for k
    using that by (intro load64_frame assms in_range_field [of _ p k]) simp_all
  from this [of 0] this [of 8] this [of 16]
  show "mb_base m' p = mb_base m p" "mb_length m' p = mb_length m p" "mb_next m' p = mb_next m p"
    by (simp_all add: mb_base_def mb_length_def mb_next_def)
qed

lemma region_ok_frame:
  assumes "region_ok m R" and "\<And>x. mr_free_blocks R \<noteq> 0 \<Longrightarrow> in_range x (mr_free_blocks R, 24) \<Longrightarrow> m' x = m x"
  shows "region_ok m' R"
proof (cases "mr_free_blocks R = 0")
  case False
  note fields = mb_frame [OF assms(2) [OF False]]
  have "block_ok m' R = block_ok m R"
    by (simp add: block_ok_def fields)
  with assms(1) show ?thesis by (simp add: region_ok_def)
qed (use assms(1) in \<open>simp add: region_ok_def\<close>)

lemma slab_rep_frame:
  assumes "slab_rep 24 (m, sa) xs"
    and "\<And>t x. t \<in> set (slab_ranges 24 xs) \<Longrightarrow> in_range x t \<Longrightarrow> m' x = m x"
  shows "slab_rep 24 (m', sa) xs"
  using assms region_list_frame [of 24 xs m' m "m_regions sa"] by (simp add: slab_rep_def)

lemma store_mb_fields:
  "mb_base (store_mb m p b l n) p = b" "mb_length (store_mb m p b l n) p = l"
  "mb_next (store_mb m p b l n) p = n"
  by (simp_all add: mb_base_def mb_length_def mb_next_def store_mb_def load64_store64_other fields_disj)

lemma store_mb_other:
  assumes "\<not> in_range x (p, 24)"
  shows "store_mb m p b l n x = m x"
proof -
  have "\<not> in_range x (p, 8)" "\<not> in_range x (p + 8, 8)" "\<not> in_range x (p + 16, 8)"
    using assms in_range_field [of x p 0 24] in_range_field [of x p 8 24]
      in_range_field [of x p 16 24] by auto
  then show ?thesis
    by (simp add: store_mb_def store64_other)
qed

lemma live_nodes_memD:
  "R \<in> set Rs \<Longrightarrow> mr_free_blocks R \<noteq> 0 \<Longrightarrow> mr_free_blocks R \<in> set (live_nodes Rs)"
  by (simp add: live_nodes_def)

lemma live_nodes_append [simp]: "live_nodes (Rs @ Ss) = live_nodes Rs @ live_nodes Ss"
  by (simp add: live_nodes_def)

lemma all_apart_append:
  "all_apart (Rs @ Ss) \<longleftrightarrow> all_apart Rs \<and> all_apart Ss \<and> list_all (\<lambda>R. list_all (apart R) Ss) Rs"
  by (induction Rs) (auto simp: list_all_iff)

text \<open>The parts of the invariant that the proofs use.\<close>

lemma pmm_invD:
  assumes "pmm_inv buf s"
  shows "length (pm_regions s) = 16" "unat (pm_region_count s) \<le> 16"
    "unat (m_free (pm_block_allocator s)) \<le> 64"
    "slab_rep 24 (pm_mem s, pm_block_allocator s) [(buf, free_nodes buf (used_nodes s))]"
    "\<And>R. R \<in> set (active_regions s) \<Longrightarrow> region_ok (pm_mem s) R"
    "all_apart (active_regions s)" "distinct (live_nodes (active_regions s))"
    "\<And>R. R \<in> set (active_regions s) \<Longrightarrow> mr_free_blocks R \<noteq> 0 \<Longrightarrow>
      \<exists>j < used_nodes s. mr_free_blocks R = node_addr buf j"
    "pm_total_bytes s = sum_list (map mr_length (active_regions s))"
    "pm_free_bytes s = sum_list (map mr_free_bytes (active_regions s))"
proof -
  note inv = assms [unfolded pmm_inv_def]
  show "\<exists>j < used_nodes s. mr_free_blocks R = node_addr buf j"
    if "R \<in> set (active_regions s)" "mr_free_blocks R \<noteq> 0" for R
    using live_nodes_memD [OF that] inv by blast
qed (use assms in \<open>simp_all add: pmm_inv_def list_all_iff\<close>)

lemma length_active_regions:
  assumes "pmm_inv buf s"
  shows "length (active_regions s) = unat (pm_region_count s)"
  using pmm_invD(1,2) [OF assms] by (simp add: active_regions_def)

section \<open>Adding a region\<close>

text \<open>The pages of an area: its base rounded up, and the whole pages that remain.\<close>

definition usable_base :: "nat \<Rightarrow> nat" where
  "usable_base b = (b + 4095) div 4096 * 4096"

definition usable_length :: "nat \<Rightarrow> nat \<Rightarrow> nat" where
  "usable_length b l = (l - (usable_base b - b)) div 4096 * 4096"

lemma unat_align_up_page:
  assumes "unat v + 4096 \<le> 18446744073709551616"
  shows "unat (align_up v PAGE_SIZE) = usable_base (unat v)"
  using unat_align_up [of 12 v] assms by (simp add: PAGE_SIZE_eq usable_base_def)

lemma usable_base_bounds:
  "b \<le> usable_base b" "usable_base b < b + 4096" "4096 dvd usable_base b"
  using nat_round_up_bounds [of 4096 b] by (simp_all add: usable_base_def)

lemma usable_length_bounds:
  assumes "usable_base b \<le> b + l"
  shows "usable_base b + usable_length b l \<le> b + l" and "4096 dvd usable_length b l"
    and "usable_base b + 4096 \<le> b + l \<Longrightarrow> 4096 \<le> usable_length b l"
proof -
  have le: "usable_length b l \<le> l - (usable_base b - b)"
    by (simp add: usable_length_def div_times_less_eq_dividend)
  then show "usable_base b + usable_length b l \<le> b + l"
    using assms usable_base_bounds(1) [of b] by linarith
  show "4096 dvd usable_length b l" by (simp add: usable_length_def)
  assume "usable_base b + 4096 \<le> b + l"
  then have "4096 \<le> l - (usable_base b - b)"
    using usable_base_bounds(1) [of b] by linarith
  then have "1 \<le> (l - (usable_base b - b)) div 4096"
    by (simp add: div_greater_zero_iff Suc_leI)
  then show "4096 \<le> usable_length b l"
    by (simp add: usable_length_def)
qed

lemma add_region_sizes:
  assumes "unat base + unat len \<le> phys_limit" and "usable_base (unat base) \<le> unat base + unat len"
  shows "unat (align_up base PAGE_SIZE) = usable_base (unat base)"
    and "unat (align_down (len - (align_up base PAGE_SIZE - base)) PAGE_SIZE) =
      usable_length (unat base) (unat len)"
    and "unat (align_up base PAGE_SIZE + align_down (len - (align_up base PAGE_SIZE - base)) PAGE_SIZE) =
      usable_base (unat base) + usable_length (unat base) (unat len)"
    and "unat (base + len) = unat base + unat len"
proof -
  show up: "unat (align_up base PAGE_SIZE) = usable_base (unat base)"
    using assms by (intro unat_align_up_page) (simp add: phys_limit_def)
  then have "unat (align_up base PAGE_SIZE - base) = usable_base (unat base) - unat base"
    using usable_base_bounds(1) [of "unat base"] by (simp add: unat_sub_cases)
  then have "unat (len - (align_up base PAGE_SIZE - base)) =
      unat len - (usable_base (unat base) - unat base)"
    using assms(2) by (simp add: unat_sub_cases)
  then show down: "unat (align_down (len - (align_up base PAGE_SIZE - base)) PAGE_SIZE) =
      usable_length (unat base) (unat len)"
    using unat_align_down [of _ 12] by (simp add: PAGE_SIZE_eq usable_length_def)
  show "unat (align_up base PAGE_SIZE + align_down (len - (align_up base PAGE_SIZE - base)) PAGE_SIZE) =
      usable_base (unat base) + usable_length (unat base) (unat len)"
    using up down usable_length_bounds(1) [OF assms(2)] assms(1)
    by (simp add: unat_add_cases phys_limit_def)
  show "unat (base + len) = unat base + unat len"
    using assms(1) by (simp add: unat_add_cases phys_limit_def)
qed

text \<open>
  The verdict on an area whose pages do not start beyond its end: the guards of the
  code in their order, on natural numbers.
\<close>

definition covers :: "memory_region \<Rightarrow> nat \<Rightarrow> bool" where
  "covers R a \<longleftrightarrow> unat (mr_base R) \<le> a \<and> a \<le> unat (mr_base R) + unat (mr_length R)"

definition add_region_verdict :: "pmm \<Rightarrow> nat \<Rightarrow> nat \<Rightarrow> error_code" where
  "add_region_verdict s b l =
     (if b = 0 then NULL_ARGUMENT
      else if unat (pm_region_count s) \<ge> 16 then PMM_REGION_LIST_FULL
      else if b + l < usable_base b + 4096 then PMM_REGION_TOO_SMALL
      else if list_ex (\<lambda>R. covers R (usable_base b)) (active_regions s) then PMM_REGION_MANAGED
      else SUCCESS)"

lemma region_end:
  "region_ok m R \<Longrightarrow> unat (mr_base R + mr_length R) = unat (mr_base R) + unat (mr_length R)"
  by (simp add: region_ok_def area_ok_def phys_limit_def unat_add_cases)

lemma add_region_guards:
  fixes base len :: u64
  defines "ab \<equiv> align_up base PAGE_SIZE"
  defines "al \<equiv> align_down (len - (ab - base)) PAGE_SIZE"
  assumes inv: "pmm_inv buf s"
    and range: "unat base + unat len \<le> phys_limit" "usable_base (unat base) \<le> unat base + unat len"
  shows "base = 0 \<longleftrightarrow> unat base = 0"
    and "REGION_COUNT \<le> pm_region_count s \<longleftrightarrow> 16 \<le> unat (pm_region_count s)"
    and "\<not> ab + al \<le> base + len \<or> \<not> PAGE_SIZE \<le> al \<longleftrightarrow>
      unat base + unat len < usable_base (unat base) + 4096"
    and "list_ex (\<lambda>r. mr_base r \<le> ab \<and> ab \<le> mr_base r + mr_length r) (active_regions s) \<longleftrightarrow>
      list_ex (\<lambda>R. covers R (usable_base (unat base))) (active_regions s)"
proof -
  note sizes = add_region_sizes [OF range, folded ab_def, folded al_def]
  show "base = 0 \<longleftrightarrow> unat base = 0"
    by (simp add: unat_eq_0)
  show "REGION_COUNT \<le> pm_region_count s \<longleftrightarrow> 16 \<le> unat (pm_region_count s)"
    by (simp add: REGION_COUNT_def word_le_nat_alt)
  have "ab + al \<le> base + len"
    using usable_length_bounds(1) [OF range(2)] by (simp add: word_le_nat_alt sizes)
  moreover have "PAGE_SIZE \<le> al \<longleftrightarrow> 4096 \<le> usable_length (unat base) (unat len)"
    by (simp add: word_le_nat_alt sizes(2))
  moreover have "4096 \<le> usable_length (unat base) (unat len) \<Longrightarrow>
      usable_base (unat base) + 4096 \<le> unat base + unat len"
    using usable_length_bounds(1) [OF range(2)] by linarith
  ultimately show "\<not> ab + al \<le> base + len \<or> \<not> PAGE_SIZE \<le> al \<longleftrightarrow>
      unat base + unat len < usable_base (unat base) + 4096"
    using usable_length_bounds(3) [OF range(2)] by (metis not_le)
  have "mr_base r \<le> ab \<and> ab \<le> mr_base r + mr_length r \<longleftrightarrow> covers r (usable_base (unat base))"
    if "r \<in> set (active_regions s)" for r
    using region_end [OF pmm_invD(5) [OF inv that]]
    by (simp add: covers_def word_le_nat_alt sizes(1))
  then show "list_ex (\<lambda>r. mr_base r \<le> ab \<and> ab \<le> mr_base r + mr_length r) (active_regions s) \<longleftrightarrow>
      list_ex (\<lambda>R. covers R (usable_base (unat base))) (active_regions s)"
    by (auto simp: list_ex_iff)
qed

lemma add_region_rejects:
  assumes "pmm_inv buf s"
    and "unat base + unat len \<le> phys_limit" "usable_base (unat base) \<le> unat base + unat len"
    and "add_region_verdict s (unat base) (unat len) \<noteq> SUCCESS"
  shows "add_region base len s = Done (error_of (add_region_verdict s (unat base) (unat len)), s)"
  using assms(4) unfolding add_region_def add_region_verdict_def Let_def
  by (simp only: add_region_guards [OF assms(1-3)] split: if_splits) simp_all

text \<open>Appending to the table.\<close>

lemma active_regions_append:
  assumes "pmm_inv buf s" and "unat (pm_region_count s) < 16"
  shows "active_regions (s\<lparr>pm_mem := m, pm_block_allocator := sa,
      pm_regions := (pm_regions s)[unat (pm_region_count s) := R],
      pm_region_count := pm_region_count s + 1, pm_total_bytes := t, pm_free_bytes := f\<rparr>) =
    active_regions s @ [R]"
proof -
  have "unat (pm_region_count s + 1) = Suc (unat (pm_region_count s))"
    using assms(2) by (simp add: unat_add_cases)
  with assms pmm_invD(1) [OF assms(1)] show ?thesis
    by (simp add: active_regions_def take_Suc_conv_app_nth)
qed

text \<open>Two nodes taken in a row, as \<open>add_region\<close> takes them.\<close>

lemma alloc_two_nodes:
  assumes buf: "buf_ok buf" and free: "2 \<le> unat (m_free sa)" "unat (m_free sa) \<le> 64"
    and k: "k = 64 - unat (m_free sa)" and rep: "slab_rep 24 (m, sa) [(buf, free_nodes buf k)]"
  obtains m1 sa1 m2 sa2 where "slab_alloc_block True 24 (m, sa) = Done (node_addr buf k, m1, sa1)"
    and "slab_alloc_block True 24 (m1, sa1) = Done (node_addr buf (Suc k), m2, sa2)"
    and "slab_rep 24 (m2, sa2) [(buf, free_nodes buf (Suc (Suc k)))]"
    and "unat (m_free sa2) = unat (m_free sa) - 2"
    and "\<And>x. \<not> in_range x (buf, 32) \<Longrightarrow> \<not> in_range x (node_addr buf k, 24) \<Longrightarrow>
      \<not> in_range x (node_addr buf (Suc k), 24) \<Longrightarrow> m2 x = m x"
proof -
  obtain m1 sa1 where a1: "slab_alloc_block True 24 (m, sa) = Done (node_addr buf k, m1, sa1)"
    and rep1: "slab_rep 24 (m1, sa1) [(buf, free_nodes buf (Suc k))]"
    and f1: "unat (m_free sa1) = unat (m_free sa) - 1"
    and out1: "\<And>x. \<not> in_range x (buf, 32) \<Longrightarrow> \<not> in_range x (node_addr buf k, 24) \<Longrightarrow> m1 x = m x"
    by (rule alloc_node [OF buf _ free(2) k rep]) (use free in auto)
  obtain m2 sa2 where a2: "slab_alloc_block True 24 (m1, sa1) = Done (node_addr buf (Suc k), m2, sa2)"
    and rep2: "slab_rep 24 (m2, sa2) [(buf, free_nodes buf (Suc (Suc k)))]"
    and f2: "unat (m_free sa2) = unat (m_free sa1) - 1"
    and out2: "\<And>x. \<not> in_range x (buf, 32) \<Longrightarrow> \<not> in_range x (node_addr buf (Suc k), 24) \<Longrightarrow> m2 x = m1 x"
    by (rule alloc_node [OF buf _ _ _ rep1]) (use free f1 k in auto)
  show thesis
    by (rule that [OF a1 a2 rep2]) (use f1 f2 out1 out2 in simp_all)
qed

lemma add_region_success:
  assumes inv: "pmm_inv buf s" and buf: "buf_ok buf"
    and nodes: "2 \<le> unat (m_free (pm_block_allocator s))"
    and range: "unat base + unat len \<le> phys_limit" "usable_base (unat base) \<le> unat base + unat len"
    and verdict: "add_region_verdict s (unat base) (unat len) = SUCCESS"
    and apart: "\<And>R. R \<in> set (active_regions s) \<Longrightarrow>
      usable_base (unat base) + usable_length (unat base) (unat len) \<le> unat (mr_base R) \<or>
      unat (mr_base R) + unat (mr_length R) \<le> usable_base (unat base)"
  obtains s' R where "add_region base len s = Done (error_of SUCCESS, s')"
    and "active_regions s' = active_regions s @ [R]"
    and "unat (mr_base R) = usable_base (unat base)"
    and "unat (mr_length R) = usable_length (unat base) (unat len)"
    and "mr_free_bytes R = mr_length R" and "mr_free_blocks R \<noteq> 0"
    and "mb_base (pm_mem s') (mr_free_blocks R) = mr_base R"
    and "mb_length (pm_mem s') (mr_free_blocks R) = mr_length R"
    and "pmm_inv buf s'"
    and "unat (m_free (pm_block_allocator s')) = unat (m_free (pm_block_allocator s)) - 2"
    and "pm_total_bytes s' = pm_total_bytes s + mr_length R"
    and "pm_free_bytes s' = pm_free_bytes s + mr_length R"
    and "pm_region_count s' = pm_region_count s + 1"
    and "pm_pol s' = pm_pol s" and "pm_console s' = pm_console s"
    and "\<And>x. \<not> in_range x (buf, 1576) \<Longrightarrow> pm_mem s' x = pm_mem s x"
    and "\<And>j x. j < used_nodes s \<Longrightarrow> in_range x (node_addr buf j, 24) \<Longrightarrow> pm_mem s' x = pm_mem s x"
proof -
  let ?sa = "pm_block_allocator s" let ?k = "used_nodes s"
  let ?ab = "align_up base PAGE_SIZE"
  let ?al = "align_down (len - (?ab - base)) PAGE_SIZE"
  note sizes = add_region_sizes [OF range]
  note D = pmm_invD [OF inv]
  have k: "?k + 2 \<le> 64" "?k < 64" "Suc ?k < 64"
    using nodes D(3) by (auto simp: used_nodes_def)
  obtain m1 sa1 m2 sa2 where a1: "slab_alloc_block True 24 (pm_mem s, ?sa) = Done (node_addr buf ?k, m1, sa1)"
    and a2: "slab_alloc_block True 24 (m1, sa1) = Done (node_addr buf (Suc ?k), m2, sa2)"
    and rep2: "slab_rep 24 (m2, sa2) [(buf, free_nodes buf (Suc (Suc ?k)))]"
    and f2: "unat (m_free sa2) = unat (m_free ?sa) - 2"
    and out2: "\<And>x. \<not> in_range x (buf, 32) \<Longrightarrow> \<not> in_range x (node_addr buf ?k, 24) \<Longrightarrow>
      \<not> in_range x (node_addr buf (Suc ?k), 24) \<Longrightarrow> m2 x = pm_mem s x"
    by (rule alloc_two_nodes [OF buf nodes D(3) _ D(4)]) (simp_all add: used_nodes_def)
  let ?fb = "node_addr buf (Suc ?k)"
  let ?m = "store_mb m2 ?fb ?ab ?al 0"
  let ?R = "\<lparr>mr_base = ?ab, mr_length = ?al, mr_free_bytes = ?al, mr_free_blocks = ?fb\<rparr>"
  let ?s = "s\<lparr>pm_mem := ?m, pm_block_allocator := sa2,
      pm_regions := (pm_regions s)[unat (pm_region_count s) := ?R],
      pm_region_count := pm_region_count s + 1, pm_total_bytes := pm_total_bytes s + ?al,
      pm_free_bytes := pm_free_bytes s + ?al\<rparr>"
  have v: "unat base \<noteq> 0" "\<not> 16 \<le> unat (pm_region_count s)"
    "\<not> unat base + unat len < usable_base (unat base) + 4096"
    "\<not> list_ex (\<lambda>R. covers R (usable_base (unat base))) (active_regions s)"
    using verdict by (auto simp: add_region_verdict_def split: if_splits)
  have nz: "node_addr buf ?k \<noteq> 0" "?fb \<noteq> 0"
    using node_addr_nonzero [OF buf] k by auto
  have step: "add_region base len s = Done (error_of SUCCESS, ?s)"
    unfolding add_region_def Let_def add_region_guards [OF inv range]
    using v nz a1 a2 by simp
  have act: "active_regions ?s = active_regions s @ [?R]"
    using v(2) by (intro active_regions_append [OF inv]) simp
  have out: "?m x = pm_mem s x" if "\<not> in_range x (buf, 32)"
    "\<not> in_range x (node_addr buf ?k, 24)" "\<not> in_range x (?fb, 24)" for x
    using that out2 [of x] by (simp add: store_mb_other)
  have used: "used_nodes ?s = Suc (Suc ?k)"
    using f2 nodes D(3) by (simp add: used_nodes_def)
  have old: "?m x = pm_mem s x" if "j < ?k" "in_range x (node_addr buf j, 24)" for j x
    using in_node_not_in [OF buf _ that(2)] that(1) k by (intro out) simp_all
  have "slab_rep 24 (?m, sa2) [(buf, free_nodes buf (Suc (Suc ?k)))]"
  proof (rule slab_rep_frame [OF rep2])
    fix t x assume "t \<in> set (slab_ranges 24 [(buf, free_nodes buf (Suc (Suc ?k)))])" and x: "in_range x t"
    then consider "t = (buf, 32)" | j where "Suc (Suc ?k) \<le> j" "j < 64" "t = (node_addr buf j, 24)"
      using slab_ranges_buf [OF buf] by blast
    then have "range_disj t (?fb, 24)"
      using k nodes_disj [OF buf] node_header_disj [OF buf, THEN range_disj_sym]
      by cases auto
    from range_disj_in_range [OF this x] show "?m x = m2 x"
      by (rule store_mb_other)
  qed
  moreover have "region_ok ?m R" if "R \<in> set (active_regions s)" for R
    using D(8) [OF that] old by (intro region_ok_frame [OF D(5) [OF that]]) auto
  moreover have R: "region_ok ?m ?R"
    using usable_base_bounds [of "unat base"] usable_length_bounds [OF range(2)] v range sizes
    by (simp add: region_ok_def block_ok_def area_ok_def store_mb_fields Let_def)
  moreover have "list_all (\<lambda>S. apart S ?R) (active_regions s)"
    using apart sizes by (auto simp: list_all_iff apart_def)
  moreover have "?fb \<notin> set (live_nodes (active_regions s))"
  proof
    assume "?fb \<in> set (live_nodes (active_regions s))"
    then obtain j where "j < ?k" "?fb = node_addr buf j"
      using inv by (auto simp: pmm_inv_def)
    with k node_addr_inj [OF buf, of "Suc ?k" j] show False by simp
  qed
  moreover have "set (live_nodes (active_regions s)) \<subseteq> node_addr buf ` {..<Suc (Suc ?k)}"
    using inv by (auto simp: pmm_inv_def)
  moreover have "unat (m_free sa2) \<le> 64" "unat (pm_region_count s + 1) \<le> 16"
    using f2 D(3) v(2) by (simp_all add: unat_add_cases)
  ultimately have inv': "pmm_inv buf ?s"
    using D nz v(2) unfolding pmm_inv_def act used
    by (auto simp: all_apart_append list_all_iff live_nodes_def)
  show thesis
  proof (rule that [OF step act _ _ _ _ _ _ inv'])
    show "pm_mem ?s x = pm_mem s x" if "\<not> in_range x (buf, 1576)" for x
      using that node_in_buf [OF buf] header_in_buf k by (simp, intro out) blast+
    show "pm_mem ?s x = pm_mem s x" if "j < ?k" "in_range x (node_addr buf j, 24)" for j x
      using old [OF that] by simp
  qed (use sizes nz f2 in \<open>simp_all add: store_mb_fields\<close>)
qed

end
