(* ===== verification/Pmm_Alloc.thy ===== *)
theory Pmm_Alloc
  imports Pmm_Invariant
begin

text \<open>
  Allocation. \<open>alloc_aligned\<close> only ever looks at the single block of the first
  region that has enough free bytes: it either carves the request out of that
  block, or, when the block cannot hold the aligned request, dereferences the
  null \<^verbatim>\<open>next\<close> pointer. The lemmas give both cases exactly, show that carving keeps
  the invariant, and lift this to sequences of operations: no two allocations
  ever overlap.
\<close>

section \<open>Powers of two\<close>

lemma pow2_and_pred: "k < 64 \<Longrightarrow> (2 ^ k :: u64) AND (2 ^ k - 1) = 0"
proof -
  assume "k < 64"
  have "(2 ^ k - 1 :: u64) = mask k" by (simp add: mask_eq_exp_minus_1)
  moreover have "(2 ^ k :: u64) AND mask k = 0"
    by (rule bit_word_eqI) (auto simp: bit_simps)
  ultimately show ?thesis by simp
qed

lemma and_pred_pow2:
  fixes a :: u64
  assumes "a AND (a - 1) = 0" and "a \<noteq> 0"
  obtains k where "k < 64" and "a = 2 ^ k"
proof -
  obtain n where "bit a n"
    using assms(2) by (metis bit_word_eqI bit_0_eq bot_apply bot_bool_def)
  define k where "k = (LEAST n. bit a n)"
  have k: "bit a k" unfolding k_def by (rule LeastI) fact
  have low: "\<not> bit a j" if "j < k" for j
    using that not_less_Least unfolding k_def by blast
  have k64: "k < 64" using bit_imp_le_length [OF k] by simp
  define c where "c = a AND NOT (2 ^ k)"
  have c: "bit c j \<longleftrightarrow> bit a j \<and> j \<noteq> k" for j
    using k64 by (auto simp: c_def bit_simps dest: bit_imp_le_length)
  have "c AND 2 ^ k = 0"
    by (rule bit_word_eqI) (auto simp: bit_simps c)
  then have "c + 2 ^ k = c OR 2 ^ k"
    by (rule disjunctive_add_eq_or)
  also have "\<dots> = a"
    using k by (intro bit_word_eqI) (auto simp: bit_simps c)
  finally have a: "a = c + 2 ^ k" by simp
  have "c AND mask k = 0"
    by (rule bit_word_eqI) (auto simp: bit_simps c dest: low)
  then have "c + mask k = c OR mask k"
    by (rule disjunctive_add_eq_or)
  moreover have "a - 1 = c + mask k"
    by (simp add: a mask_eq_exp_minus_1)
  ultimately have pred: "a - 1 = c OR mask k" by simp
  have "\<not> bit a j" if "j \<noteq> k" for j
  proof
    assume "bit a j"
    then have "bit (a - 1) j" using that c pred by (simp add: bit_simps)
    with \<open>bit a j\<close> have "bit (a AND (a - 1)) j" by (simp add: bit_simps)
    with assms(1) show False by simp
  qed
  then have "a = 2 ^ k"
    using k k64 by (intro bit_word_eqI) (auto simp: bit_simps)
  with that k64 show ?thesis by blast
qed

definition good_align :: "size_t \<Rightarrow> bool" where
  "good_align a \<longleftrightarrow> (\<exists>k. 12 \<le> k \<and> k < 64 \<and> a = 2 ^ k)"

lemma good_align_iff: "good_align a \<longleftrightarrow> \<not> (a < PAGE_SIZE \<or> a AND (a - 1) \<noteq> 0)"
proof
  assume "good_align a"
  then obtain k where k: "12 \<le> k" "k < 64" "a = 2 ^ k" by (auto simp: good_align_def)
  have "(2 :: nat) ^ 12 \<le> 2 ^ k" using k(1) by (intro power_increasing) auto
  then have "PAGE_SIZE \<le> a"
    using k by (simp add: word_le_nat_alt unat_pow_64)
  then show "\<not> (a < PAGE_SIZE \<or> a AND (a - 1) \<noteq> 0)"
    using pow2_and_pred [OF k(2)] k(3) by (simp add: not_less)
next
  assume *: "\<not> (a < PAGE_SIZE \<or> a AND (a - 1) \<noteq> 0)"
  then have "a \<noteq> 0" by (auto simp: PAGE_SIZE_def)
  with * obtain k where k: "k < 64" "a = 2 ^ k" using and_pred_pow2 by blast
  have "(2 :: nat) ^ 12 \<le> 2 ^ k"
    using * k by (simp add: not_less word_le_nat_alt unat_pow_64)
  then have "12 \<le> k" by (simp only: power_increasing_iff)
  with k show "good_align a" by (auto simp: good_align_def)
qed

lemma good_align_PAGE_SIZE: "good_align PAGE_SIZE"
  by (auto simp: good_align_def PAGE_SIZE_eq)

text \<open>Rounding a physical address up to such an alignment does not wrap.\<close>

definition round_to :: "nat \<Rightarrow> nat \<Rightarrow> nat" where
  "round_to n p = (n + (p - 1)) div p * p"

lemma unat_align_up_good:
  assumes "good_align a" and "unat v \<le> phys_limit"
  shows "unat (align_up v a) = round_to (unat v) (unat a)"
proof -
  obtain k where k: "k < 64" "a = 2 ^ k" using assms(1) by (auto simp: good_align_def)
  have "unat v + 2 ^ k \<le> 2 ^ 64"
    using pow_64_le [OF k(1)] assms(2) by (simp add: phys_limit_def)
  then show ?thesis
    using unat_align_up [OF k(1)] k by (simp add: round_to_def unat_pow_64)
qed

lemma round_to_bounds:
  assumes "0 < p"
  shows "n \<le> round_to n p" and "round_to n p < n + p" and "p dvd round_to n p"
  using nat_round_up_bounds [OF assms] by (simp_all add: round_to_def)

lemma good_align_dvd: "good_align a \<Longrightarrow> 4096 dvd unat a"
  using le_imp_power_dvd [of 12 _ "2 :: nat"] by (auto simp: good_align_def unat_pow_64)

lemma good_align_bounds: "good_align a \<Longrightarrow> 0 < unat a" "good_align a \<Longrightarrow> unat a \<le> 2 ^ 63"
  using pow_64_le by (auto simp: good_align_def unat_pow_64)

section \<open>Carving a block\<close>

text \<open>
  What is left in the free list of a block \<open>[b, b + l)\<close> after \<open>[a, a + n)\<close> has been
  carved out of it. When free space is left on both sides, the code keeps the part
  in front and links nothing to the part behind.
\<close>

definition carved :: "nat \<Rightarrow> nat \<Rightarrow> nat \<Rightarrow> nat \<Rightarrow> (nat \<times> nat) option" where
  "carved b l a n =
     (if b \<noteq> a then Some (b, a - b)
      else if a + n < b + l then Some (a + n, b + l - (a + n)) else None)"

definition splits :: "nat \<Rightarrow> nat \<Rightarrow> nat \<Rightarrow> nat \<Rightarrow> bool" where
  "splits b l a n \<longleftrightarrow> b \<noteq> a \<and> a + n < b + l"

text \<open>The free block of a region, as numbers.\<close>

definition region_block :: "mem \<Rightarrow> memory_region \<Rightarrow> (nat \<times> nat) option" where
  "region_block m R =
     (if mr_free_blocks R = 0 then None
      else Some (unat (mb_base m (mr_free_blocks R)), unat (mb_length m (mr_free_blocks R))))"

lemma carved_inside:
  assumes "carved b l a n = Some (b', l')" and "b \<le> a" and "a + n \<le> b + l"
  shows "b \<le> b'" "b' + l' \<le> b + l" "0 < l'" "l' + n \<le> l" "b' + l' \<le> a \<or> a + n \<le> b'"
  using assms by (auto simp: carved_def split: if_splits)

lemma carve_misfit:
  assumes fb: "mb_next (pm_mem s) p = 0" "p \<noteq> 0"
    and area: "area_ok (unat (mb_base (pm_mem s) p)) (unat (mb_length (pm_mem s) p))"
    and al: "good_align al" and sz: "unat sz \<le> phys_limit"
    and misfit: "unat (mb_base (pm_mem s) p) + unat (mb_length (pm_mem s) p) <
      round_to (unat (mb_base (pm_mem s) p)) (unat al) + unat sz"
  shows "carve_block i sz al p s = Halt Null_deref"
proof -
  let ?b = "mb_base (pm_mem s) p" let ?l = "mb_length (pm_mem s) p"
  have lim: "unat ?b + unat ?l \<le> 2 ^ 56" using area by (simp add: area_ok_def phys_limit_def)
  have a: "unat (align_up ?b al) = round_to (unat ?b) (unat al)"
    using al lim by (intro unat_align_up_good) (simp_all add: phys_limit_def)
  have "round_to (unat ?b) (unat al) < unat ?b + 2 ^ 63"
    using round_to_bounds(2) [OF good_align_bounds(1) [OF al], of "unat ?b"]
      good_align_bounds(2) [OF al] by linarith
  then have "unat (align_up ?b al + sz) = round_to (unat ?b) (unat al) + unat sz"
    using lim sz a by (simp add: unat_add_cases phys_limit_def)
  moreover have "unat (?b + ?l) = unat ?b + unat ?l"
    using lim by (simp add: unat_add_cases)
  ultimately have "?b + ?l < align_up ?b al + sz" "\<not> align_up ?b al + sz < ?b + ?l"
    using misfit by (simp_all add: word_less_nat_alt)
  then show ?thesis
    using fb by (simp add: carve_block_def Let_def)
qed

text \<open>The guards of the body, on a block that holds the aligned request.\<close>

lemma carve_guards:
  fixes b l sz al :: u64
  assumes area: "area_ok (unat b) (unat l)" and al: "good_align al"
    and fit: "round_to (unat b) (unat al) + unat sz \<le> unat b + unat l"
  shows "unat (align_up b al) = round_to (unat b) (unat al)"
    and "unat (align_up b al + sz) = round_to (unat b) (unat al) + unat sz"
    and "unat (b + l) = unat b + unat l"
    and "\<not> b + l < align_up b al + sz"
    and "b \<noteq> align_up b al \<longleftrightarrow> unat b \<noteq> round_to (unat b) (unat al)"
    and "b + l > align_up b al + sz \<longleftrightarrow> round_to (unat b) (unat al) + unat sz < unat b + unat l"
    and "unat (align_up b al - b) = round_to (unat b) (unat al) - unat b"
    and "unat (b + l - (align_up b al + sz)) =
      unat b + unat l - (round_to (unat b) (unat al) + unat sz)"
proof -
  have lim: "unat b + unat l \<le> 2 ^ 56" using area by (simp add: area_ok_def phys_limit_def)
  show a: "unat (align_up b al) = round_to (unat b) (unat al)"
    using al lim by (intro unat_align_up_good) (simp_all add: phys_limit_def)
  show e: "unat (align_up b al + sz) = round_to (unat b) (unat al) + unat sz"
    using lim fit a by (simp add: unat_add_cases)
  show f: "unat (b + l) = unat b + unat l"
    using lim by (simp add: unat_add_cases)
  show "\<not> b + l < align_up b al + sz"
    and "b + l > align_up b al + sz \<longleftrightarrow> round_to (unat b) (unat al) + unat sz < unat b + unat l"
    using fit by (simp_all add: word_less_nat_alt e f)
  show "b \<noteq> align_up b al \<longleftrightarrow> unat b \<noteq> round_to (unat b) (unat al)"
    by (simp add: word_unat_eq_iff a)
  show "unat (align_up b al - b) = round_to (unat b) (unat al) - unat b"
    using round_to_bounds(1) [OF good_align_bounds(1) [OF al], of "unat b"]
    by (simp add: unat_sub_nowrap word_le_nat_alt a)
  show "unat (b + l - (align_up b al + sz)) =
      unat b + unat l - (round_to (unat b) (unat al) + unat sz)"
    using fit by (simp add: unat_sub_nowrap word_le_nat_alt e f)
qed

text \<open>Writing to a node in use does not disturb the list of free nodes.\<close>

lemma slab_rep_write_node:
  assumes "slab_rep 24 (m, sa) [(buf, free_nodes buf k)]" and "buf_ok buf" and "j < k" and "j < 64"
    and "\<And>x. \<not> in_range x (node_addr buf j, 24) \<Longrightarrow> m' x = m x"
  shows "slab_rep 24 (m', sa) [(buf, free_nodes buf k)]"
proof (rule slab_rep_frame [OF assms(1)])
  fix t x assume t: "t \<in> set (slab_ranges 24 [(buf, free_nodes buf k)])" and x: "in_range x t"
  have "\<not> in_range x (node_addr buf j, 24)"
  proof
    assume "in_range x (node_addr buf j, 24)"
    from in_node_not_in [OF assms(2) assms(4) this] slab_ranges_buf [OF assms(2) t] x assms(3)
    show False by auto
  qed
  then show "m' x = m x" by (rule assms(5))
qed

lemma node_store_fields:
  "mb_base (store64 m (p + 8) v) p = mb_base m p" "mb_length (store64 m (p + 8) v) p = v"
  "mb_next (store64 m (p + 8) v) p = mb_next m p"
  "mb_base (store64 m p v) p = v" "mb_next (store64 m p v) p = mb_next m p"
  by (simp_all add: mb_base_def mb_length_def mb_next_def load64_store64_other fields_disj)

lemma node_store_other:
  assumes "\<not> in_range x (p, 24)"
  shows "store64 m p v x = m x" "store64 m (p + 8) v x = m x"
  using assms in_range_field [of x p 0 24] in_range_field [of x p 8 24]
  by (auto intro: store64_other)

lemma carve_block_fit:
  fixes s sz al p i
  defines "b \<equiv> mb_base (pm_mem s) p" and "l \<equiv> mb_length (pm_mem s) p"
  defines "a \<equiv> align_up b al"
  assumes "\<not> b + l < a + sz" and "mb_next (pm_mem s) p = 0" and "p \<noteq> 0"
  shows "b = a \<Longrightarrow> \<not> a + sz < b + l \<Longrightarrow> carve_block i sz al p s =
      Done (a, region_update i (\<lambda>r. r\<lparr>mr_free_blocks := 0\<rparr>) s)"
    and "b = a \<Longrightarrow> a + sz < b + l \<Longrightarrow> carve_block i sz al p s =
      Done (a, s\<lparr>pm_mem := store64 (store64 (pm_mem s) p (a + sz)) (p + 8) (b + l - (a + sz))\<rparr>)"
    and "b \<noteq> a \<Longrightarrow> \<not> a + sz < b + l \<Longrightarrow> carve_block i sz al p s =
      Done (a, s\<lparr>pm_mem := store64 (pm_mem s) (p + 8) (a - b)\<rparr>)"
    and "b \<noteq> a \<Longrightarrow> a + sz < b + l \<Longrightarrow> slab_alloc_block True 24
        (store64 (pm_mem s) (p + 8) (a - b), pm_block_allocator s) = Done (e, m, sa) \<Longrightarrow> e \<noteq> 0 \<Longrightarrow>
      carve_block i sz al p s =
      Done (a, s\<lparr>pm_mem := store_mb m e (a + sz) (b + l - (a + sz)) (mb_next m p),
        pm_block_allocator := sa\<rparr>)"
  using assms(4-6) unfolding carve_block_def Let_def b_def [symmetric] l_def [symmetric]
    a_def [symmetric] by simp_all

text \<open>
  A block that holds the aligned request: the call returns the rounded base, the
  block of the region becomes what \<open>carved\<close> says, and only the node of the block, and
  the header and the next node of the allocator, are written.
\<close>

definition carve_result ::
  "u64 \<Rightarrow> nat \<Rightarrow> nat \<Rightarrow> u64 \<Rightarrow> pmm \<Rightarrow> nat \<Rightarrow> nat \<Rightarrow> nat \<Rightarrow> nat \<Rightarrow> mem \<Rightarrow> slab_alloc \<Rightarrow> memory_region \<Rightarrow> bool" where
  "carve_result buf k i p s b l a n m sa R \<longleftrightarrow>
     region_block m R = carved b l a n \<and> (mr_free_blocks R \<noteq> 0 \<longrightarrow> mb_next m p = 0) \<and>
     mr_free_blocks R = (if carved b l a n = None then 0 else p) \<and>
     mr_base R = mr_base (pm_regions s ! i) \<and> mr_length R = mr_length (pm_regions s ! i) \<and>
     mr_free_bytes R = mr_free_bytes (pm_regions s ! i) \<and>
     unat (m_free sa) = unat (m_free (pm_block_allocator s)) - of_bool (splits b l a n) \<and>
     slab_rep 24 (m, sa) [(buf, free_nodes buf (64 - unat (m_free sa)))] \<and>
     (\<forall>x. \<not> in_range x (p, 24) \<longrightarrow> \<not> in_range x (buf, 32) \<longrightarrow>
       \<not> in_range x (node_addr buf k, 24) \<longrightarrow> m x = pm_mem s x)"

text \<open>A request inside the block: the block ends before it, and a new node holds the rest.\<close>

lemma carve_result_both:
  assumes buf: "buf_ok buf" and inv: "pmm_inv buf s"
    and p: "p = node_addr buf j" "j < used_nodes s" and next0: "mb_next (pm_mem s) p = 0"
    and head: "mr_free_blocks (pm_regions s ! i) = p"
    and nodes: "16 \<le> unat (m_free (pm_block_allocator s))"
    and c: "carved b l a n = Some (b, a - b)" "splits b l a n"
    and v: "unat v = a - b" and b: "b = unat (mb_base (pm_mem s) p)"
  obtains m1 sa1 where "slab_alloc_block True 24 (store64 (pm_mem s) (p + 8) v, pm_block_allocator s) =
      Done (node_addr buf (used_nodes s), m1, sa1)"
    and "carve_result buf (used_nodes s) i p s b l a n
      (store_mb m1 (node_addr buf (used_nodes s)) x y (mb_next m1 p)) sa1 (pm_regions s ! i)"
proof -
  let ?m = "pm_mem s" let ?sa = "pm_block_allocator s" let ?k = "used_nodes s" let ?e = "node_addr buf ?k"
  let ?m0 = "store64 ?m (p + 8) v"
  note D = pmm_invD [OF inv]
  have k: "?k < 64" "?k = 64 - unat (m_free ?sa)" "64 - (unat (m_free ?sa) - Suc 0) = Suc ?k"
    using nodes D(3) by (simp_all add: used_nodes_def)
  have j: "j < 64" and "p \<noteq> 0" using p k(1) node_addr_nonzero [OF buf] by simp_all
  have rep0: "slab_rep 24 (?m0, ?sa) [(buf, free_nodes buf ?k)]"
    by (rule slab_rep_write_node [OF D(4) buf p(2) j]) (simp add: p(1) node_store_other)
  have pos: "0 < unat (m_free ?sa)" using nodes by simp
  obtain m1 sa1 where a1: "slab_alloc_block True 24 (?m0, ?sa) = Done (?e, m1, sa1)"
    and rep1: "slab_rep 24 (m1, sa1) [(buf, free_nodes buf (Suc ?k))]"
    and f1: "unat (m_free sa1) = unat (m_free ?sa) - 1"
    and out1: "\<And>x. \<not> in_range x (buf, 32) \<Longrightarrow> \<not> in_range x (?e, 24) \<Longrightarrow> m1 x = ?m0 x"
    by (rule alloc_node [OF buf pos D(3) k(2) rep0]) blast
  let ?m' = "store_mb m1 ?e x y (mb_next m1 p)"
  have "?m' z = ?m0 z" if "in_range z (p, 24)" for z
    using in_node_not_in(1) [OF buf j, of z] in_node_not_in(2) [OF buf j, of z ?k] that p k(1) out1 [of z]
    by (simp add: store_mb_other)
  note fields = mb_frame [OF this]
  have "slab_rep 24 (?m', sa1) [(buf, free_nodes buf (Suc ?k))]"
    by (rule slab_rep_write_node [OF rep1 buf _ k(1)]) (simp_all add: store_mb_other)
  moreover have "?m' z = ?m z"
    if "\<not> in_range z (p, 24)" "\<not> in_range z (buf, 32)" "\<not> in_range z (?e, 24)" for z
    using that out1 [of z] by (simp add: store_mb_other node_store_other)
  ultimately have "carve_result buf ?k i p s b l a n ?m' sa1 (pm_regions s ! i)"
    using next0 \<open>p \<noteq> 0\<close>
    by (simp add: carve_result_def c region_block_def head fields node_store_fields v b [symmetric]
        k(3) f1 node_store_other)
  with a1 show thesis by (rule that)
qed

lemma carve_fit:
  fixes s sz al p i
  defines "b \<equiv> unat (mb_base (pm_mem s) p)" and "l \<equiv> unat (mb_length (pm_mem s) p)"
  defines "a \<equiv> round_to b (unat al)"
  assumes buf: "buf_ok buf" and inv: "pmm_inv buf s"
    and p: "p = node_addr buf j" "j < used_nodes s" and next0: "mb_next (pm_mem s) p = 0"
    and i: "i < length (pm_regions s)" "mr_free_blocks (pm_regions s ! i) = p"
    and nodes: "16 \<le> unat (m_free (pm_block_allocator s))"
    and area: "area_ok b l" and al: "good_align al" and fit: "a + unat sz \<le> b + l"
  obtains w m sa R where "carve_block i sz al p s = Done (w,
      s\<lparr>pm_mem := m, pm_block_allocator := sa, pm_regions := (pm_regions s)[i := R]\<rparr>)"
    and "unat w = a" and "carve_result buf (used_nodes s) i p s b l a (unat sz) m sa R"
proof -
  let ?m = "pm_mem s" let ?sa = "pm_block_allocator s" let ?r = "pm_regions s ! i"
  let ?k = "used_nodes s"
  define wb wl where "wb = mb_base ?m p" and "wl = mb_length ?m p"
  define wa where "wa = align_up wb al"
  note D = pmm_invD [OF inv]
  note G = carve_guards [OF area [unfolded b_def l_def] al fit [unfolded a_def b_def l_def],
      folded b_def l_def, folded a_def wb_def wl_def, folded wa_def]
  have k: "?k < 64" "?k = 64 - unat (m_free ?sa)" "64 - unat (m_free ?sa) = ?k"
    using nodes by (simp_all add: used_nodes_def)
  have "p \<noteq> 0"
    using p k(1) node_addr_nonzero [OF buf] by simp
  have j: "j < 64" using p(2) k(1) by simp
  note step = carve_block_fit [OF G(4) [unfolded wb_def wl_def wa_def] next0 \<open>p \<noteq> 0\<close>, where i = i,
      folded wb_def wl_def, folded wa_def]
  consider "b = a" "\<not> a + unat sz < b + l" | "b = a" "a + unat sz < b + l"
    | "b \<noteq> a" "\<not> a + unat sz < b + l" | "b \<noteq> a" "a + unat sz < b + l"
    by blast
  then show thesis
  proof cases
    case 1
    have c: "carved b l a (unat sz) = None" "\<not> splits b l a (unat sz)"
      using 1 by (simp_all add: carved_def splits_def)
    have "carve_block i sz al p s = Done (wa, s\<lparr>pm_mem := ?m,
        pm_block_allocator := ?sa, pm_regions := (pm_regions s)[i := ?r\<lparr>mr_free_blocks := 0\<rparr>]\<rparr>)"
      using 1 G(5,6) step(1) by (simp add: region_update_def)
    then show ?thesis
      by (rule that [OF _ G(1)]) (simp add: carve_result_def c region_block_def D(4) k(3))
  next
    case 2
    have c: "carved b l a (unat sz) = Some (a + unat sz, b + l - (a + unat sz))"
      "\<not> splits b l a (unat sz)"
      using 2 by (simp_all add: carved_def splits_def)
    let ?m' = "store64 (store64 ?m p (wa + sz)) (p + 8) (wb + wl - (wa + sz))"
    have "carve_block i sz al p s = Done (wa, s\<lparr>pm_mem := ?m',
        pm_block_allocator := ?sa, pm_regions := (pm_regions s)[i := ?r]\<rparr>)"
      using 2 G(5,6) step(2) by simp
    then show ?thesis
    proof (rule that [OF _ G(1)])
      have "slab_rep 24 (?m', ?sa) [(buf, free_nodes buf ?k)]"
        by (rule slab_rep_write_node [OF D(4) buf p(2) j]) (simp add: p(1) node_store_other)
      then show "carve_result buf ?k i p s b l a (unat sz) ?m' ?sa ?r"
        using next0 \<open>p \<noteq> 0\<close>
        by (simp add: carve_result_def c region_block_def i(2) node_store_fields G(2,8) k(3)
            node_store_other)
    qed
  next
    case 3
    have c: "carved b l a (unat sz) = Some (b, a - b)" "\<not> splits b l a (unat sz)"
      using 3 by (simp_all add: carved_def splits_def)
    let ?m' = "store64 ?m (p + 8) (wa - wb)"
    have "carve_block i sz al p s = Done (wa, s\<lparr>pm_mem := ?m',
        pm_block_allocator := ?sa, pm_regions := (pm_regions s)[i := ?r]\<rparr>)"
      using 3 G(5,6) step(3) by simp
    then show ?thesis
    proof (rule that [OF _ G(1)])
      have "slab_rep 24 (?m', ?sa) [(buf, free_nodes buf ?k)]"
        by (rule slab_rep_write_node [OF D(4) buf p(2) j]) (simp add: p(1) node_store_other)
      then show "carve_result buf ?k i p s b l a (unat sz) ?m' ?sa ?r"
        using next0 \<open>p \<noteq> 0\<close>
        by (simp add: carve_result_def c region_block_def i(2) node_store_fields G(7) k(3)
            node_store_other b_def [symmetric])
    qed
  next
    case 4
    have c: "carved b l a (unat sz) = Some (b, a - b)" "splits b l a (unat sz)"
      using 4 by (simp_all add: carved_def splits_def)
    obtain m1 sa1 where a1: "slab_alloc_block True 24 (store64 ?m (p + 8) (wa - wb), ?sa) = Done (node_addr buf ?k, m1, sa1)"
      and r1: "carve_result buf ?k i p s b l a (unat sz)
        (store_mb m1 (node_addr buf ?k) (wa + sz) (wb + wl - (wa + sz)) (mb_next m1 p)) sa1 ?r"
      by (rule carve_result_both [OF buf inv p next0 i(2) nodes c]) (use G(7) in \<open>auto simp: b_def\<close>)
    have "node_addr buf ?k \<noteq> 0" using node_addr_nonzero [OF buf] k(1) by simp
    then have "carve_block i sz al p s = Done (wa, s\<lparr>pm_mem :=
          store_mb m1 (node_addr buf ?k) (wa + sz) (wb + wl - (wa + sz)) (mb_next m1 p),
        pm_block_allocator := sa1, pm_regions := (pm_regions s)[i := ?r]\<rparr>)"
      using 4 G(5,6) step(4) [OF _ _ a1] by simp
    then show ?thesis by (rule that [OF _ G(1) r1])
  qed
qed

section \<open>The loop over the table\<close>

definition usable :: "size_t \<Rightarrow> memory_region \<Rightarrow> bool" where
  "usable sz R \<longleftrightarrow> sz \<le> mr_free_bytes R \<and> mr_free_blocks R \<noteq> 0"

lemma alloc_loop_find:
  "alloc_loop sz al is s =
     (case find (\<lambda>i. usable sz (pm_regions s ! i)) is of
        None \<Rightarrow> Done (error_of PMM_OUT_OF_MEM, Some 0, s)
      | Some i \<Rightarrow> bind_outcome (carve_block i sz al (mr_free_blocks (pm_regions s ! i)) s)
          (\<lambda>r. Done (finish_alloc i sz r)))"
  by (induction "is") (auto simp: usable_def Let_def not_less)

lemma active_regions_nth:
  "length (pm_regions s) = 16 \<Longrightarrow> i < unat (pm_region_count s) \<Longrightarrow>
    active_regions s ! i = pm_regions s ! i"
  by (simp add: active_regions_def)

lemma find_cong_set: "(\<And>x. x \<in> set xs \<Longrightarrow> P x = Q x) \<Longrightarrow> find P xs = find Q xs"
  by (rule find_cong) simp_all

lemma find_usable_active:
  assumes "pmm_inv buf s"
  shows "find (\<lambda>i. usable sz (pm_regions s ! i)) [0..<unat (pm_region_count s)] =
    find (\<lambda>i. usable sz (active_regions s ! i)) [0..<length (active_regions s)]"
  unfolding length_active_regions [OF assms]
  using active_regions_nth [OF pmm_invD(1) [OF assms]] by (intro find_cong_set) simp

lemma active_regions_update:
  "active_regions (s\<lparr>pm_regions := (pm_regions s)[i := R], pm_mem := m, pm_block_allocator := sa,
      pm_free_bytes := f\<rparr>) = (active_regions s)[i := R]"
  by (simp add: active_regions_def take_update_swap)

section \<open>The state after an allocation\<close>

lemma sum_list_update_group:
  fixes xs :: "'a :: ab_group_add list"
  shows "i < length xs \<Longrightarrow> sum_list (xs[i := x]) = sum_list xs + x - xs ! i"
  by (induction xs arbitrary: i) (auto simp: algebra_simps split: nat.split)

lemma sum_list_map_update:
  fixes f :: "'a \<Rightarrow> 'b :: ab_group_add"
  shows "i < length xs \<Longrightarrow> f x = f (xs ! i) - d \<Longrightarrow>
    sum_list (map f (xs[i := x])) = sum_list (map f xs) - d"
  by (simp add: map_update sum_list_update_group)

lemma list_all_update:
  "list_all P xs \<Longrightarrow> P x \<Longrightarrow> list_all P (xs[i := x])"
  using set_update_subset_insert [of xs i x] by (auto simp: list_all_iff)

lemma all_less_Suc_iff: "(\<forall>i < Suc n. P i) \<longleftrightarrow> P 0 \<and> (\<forall>i < n. P (Suc i))"
  by (auto simp: less_Suc_eq_0_disj)

lemma all_apart_nth: "all_apart Rs \<longleftrightarrow> (\<forall>j < length Rs. \<forall>i < j. apart (Rs ! i) (Rs ! j))"
  by (induction Rs) (auto simp: list_all_length all_less_Suc_iff)

lemma all_apart_update:
  assumes "all_apart Rs" and "i < length Rs"
    and "mr_base R = mr_base (Rs ! i)" "mr_length R = mr_length (Rs ! i)"
  shows "all_apart (Rs[i := R])"
proof -
  have "apart R S = apart (Rs ! i) S" "apart S R = apart S (Rs ! i)" for S
    by (simp_all add: apart_def assms(3,4))
  then show ?thesis
    using assms(1,2) by (auto simp: all_apart_nth nth_list_update)
qed

lemma live_nodes_set: "set (live_nodes Rs) = mr_free_blocks ` set Rs - {0}"
  by (auto simp: live_nodes_def)

lemma distinct_live_nodes_nth:
  "distinct (live_nodes Rs) \<longleftrightarrow> (\<forall>j < length Rs. \<forall>i < length Rs.
     i \<noteq> j \<longrightarrow> mr_free_blocks (Rs ! j) \<noteq> 0 \<longrightarrow> mr_free_blocks (Rs ! i) \<noteq> mr_free_blocks (Rs ! j))"
proof (induction Rs)
  case Nil
  then show ?case by (simp add: live_nodes_def)
next
  case (Cons S Rs)
  have "distinct (live_nodes (S # Rs)) \<longleftrightarrow> distinct (live_nodes Rs) \<and>
      (mr_free_blocks S \<noteq> 0 \<longrightarrow> (\<forall>k < length Rs. mr_free_blocks (Rs ! k) \<noteq> mr_free_blocks S))"
    by (simp add: live_nodes_def in_set_conv_nth image_iff Bex_def) (metis (lifting))
  then show ?case
    unfolding Cons.IH by (simp add: all_less_Suc_iff) metis
qed

lemma live_nodes_update:
  assumes "distinct (live_nodes Rs)" and "i < length Rs"
    and "mr_free_blocks R = 0 \<or> mr_free_blocks R = mr_free_blocks (Rs ! i)"
  shows "distinct (live_nodes (Rs[i := R]))"
    and "set (live_nodes (Rs[i := R])) \<subseteq> set (live_nodes Rs)"
proof -
  show "distinct (live_nodes (Rs[i := R]))"
    using assms unfolding distinct_live_nodes_nth by (simp add: nth_list_update) metis
  show "set (live_nodes (Rs[i := R])) \<subseteq> set (live_nodes Rs)"
    using assms(2,3) set_update_subset_insert [of Rs i R] by (auto simp: live_nodes_set)
qed

section \<open>The abstract allocator\<close>

text \<open>
  What the table says, as natural numbers: base, length, free bytes and the one free
  block of every managed region. \<open>spec_alloc\<close> is the contract of \<open>alloc_aligned\<close>: the
  first region with enough free bytes and a free block decides the call.
\<close>

record area_view =
  av_base :: nat
  av_length :: nat
  av_free :: nat
  av_block :: "(nat \<times> nat) option"

definition view_region :: "mem \<Rightarrow> memory_region \<Rightarrow> area_view" where
  "view_region m R = \<lparr>av_base = unat (mr_base R), av_length = unat (mr_length R),
     av_free = unat (mr_free_bytes R), av_block = region_block m R\<rparr>"

definition pmm_view :: "pmm \<Rightarrow> area_view list" where
  "pmm_view s = map (view_region (pm_mem s)) (active_regions s)"

datatype verdict = No_room | Misfit | Carved nat nat

definition pick :: "nat \<Rightarrow> area_view list \<Rightarrow> nat option" where
  "pick n Vs = find (\<lambda>i. n \<le> av_free (Vs ! i) \<and> av_block (Vs ! i) \<noteq> None) [0..<length Vs]"

definition spec_alloc :: "nat \<Rightarrow> nat \<Rightarrow> area_view list \<Rightarrow> verdict" where
  "spec_alloc n al Vs =
     (case pick n Vs of
        None \<Rightarrow> No_room
      | Some i \<Rightarrow>
          (let (b, l) = the (av_block (Vs ! i)); a = round_to b al
           in if b + l < a + n then Misfit else Carved i a))"

definition spec_update :: "nat \<Rightarrow> nat \<Rightarrow> nat \<Rightarrow> area_view list \<Rightarrow> area_view list" where
  "spec_update n i a Vs =
     (let V = Vs ! i; (b, l) = the (av_block V)
      in Vs[i := V\<lparr>av_free := av_free V - n, av_block := carved b l a n\<rparr>])"

lemma pick_SomeD:
  assumes "pick n Vs = Some i"
  shows "i < length Vs" "n \<le> av_free (Vs ! i)" "av_block (Vs ! i) \<noteq> None"
  using assms by (auto simp: pick_def find_Some_iff)

lemma usable_view:
  "usable sz R \<longleftrightarrow> unat sz \<le> av_free (view_region m R) \<and> av_block (view_region m R) \<noteq> None"
  by (simp add: usable_def view_region_def region_block_def word_le_nat_alt)

lemma pick_usable:
  assumes "pmm_inv buf s"
  shows "find (\<lambda>i. usable sz (pm_regions s ! i)) [0..<unat (pm_region_count s)] =
    pick (unat sz) (pmm_view s)"
  unfolding find_usable_active [OF assms] pick_def
  by (auto simp: pmm_view_def usable_view [of _ _ "pm_mem s"] intro!: find_cong_set)

lemma usable_bounds:
  assumes "pmm_inv buf s" and "R \<in> set (active_regions s)"
  shows "unat (mr_free_bytes R) \<le> unat (mr_length R)" "unat (mr_length R) \<le> phys_limit"
  using pmm_invD(5) [OF assms] by (auto simp: region_ok_def area_ok_def word_le_nat_alt)

lemma unat_sum_list:
  fixes ws :: "u64 list"
  assumes "\<And>w. w \<in> set ws \<Longrightarrow> unat w \<le> phys_limit" and "length ws \<le> 16"
  shows "unat (sum_list ws) = sum_list (map unat ws)"
    and "sum_list (map unat ws) \<le> length ws * phys_limit"
proof -
  have "unat (sum_list ws) = sum_list (map unat ws) \<and> sum_list (map unat ws) \<le> length ws * phys_limit"
    using assms
  proof (induction ws)
    case (Cons w ws)
    then have IH: "unat (sum_list ws) = sum_list (map unat ws)"
      "sum_list (map unat ws) \<le> length ws * phys_limit" and w: "unat w \<le> phys_limit" by auto
    have "length ws * phys_limit \<le> 16 * phys_limit"
      using Cons.prems(2) by (intro mult_le_mono1) simp
    then have "unat w + unat (sum_list ws) < 2 ^ 64"
      using IH w by (simp add: phys_limit_def)
    then show ?case using IH w by (simp add: unat_add_nowrap)
  qed simp
  then show "unat (sum_list ws) = sum_list (map unat ws)"
    "sum_list (map unat ws) \<le> length ws * phys_limit" by auto
qed

text \<open>The counters are the true sums: \<open>total_memory\<close> and \<open>free_memory\<close> do not wrap.\<close>

lemma counters_sum:
  assumes "pmm_inv buf s"
  shows "unat (total_memory s) = sum_list (map av_length (pmm_view s))"
    and "unat (free_memory s) = sum_list (map av_free (pmm_view s))"
proof -
  note bounds = usable_bounds [OF assms]
  have len: "length (active_regions s) \<le> 16"
    using length_active_regions [OF assms] pmm_invD(2) [OF assms] by simp
  have "unat (sum_list (map mr_length (active_regions s))) =
      sum_list (map unat (map mr_length (active_regions s)))"
    by (rule unat_sum_list) (use bounds len in auto)
  then show "unat (total_memory s) = sum_list (map av_length (pmm_view s))"
    using pmm_invD(9) [OF assms]
    by (simp add: total_memory_def pmm_view_def view_region_def o_def)
  have "unat (sum_list (map mr_free_bytes (active_regions s))) =
      sum_list (map unat (map mr_free_bytes (active_regions s)))"
    by (rule unat_sum_list) (use bounds len in \<open>auto intro: order_trans\<close>)
  then show "unat (free_memory s) = sum_list (map av_free (pmm_view s))"
    using pmm_invD(10) [OF assms]
    by (simp add: free_memory_def pmm_view_def view_region_def o_def)
qed

lemma pick_total:
  assumes "pmm_inv buf s" and "pm_free_bytes s < sz"
  shows "pick (unat sz) (pmm_view s) = None"
proof -
  have le: "av_free V \<le> unat (pm_free_bytes s)" if "V \<in> set (pmm_view s)" for V
    using member_le_sum_list [of "av_free V" "map av_free (pmm_view s)"] that
      counters_sum(2) [OF assms(1)] by (simp add: free_memory_def)
  have "\<not> unat sz \<le> av_free (pmm_view s ! i)" if "i < length (pmm_view s)" for i
    using le [OF nth_mem [OF that]] assms(2) unfolding word_less_nat_alt by linarith
  then show ?thesis
    by (auto simp: pick_def find_None_iff)
qed

section \<open>The call\<close>

lemma alloc_aligned_loop:
  assumes "pm_pol s = FIRST_FIT" and "16 \<le> unat (m_free (pm_block_allocator s))"
    and "good_align al" and "pmm_inv buf s"
  shows "alloc_aligned sz0 al False s =
    (let sz = align_up sz0 PAGE_SIZE in
     case pick (unat sz) (pmm_view s) of
       None \<Rightarrow> Done (error_of PMM_OUT_OF_MEM, Some 0, s)
     | Some i \<Rightarrow> bind_outcome (carve_block i sz al (mr_free_blocks (pm_regions s ! i)) s)
         (\<lambda>r. Done (finish_alloc i sz r)))"
proof -
  have "\<not> m_free (pm_block_allocator s) < 16"
    using assms(2) by (simp add: word_less_nat_alt not_less)
  moreover have "\<not> (al < PAGE_SIZE \<or> al AND (al - 1) \<noteq> 0)"
    using assms(3) by (simp add: good_align_iff)
  ultimately show ?thesis
    using assms(1) pick_total [OF assms(4), of "align_up sz0 PAGE_SIZE"] pick_usable [OF assms(4)]
    by (auto simp: alloc_aligned_def Let_def slab_free_count_def alloc_loop_find
        split: option.splits)
qed

lemma align_up_page_dvd: "4096 dvd unat (align_up sz0 PAGE_SIZE)"
  unfolding PAGE_SIZE_eq align_up_eq_mask unat_and_not_mask by simp

lemma round_to_dvd: "d dvd p \<Longrightarrow> d dvd round_to n p"
  by (simp add: round_to_def)

lemma carved_area_ok:
  assumes "carved b l a n = Some (b', l')" and "area_ok b l" and "b \<le> a" and "a + n \<le> b + l"
    and "4096 dvd a" and "4096 dvd n"
  shows "area_ok b' l'"
  using assms by (auto simp: carved_def area_ok_def split: if_splits)

lemma region_block_ok:
  assumes "region_ok m R" and "region_block m R = Some (b, l)"
  shows "area_ok b l" "unat (mr_base R) \<le> b" "b + l \<le> unat (mr_base R) + unat (mr_length R)"
    "l \<le> unat (mr_free_bytes R)" "mb_next m (mr_free_blocks R) = 0" "mr_free_blocks R \<noteq> 0"
    "b = unat (mb_base m (mr_free_blocks R))" "l = unat (mb_length m (mr_free_blocks R))"
  using assms by (auto simp: region_ok_def region_block_def block_ok_def Let_def split: if_splits)

lemma region_okI:
  assumes "area_ok (unat (mr_base R)) (unat (mr_length R))" and "mr_free_bytes R \<le> mr_length R"
    and "4096 dvd unat (mr_free_bytes R)"
    and "\<And>b l. region_block m R = Some (b, l) \<Longrightarrow> area_ok b l \<and> unat (mr_base R) \<le> b \<and>
      b + l \<le> unat (mr_base R) + unat (mr_length R) \<and> l \<le> unat (mr_free_bytes R)"
    and "mr_free_blocks R \<noteq> 0 \<Longrightarrow> mb_next m (mr_free_blocks R) = 0"
  shows "region_ok m R"
  using assms by (auto simp: region_ok_def region_block_def block_ok_def Let_def)

text \<open>The effect of a successful call on everything but the table.\<close>

definition alloc_effect :: "u64 \<Rightarrow> nat \<Rightarrow> size_t \<Rightarrow> pmm \<Rightarrow> pmm \<Rightarrow> bool" where
  "alloc_effect buf a sz s s' \<longleftrightarrow>
     pm_pol s' = pm_pol s \<and> pm_region_count s' = pm_region_count s \<and>
     pm_console s' = pm_console s \<and> total_memory s' = total_memory s \<and>
     free_memory s' = free_memory s - sz \<and>
     (\<forall>x. a \<le> unat x \<and> unat x < a + unat sz \<longrightarrow> pm_mem s' x = 0) \<and>
     (\<forall>x. \<not> (a \<le> unat x \<and> unat x < a + unat sz) \<longrightarrow> \<not> in_range x (buf, 1576) \<longrightarrow>
       pm_mem s' x = pm_mem s x)"

lemma in_buf_phys: "buf_ok buf \<Longrightarrow> in_range x (buf, 1576) \<Longrightarrow> phys_limit \<le> unat x"
  by (auto simp: buf_ok_def in_range_nowrap)

lemma fill_buf:
  assumes "buf_ok buf" and "in_range x (buf, 1576)" and "unat w + unat sz \<le> phys_limit"
  shows "fill m w c sz x = m x"
  using in_buf_phys [OF assms(1,2)] assms(3)
  by (auto simp: fill_eq in_range_nowrap phys_limit_def)

lemma region_block_frame:
  assumes "\<And>x. mr_free_blocks R \<noteq> 0 \<Longrightarrow> in_range x (mr_free_blocks R, 24) \<Longrightarrow> m' x = m x"
  shows "region_block m' R = region_block m R"
  using mb_frame [OF assms] by (simp add: region_block_def)

lemma finish_carved:
  "i < length (pm_regions s) \<Longrightarrow>
    finish_alloc i sz (w, s\<lparr>pm_mem := m, pm_block_allocator := sa, pm_regions := (pm_regions s)[i := R]\<rparr>) =
    (error_of SUCCESS, Some w, s\<lparr>
      pm_regions := (pm_regions s)[i := R\<lparr>mr_free_bytes := mr_free_bytes R - sz\<rparr>],
      pm_mem := fill m w 0 sz, pm_block_allocator := sa, pm_free_bytes := pm_free_bytes s - sz\<rparr>)"
  by (simp add: finish_alloc_def region_update_def Let_def)

text \<open>The parts of the invariant and of the abstract state that a carve of one region touches.\<close>

lemma region_ok_carved:
  assumes ok: "region_ok m R" and block: "region_block m R = Some (b, l)"
    and sz: "4096 dvd unat sz" "unat sz \<le> unat (mr_free_bytes R)"
    and a: "b \<le> a" "4096 dvd a" "a + unat sz \<le> b + l"
    and R': "mr_base R' = mr_base R" "mr_length R' = mr_length R" "mr_free_bytes R' = mr_free_bytes R - sz"
    and block': "region_block m' R' = carved b l a (unat sz)"
    and last: "mr_free_blocks R' \<noteq> 0 \<Longrightarrow> mb_next m' (mr_free_blocks R') = 0"
  shows "region_ok m' R'"
proof (rule region_okI)
  have free: "unat (mr_free_bytes R') = unat (mr_free_bytes R) - unat sz"
    using sz(2) R'(3) by (simp add: unat_sub_nowrap word_le_nat_alt)
  then show "area_ok (unat (mr_base R')) (unat (mr_length R'))" "mr_free_bytes R' \<le> mr_length R'"
    "4096 dvd unat (mr_free_bytes R')"
    using ok R'(1,2) sz(1) by (auto simp: region_ok_def word_le_nat_alt)
  note B = region_block_ok [OF ok block]
  show "area_ok b' l' \<and> unat (mr_base R') \<le> b' \<and>
      b' + l' \<le> unat (mr_base R') + unat (mr_length R') \<and> l' \<le> unat (mr_free_bytes R')"
    if "region_block m' R' = Some (b', l')" for b' l'
    using carved_inside [OF that [unfolded block'] a(1,3)] B
      carved_area_ok [OF that [unfolded block'] B(1) a(1,3,2) sz(1)] R'(1,2) free by simp
qed (rule last)

lemma regions_ok_update:
  assumes "\<And>R. R \<in> set Rs \<Longrightarrow> region_ok m R" and "region_ok m' R'"
    and "\<And>n x. n < length Rs \<Longrightarrow> n \<noteq> i \<Longrightarrow> mr_free_blocks (Rs ! n) \<noteq> 0 \<Longrightarrow>
      in_range x (mr_free_blocks (Rs ! n), 24) \<Longrightarrow> m' x = m x"
  shows "list_all (region_ok m') (Rs[i := R'])"
  unfolding list_all_length
proof (intro allI impI)
  fix n assume "n < length (Rs[i := R'])"
  then show "region_ok m' (Rs[i := R'] ! n)"
    using assms by (cases "n = i") (auto intro!: region_ok_frame [OF assms(1) [OF nth_mem]])
qed

lemma view_carved:
  assumes i: "i < length (active_regions s)"
    and block: "region_block (pm_mem s) (active_regions s ! i) = Some (b, l)"
    and act: "active_regions s' = (active_regions s)[i := R']"
    and block': "region_block (pm_mem s') R' = carved b l a n"
    and R': "mr_base R' = mr_base (active_regions s ! i)" "mr_length R' = mr_length (active_regions s ! i)"
      "unat (mr_free_bytes R') = unat (mr_free_bytes (active_regions s ! i)) - n"
    and frame: "\<And>k x. k < length (active_regions s) \<Longrightarrow> k \<noteq> i \<Longrightarrow>
      mr_free_blocks (active_regions s ! k) \<noteq> 0 \<Longrightarrow>
      in_range x (mr_free_blocks (active_regions s ! k), 24) \<Longrightarrow> pm_mem s' x = pm_mem s x"
  shows "pmm_view s' = spec_update n i a (pmm_view s)"
proof -
  have "view_region (pm_mem s') (active_regions s ! k) = view_region (pm_mem s) (active_regions s ! k)"
    if "k < length (active_regions s)" "k \<noteq> i" for k
    using region_block_frame [OF frame [OF that]] by (simp add: view_region_def)
  then show ?thesis
    unfolding pmm_view_def act
    using i block block' R' by (intro nth_equalityI) (auto simp: spec_update_def view_region_def nth_list_update)
qed

lemma alloc_effect_fill:
  assumes "unat w + unat sz \<le> phys_limit"
    and "\<And>x. \<not> in_range x (buf, 1576) \<Longrightarrow> m x = pm_mem s x"
  shows "alloc_effect buf (unat w) sz s (s\<lparr>pm_regions := Rs, pm_mem := fill m w 0 sz,
    pm_block_allocator := sa, pm_free_bytes := pm_free_bytes s - sz\<rparr>)"
proof -
  have "in_range x (w, unat sz) \<longleftrightarrow> unat w \<le> unat x \<and> unat x < unat w + unat sz" for x
    using assms(1) by (simp add: in_range_nowrap phys_limit_def)
  then show ?thesis
    using assms(2) by (auto simp: alloc_effect_def fill_eq total_memory_def free_memory_def)
qed

text \<open>Everything the invariant says survives a carve of the block of region \<open>i\<close>.\<close>

lemma carve_inv:
  fixes w sz al :: u64 and s i m sa R and b l :: nat
  defines "p \<equiv> mr_free_blocks (active_regions s ! i)"
  defines "R' \<equiv> R\<lparr>mr_free_bytes := mr_free_bytes R - sz\<rparr>"
  defines "s' \<equiv> s\<lparr>pm_regions := (pm_regions s)[i := R'], pm_mem := fill m w 0 sz,
    pm_block_allocator := sa, pm_free_bytes := pm_free_bytes s - sz\<rparr>"
  assumes inv: "pmm_inv buf s" and buf: "buf_ok buf" and i: "i < length (active_regions s)"
    and block: "region_block (pm_mem s) (active_regions s ! i) = Some (b, l)"
    and sz: "4096 dvd unat sz" "unat sz \<le> unat (mr_free_bytes (active_regions s ! i))"
    and w: "b \<le> unat w" "4096 dvd unat w" "unat w + unat sz \<le> b + l"
    and nodes: "16 \<le> unat (m_free (pm_block_allocator s))"
    and res: "carve_result buf (used_nodes s) i p s b l (unat w) (unat sz) m sa R"
  shows "pmm_inv buf s'"
    and "pmm_view s' = spec_update (unat sz) i (unat w) (pmm_view s)"
    and "alloc_effect buf (unat w) sz s s'"
proof -
  let ?Rs = "active_regions s" let ?R = "active_regions s ! i"
  note D = pmm_invD [OF inv]
  have Ri: "?R \<in> set ?Rs" using i by simp
  have reg: "pm_regions s ! i = ?R"
    using active_regions_nth [OF D(1)] i length_active_regions [OF inv] by simp
  note B = region_block_ok [OF D(5) [OF Ri] block]
  obtain j where j: "j < used_nodes s" "p = node_addr buf j"
    using D(8) [OF Ri] B(6) by (auto simp: p_def)
  have k: "used_nodes s < 64" "j < 64" using nodes D(3) j by (auto simp: used_nodes_def)
  note r = res [unfolded carve_result_def reg]
  have lim: "unat w + unat sz \<le> phys_limit" using w(3) B(1) by (simp add: area_ok_def)
  have node: "fill m w 0 sz x = m x" if "n < 64" "in_range x (node_addr buf n, 24)" for n x
    using fill_buf [OF buf node_in_buf [OF buf that] lim] .
  have other: "fill m w 0 sz x = pm_mem s x"
    if "n < used_nodes s" "n \<noteq> j" "in_range x (node_addr buf n, 24)" for n x
    using node [of n x] in_node_not_in [OF buf _ that(3)] that k r j by simp
  have act: "active_regions s' = ?Rs[i := R']"
    unfolding s'_def by (rule active_regions_update)
  have R': "mr_base R' = mr_base ?R" "mr_length R' = mr_length ?R"
      "mr_free_bytes R' = mr_free_bytes ?R - sz" "mr_free_blocks R' = 0 \<or> mr_free_blocks R' = p"
    using r by (auto simp: R'_def)
  have free: "unat (mr_free_bytes R') = unat (mr_free_bytes ?R) - unat sz"
    using sz(2) R'(3) by (simp add: unat_sub_nowrap word_le_nat_alt)
  have block': "region_block (fill m w 0 sz) R' = carved b l (unat w) (unat sz)"
  proof -
    have "fill m w 0 sz x = m x" if "mr_free_blocks R' \<noteq> 0" "in_range x (mr_free_blocks R', 24)" for x
      using that R'(4) j k node [of j x] by auto
    then have "region_block (fill m w 0 sz) R' = region_block m R'"
      by (rule region_block_frame)
    also have "\<dots> = region_block m R"
      by (simp add: R'_def region_block_def)
    finally show ?thesis using r by simp
  qed
  have new: "region_ok (fill m w 0 sz) R'"
    using mb_frame(3) [OF node [OF k(2)]] R'(4) j(2) r
    by (intro region_ok_carved [OF D(5) [OF Ri] block sz w R'(1-3) block']) (auto simp: R'_def)
  have frame: "fill m w 0 sz x = pm_mem s x"
    if h: "n < length ?Rs" "n \<noteq> i" "mr_free_blocks (?Rs ! n) \<noteq> 0"
      "in_range x (mr_free_blocks (?Rs ! n), 24)" for n x
  proof -
    obtain j' where j': "j' < used_nodes s" "mr_free_blocks (?Rs ! n) = node_addr buf j'"
      using D(8) [OF nth_mem [OF h(1)] h(3)] by auto
    moreover have "mr_free_blocks (?Rs ! n) \<noteq> p"
      using D(7) h i unfolding distinct_live_nodes_nth p_def by metis
    ultimately show ?thesis using other [of j' x] h(4) j(2) by metis
  qed
  have regs: "list_all (region_ok (fill m w 0 sz)) (?Rs[i := R'])"
    by (rule regions_ok_update [OF D(5) new frame])
  have used: "used_nodes s' = 64 - unat (m_free sa)" "used_nodes s \<le> used_nodes s'"
    using r by (simp_all add: used_nodes_def s'_def)
  have rep: "slab_rep 24 (fill m w 0 sz, sa) [(buf, free_nodes buf (used_nodes s'))]"
  proof (rule slab_rep_frame)
    show "slab_rep 24 (m, sa) [(buf, free_nodes buf (used_nodes s'))]"
      unfolding used(1) using r by blast
    fix t x assume "t \<in> set (slab_ranges 24 [(buf, free_nodes buf (used_nodes s'))])" "in_range x t"
    then show "fill m w 0 sz x = m x"
      using slab_ranges_buf [OF buf] header_in_buf node fill_buf [OF buf _ lim] by blast
  qed
  note live = live_nodes_update [OF D(7) i, of R'] R'(4)
  have sum: "sum_list (map mr_free_bytes (?Rs[i := R'])) = sum_list (map mr_free_bytes ?Rs) - sz"
    "sum_list (map mr_length (?Rs[i := R'])) = sum_list (map mr_length ?Rs) - 0"
    by (rule sum_list_map_update [OF i]; simp add: R')+
  show "pmm_inv buf s'"
    unfolding pmm_inv_def act
  proof (intro conjI)
    show "slab_rep 24 (pm_mem s', pm_block_allocator s') [(buf, free_nodes buf (used_nodes s'))]"
      using rep by (simp add: s'_def)
    show "list_all (region_ok (pm_mem s')) (?Rs[i := R'])" using regs by (simp add: s'_def)
    show "all_apart (?Rs[i := R'])"
      by (rule all_apart_update [OF D(6) i R'(1,2)])
    show "distinct (live_nodes (?Rs[i := R']))"
      using live(1) R'(4) by (simp add: p_def)
    show "set (live_nodes (?Rs[i := R'])) \<subseteq> node_addr buf ` {..<used_nodes s'}"
      using live(2) R'(4) used(2) inv by (fastforce simp: pmm_inv_def p_def)
    show "unat (m_free (pm_block_allocator s')) \<le> 64" using r D(3) by (simp add: s'_def)
  qed (use D sum in \<open>simp_all add: s'_def\<close>)
  show "pmm_view s' = spec_update (unat sz) i (unat w) (pmm_view s)"
    using frame by (intro view_carved [OF i block act _ R'(1,2) free]) (simp_all add: s'_def block')
  have "m x = pm_mem s x" if "\<not> in_range x (buf, 1576)" for x
    using r j(2) that node_in_buf [OF buf k(1)] node_in_buf [OF buf k(2)] header_in_buf by blast
  then show "alloc_effect buf (unat w) sz s s'"
    using alloc_effect_fill [OF lim] by (simp add: s'_def)
qed

text \<open>The three cases of a call.\<close>

lemma spec_alloc_pick:
  assumes "pmm_inv buf s" and "pick n (pmm_view s) = Some i"
  obtains b l where "i < length (active_regions s)"
    and "region_block (pm_mem s) (active_regions s ! i) = Some (b, l)"
    and "n \<le> unat (mr_free_bytes (active_regions s ! i))"
    and "pm_regions s ! i = active_regions s ! i" and "i < length (pm_regions s)"
    and "spec_alloc n al (pmm_view s) =
      (if b + l < round_to b al + n then Misfit else Carved i (round_to b al))"
proof -
  note P = pick_SomeD [OF assms(2)]
  have i: "i < length (active_regions s)" using P(1) by (simp add: pmm_view_def)
  then have "av_block (pmm_view s ! i) = region_block (pm_mem s) (active_regions s ! i)"
    "av_free (pmm_view s ! i) = unat (mr_free_bytes (active_regions s ! i))"
    by (simp_all add: pmm_view_def view_region_def)
  with P obtain b l where "region_block (pm_mem s) (active_regions s ! i) = Some (b, l)"
    "n \<le> unat (mr_free_bytes (active_regions s ! i))" "av_block (pmm_view s ! i) = Some (b, l)"
    by auto
  note bl = this
  have "spec_alloc n al (pmm_view s) =
      (if b + l < round_to b al + n then Misfit else Carved i (round_to b al))"
    by (simp add: spec_alloc_def assms(2) bl(3))
  moreover have "pm_regions s ! i = active_regions s ! i" "i < length (pm_regions s)"
    using i active_regions_nth [OF pmm_invD(1) [OF assms(1)], of i] pmm_invD(1,2) [OF assms(1)]
      length_active_regions [OF assms(1)] by simp_all
  ultimately show ?thesis
    using that [OF i bl(1,2)] by blast
qed

definition alloc_ready :: "u64 \<Rightarrow> pmm \<Rightarrow> bool" where
  "alloc_ready buf s \<longleftrightarrow> buf_ok buf \<and> pmm_inv buf s \<and> pm_pol s = FIRST_FIT \<and>
     16 \<le> unat (m_free (pm_block_allocator s))"

lemma alloc_no_room:
  assumes "alloc_ready buf s" and "good_align al"
    and "spec_alloc (unat (align_up sz0 PAGE_SIZE)) (unat al) (pmm_view s) = No_room"
  shows "alloc_aligned sz0 al False s = Done (error_of PMM_OUT_OF_MEM, Some 0, s)"
proof -
  have "pick (unat (align_up sz0 PAGE_SIZE)) (pmm_view s) = None"
    using assms(3) by (auto simp: spec_alloc_def Let_def split: option.splits prod.splits if_splits)
  then show ?thesis
    using assms(1,2) by (subst alloc_aligned_loop) (auto simp: alloc_ready_def)
qed

lemma spec_alloc_picked:
  "spec_alloc n al Vs \<noteq> No_room \<Longrightarrow> \<exists>i. pick n Vs = Some i"
  by (auto simp: spec_alloc_def split: option.splits)

lemma alloc_misfit:
  assumes "alloc_ready buf s" and "good_align al"
    and "spec_alloc (unat (align_up sz0 PAGE_SIZE)) (unat al) (pmm_view s) = Misfit"
  shows "alloc_aligned sz0 al False s = Halt Null_deref"
proof -
  let ?n = "unat (align_up sz0 PAGE_SIZE)"
  have r: "buf_ok buf" "pmm_inv buf s" "pm_pol s = FIRST_FIT"
    "16 \<le> unat (m_free (pm_block_allocator s))"
    using assms(1) by (auto simp: alloc_ready_def)
  obtain i where i: "pick ?n (pmm_view s) = Some i"
    using spec_alloc_picked [of ?n "unat al" "pmm_view s"] assms(3) by auto
  obtain b l where R: "i < length (active_regions s)"
    "region_block (pm_mem s) (active_regions s ! i) = Some (b, l)"
    "?n \<le> unat (mr_free_bytes (active_regions s ! i))"
    "pm_regions s ! i = active_regions s ! i" "i < length (pm_regions s)"
    "spec_alloc ?n (unat al) (pmm_view s) =
      (if b + l < round_to b (unat al) + ?n then Misfit else Carved i (round_to b (unat al)))"
    by (rule spec_alloc_pick [OF r(2) i])
  note B = region_block_ok [OF pmm_invD(5) [OF r(2) nth_mem [OF R(1)]] R(2)]
  have "carve_block i (align_up sz0 PAGE_SIZE) al (mr_free_blocks (active_regions s ! i)) s =
      Halt Null_deref"
    using usable_bounds [OF r(2) nth_mem [OF R(1)]] R(3,6) B assms(2,3)
    by (intro carve_misfit) (auto split: if_splits)
  then show ?thesis
    using alloc_aligned_loop [OF r(3,4) assms(2) r(2)] i R(4) by simp
qed

lemma alloc_carved:
  assumes "alloc_ready buf s" and "good_align al"
    and "spec_alloc (unat (align_up sz0 PAGE_SIZE)) (unat al) (pmm_view s) = Carved i a"
  obtains w s' where "alloc_aligned sz0 al False s = Done (error_of SUCCESS, Some w, s')"
    and "unat w = a" and "pmm_inv buf s'"
    and "pmm_view s' = spec_update (unat (align_up sz0 PAGE_SIZE)) i a (pmm_view s)"
    and "alloc_effect buf a (align_up sz0 PAGE_SIZE) s s'"
    and "\<forall>b l. av_block (pmm_view s ! i) = Some (b, l) \<longrightarrow>
      unat (m_free (pm_block_allocator s')) = unat (m_free (pm_block_allocator s)) -
        of_bool (splits b l a (unat (align_up sz0 PAGE_SIZE)))"
proof -
  let ?sz = "align_up sz0 PAGE_SIZE" let ?n = "unat ?sz"
  have r: "buf_ok buf" "pmm_inv buf s" "pm_pol s = FIRST_FIT"
    "16 \<le> unat (m_free (pm_block_allocator s))"
    using assms(1) by (auto simp: alloc_ready_def)
  obtain i' where i': "pick ?n (pmm_view s) = Some i'"
    using spec_alloc_picked [of ?n "unat al" "pmm_view s"] assms(3) by auto
  obtain b l where R: "i' < length (active_regions s)"
    "region_block (pm_mem s) (active_regions s ! i') = Some (b, l)"
    "?n \<le> unat (mr_free_bytes (active_regions s ! i'))"
    "pm_regions s ! i' = active_regions s ! i'" "i' < length (pm_regions s)"
    "spec_alloc ?n (unat al) (pmm_view s) =
      (if b + l < round_to b (unat al) + ?n then Misfit else Carved i' (round_to b (unat al)))"
    by (rule spec_alloc_pick [OF r(2) i'])
  have i: "i' = i" and a: "a = round_to b (unat al)" and fit: "a + ?n \<le> b + l"
    using R(6) assms(3) by (auto split: if_splits)
  note R = R [unfolded i]
  note B = region_block_ok [OF pmm_invD(5) [OF r(2) nth_mem [OF R(1)]] R(2)]
  let ?p = "mr_free_blocks (active_regions s ! i)"
  obtain j where j: "?p = node_addr buf j" "j < used_nodes s"
    using pmm_invD(8) [OF r(2) nth_mem [OF R(1)] B(6)] by auto
  obtain w m sa R' where step: "carve_block i ?sz al ?p s = Done (w,
      s\<lparr>pm_mem := m, pm_block_allocator := sa, pm_regions := (pm_regions s)[i := R']\<rparr>)"
    and w: "unat w = a" and res: "carve_result buf (used_nodes s) i ?p s b l a ?n m sa R'"
    using carve_fit [OF r(1,2) j B(5) R(5) _ r(4) B(1)[unfolded B(7,8)] assms(2), of ?sz]
      fit R(4) unfolding a B(7,8) [symmetric] by metis
  have "b \<le> a" "4096 dvd a"
    using round_to_bounds(1) [OF good_align_bounds(1)] good_align_dvd assms(2)
    by (auto simp: a round_to_dvd)
  note C = carve_inv [OF r(2,1) R(1,2) align_up_page_dvd R(3) this [folded w]
      fit [folded w] r(4) res [folded w]]
  show ?thesis
  proof (rule that [OF _ w C(1) _ C(3) [unfolded w]])
    show "alloc_aligned sz0 al False s = Done (error_of SUCCESS, Some w, s\<lparr>
      pm_regions := (pm_regions s)[i := R'\<lparr>mr_free_bytes := mr_free_bytes R' - ?sz\<rparr>],
      pm_mem := fill m w 0 ?sz, pm_block_allocator := sa, pm_free_bytes := pm_free_bytes s - ?sz\<rparr>)"
      using alloc_aligned_loop [OF r(3,4) assms(2) r(2), of sz0] i' R(4) step
        finish_carved [OF R(5)] by (simp add: i Let_def)
    have "av_block (pmm_view s ! i) = Some (b, l)"
      using R(1,2) by (simp add: pmm_view_def view_region_def)
    then show "\<forall>b' l'. av_block (pmm_view s ! i) = Some (b', l') \<longrightarrow>
      unat (m_free (pm_block_allocator (s\<lparr>
        pm_regions := (pm_regions s)[i := R'\<lparr>mr_free_bytes := mr_free_bytes R' - ?sz\<rparr>],
        pm_mem := fill m w 0 ?sz, pm_block_allocator := sa,
        pm_free_bytes := pm_free_bytes s - ?sz\<rparr>))) =
      unat (m_free (pm_block_allocator s)) - of_bool (splits b' l' a ?n)"
      using res w by (simp add: carve_result_def)
  qed (use C(2) w in simp_all)
qed

end
