(* ===== verification/Pmm_Source.thy ===== *)
theory Pmm_Source
  imports Pmm_Alloc Area_Source
begin

text \<open>
  The physical memory manager as a provider of memory: allocations hand out areas,
  \<open>add_region\<close> donates them, and everything else a kernel does (freeing, which is a
  stub, and writing to memory outside the manager's own buffer) donates nothing.
\<close>

section \<open>Offering a region\<close>

text \<open>
  The boot loader's promise about a region of its memory map: it lies below the limit of
  physical memory, its first page boundary is not beyond its end, and its pages belong
  to no region already in the table.
\<close>

definition region_offer :: "pmm \<Rightarrow> paddr_t \<Rightarrow> size_t \<Rightarrow> bool" where
  "region_offer s base len \<longleftrightarrow>
     unat base + unat len \<le> phys_limit \<and> usable_base (unat base) \<le> unat base + unat len \<and>
     list_all (\<lambda>R. usable_base (unat base) + usable_length (unat base) (unat len) \<le> unat (mr_base R) \<or>
       unat (mr_base R) + unat (mr_length R) \<le> usable_base (unat base)) (active_regions s)"

lemma add_region_no_nodes:
  assumes inv: "pmm_inv buf s" and buf: "buf_ok buf"
    and nodes: "unat (m_free (pm_block_allocator s)) < 2"
    and range: "unat base + unat len \<le> phys_limit" "usable_base (unat base) \<le> unat base + unat len"
    and verdict: "add_region_verdict s (unat base) (unat len) = SUCCESS"
  shows "\<exists>h. add_region base len s = Halt h"
proof -
  let ?sa = "pm_block_allocator s" let ?k = "used_nodes s"
  note D = pmm_invD [OF inv]
  have v: "unat base \<noteq> 0" "\<not> 16 \<le> unat (pm_region_count s)"
    "\<not> unat base + unat len < usable_base (unat base) + 4096"
    "\<not> list_ex (\<lambda>R. covers R (usable_base (unat base))) (active_regions s)"
    using verdict by (auto simp: add_region_verdict_def split: if_splits)
  have none: "slab_alloc_block True 24 (m, sa) = Done (0, m, sa)"
    if "slab_rep 24 (m, sa) [(buf, free_nodes buf 64)]" for m sa
    by (rule slab_alloc_None [OF that]) (simp add: free_nodes_def)
  show ?thesis
  proof (cases "unat (m_free ?sa) = 0")
    case True
    with D(4) have "slab_alloc_block True 24 (pm_mem s, ?sa) = Done (0, pm_mem s, ?sa)"
      by (intro none) (simp add: used_nodes_def)
    with v show ?thesis
      unfolding add_region_def Let_def add_region_guards [OF inv range] by simp
  next
    case False
    with nodes have one: "unat (m_free ?sa) = 1" by simp
    then have pos: "0 < unat (m_free ?sa)" "?k = 64 - unat (m_free ?sa)" "?k = 63"
      by (simp_all add: used_nodes_def)
    obtain m1 sa1 where a1: "slab_alloc_block True 24 (pm_mem s, ?sa) = Done (node_addr buf ?k, m1, sa1)"
      and rep1: "slab_rep 24 (m1, sa1) [(buf, free_nodes buf (Suc ?k))]"
      by (rule alloc_node [OF buf pos(1) D(3) pos(2) D(4)]) blast
    have "slab_alloc_block True 24 (m1, sa1) = Done (0, m1, sa1)"
      using rep1 by (intro none) (simp add: pos(3))
    with v a1 node_addr_nonzero [OF buf, of ?k] pos(3) show ?thesis
      unfolding add_region_def Let_def add_region_guards [OF inv range] by simp
  qed
qed

text \<open>Everything a call of \<open>add_region\<close> can do with such an offer.\<close>

lemma add_region_cases:
  assumes "pmm_inv buf s" and "buf_ok buf" and "region_offer s base len"
    and "add_region base len s = Done (e, s')"
  obtains (rejected) "e = error_of (add_region_verdict s (unat base) (unat len))"
      "add_region_verdict s (unat base) (unat len) \<noteq> SUCCESS" "s' = s"
  | (accepted) R where "e = error_of SUCCESS" "active_regions s' = active_regions s @ [R]"
      "unat (mr_base R) = usable_base (unat base)"
      "unat (mr_length R) = usable_length (unat base) (unat len)"
      "mr_free_bytes R = mr_length R" "mr_free_blocks R \<noteq> 0"
      "mb_base (pm_mem s') (mr_free_blocks R) = mr_base R"
      "mb_length (pm_mem s') (mr_free_blocks R) = mr_length R"
      "pmm_inv buf s'" "pm_pol s' = pm_pol s"
      "\<And>x. \<not> in_range x (buf, 1576) \<Longrightarrow> pm_mem s' x = pm_mem s x"
      "\<And>j x. j < used_nodes s \<Longrightarrow> in_range x (node_addr buf j, 24) \<Longrightarrow> pm_mem s' x = pm_mem s x"
proof (cases "add_region_verdict s (unat base) (unat len) = SUCCESS")
  case False
  then show ?thesis
    using rejected add_region_rejects [OF assms(1), of base len] assms(3,4)
    by (simp add: region_offer_def)
next
  case True
  have range: "unat base + unat len \<le> phys_limit" "usable_base (unat base) \<le> unat base + unat len"
    using assms(3) by (simp_all add: region_offer_def)
  have nodes: "2 \<le> unat (m_free (pm_block_allocator s))"
    using add_region_no_nodes [OF assms(1,2) _ range True] assms(4) by force
  have apart: "usable_base (unat base) + usable_length (unat base) (unat len) \<le> unat (mr_base R) \<or>
      unat (mr_base R) + unat (mr_length R) \<le> usable_base (unat base)"
    if "R \<in> set (active_regions s)" for R
    using assms(3) that by (auto simp: region_offer_def list_all_iff)
  show ?thesis
    by (rule add_region_success [OF assms(1,2) nodes range True apart])
      (use assms(4) accepted in auto)
qed

section \<open>The provider\<close>

definition view_bytes :: "area_view \<Rightarrow> u64 set" where
  "view_bytes V = {x. \<exists>b l. av_block V = Some (b, l) \<and> b \<le> unat x \<and> unat x < b + l}"

definition pmm_owned :: "pmm \<Rightarrow> u64 set" where
  "pmm_owned s = (\<Union>V \<in> set (pmm_view s). view_bytes V)"

definition pmm_sound :: "u64 \<Rightarrow> pmm \<Rightarrow> bool" where
  "pmm_sound buf s \<longleftrightarrow> buf_ok buf \<and> pmm_inv buf s"

definition pmm_acquire :: "pmm \<Rightarrow> area \<Rightarrow> pmm \<Rightarrow> bool" where
  "pmm_acquire s a s' \<longleftrightarrow>
     (\<exists>sz0 alignment. alloc_aligned sz0 alignment False s = Done (error_of SUCCESS, Some (fst a), s') \<and>
       snd a = unat (align_up sz0 PAGE_SIZE))"

inductive pmm_donate :: "u64 \<Rightarrow> pmm \<Rightarrow> u64 set \<Rightarrow> pmm \<Rightarrow> bool" for buf where
  donate_region: "region_offer s base len \<Longrightarrow> add_region base len s = Done (e, s') \<Longrightarrow>
    F = {x. is_ok e \<and> usable_base (unat base) \<le> unat x \<and>
      unat x < usable_base (unat base) + usable_length (unat base) (unat len)} \<Longrightarrow>
    pmm_donate buf s F s'"
| donate_free: "pmm_free pa s = (e, s') \<Longrightarrow> pmm_donate buf s {} s'"
| donate_remove: "remove_region base len s = (e, s') \<Longrightarrow> pmm_donate buf s {} s'"
| donate_write: "(\<And>x. in_range x (buf, 1576) \<Longrightarrow> m x = pm_mem s x) \<Longrightarrow>
    pmm_donate buf s {} (s\<lparr>pm_mem := m\<rparr>)"

inductive_cases pmm_donateE: "pmm_donate buf s F s'"

text \<open>A successful call tells that its preconditions held.\<close>

lemma alloc_success_ready:
  assumes "buf_ok buf" and "pmm_inv buf s"
    and "alloc_aligned sz0 al False s = Done (error_of SUCCESS, r, s')"
  shows "alloc_ready buf s" "good_align al"
  using assms
  by (auto simp: alloc_ready_def alloc_aligned_def Let_def good_align_iff slab_free_count_def
      word_less_nat_alt not_less error_of_inject split: if_splits)

lemma view_nth:
  "n < length (pmm_view s) \<Longrightarrow> n < length (active_regions s)"
  "n < length (pmm_view s) \<Longrightarrow> pmm_view s ! n = view_region (pm_mem s) (active_regions s ! n)"
  by (simp_all add: pmm_view_def)

text \<open>The free block of a region lies inside it, and regions do not overlap.\<close>

lemma view_block:
  assumes "pmm_inv buf s" and "n < length (pmm_view s)" and "av_block (pmm_view s ! n) = Some (b, l)"
  shows "unat (mr_base (active_regions s ! n)) \<le> b"
    and "b + l \<le> unat (mr_base (active_regions s ! n)) + unat (mr_length (active_regions s ! n))"
    and "area_ok b l" and "l \<le> av_free (pmm_view s ! n)"
  using region_block_ok [OF pmm_invD(5) [OF assms(1) nth_mem [OF view_nth(1) [OF assms(2)]]], of b l]
    assms(3) by (auto simp: view_nth(2) [OF assms(2)] view_region_def)

lemma view_bytes_disjoint:
  assumes "pmm_inv buf s" and "i < length (pmm_view s)" and "n < length (pmm_view s)" and "n \<noteq> i"
  shows "view_bytes (pmm_view s ! n) \<inter> view_bytes (pmm_view s ! i) = {}"
proof -
  have "apart (active_regions s ! i) (active_regions s ! n) \<or>
      apart (active_regions s ! n) (active_regions s ! i)"
    using pmm_invD(6) [OF assms(1)] view_nth(1) assms(2-4)
    unfolding all_apart_nth by (metis linorder_neqE_nat)
  then have "b + l \<le> b' \<or> b' + l' \<le> b"
    if "av_block (pmm_view s ! n) = Some (b, l)" "av_block (pmm_view s ! i) = Some (b', l')"
    for b l b' l'
    using view_block [OF assms(1,3) that(1)] view_block [OF assms(1,2) that(2)]
    unfolding apart_def by linarith
  then show ?thesis
    by (fastforce simp: view_bytes_def)
qed

lemma view_bytes_carved:
  assumes "av_block V = Some (b, l)" and "b \<le> a" and "a + n \<le> b + l"
  shows "view_bytes (V\<lparr>av_free := f, av_block := carved b l a n\<rparr>) \<subseteq>
    view_bytes V - {x. a \<le> unat x \<and> unat x < a + n}"
proof -
  have "view_bytes (V\<lparr>av_free := f, av_block := carved b l a n\<rparr>) \<subseteq>
      {x. b \<le> unat x \<and> unat x < b + l \<and> \<not> (a \<le> unat x \<and> unat x < a + n)}"
    using carved_inside [OF _ assms(2,3)] by (fastforce simp: view_bytes_def)
  then show ?thesis
    using assms(1) by (auto simp: view_bytes_def)
qed

lemma alloc_success:
  assumes "pmm_sound buf s" and "alloc_aligned sz0 al False s = Done (error_of SUCCESS, r, s')"
  obtains w i b l where "r = Some w" and "alloc_ready buf s" and "good_align al"
    and "i < length (pmm_view s)" and "av_block (pmm_view s ! i) = Some (b, l)" and "area_ok b l"
    and "unat w = round_to b (unat al)" and "b \<le> unat w"
    and "unat w + unat (align_up sz0 PAGE_SIZE) \<le> b + l"
    and "pmm_inv buf s'" and "alloc_effect buf (unat w) (align_up sz0 PAGE_SIZE) s s'"
    and "pmm_view s' = spec_update (unat (align_up sz0 PAGE_SIZE)) i (unat w) (pmm_view s)"
    and "unat (m_free (pm_block_allocator s')) = unat (m_free (pm_block_allocator s)) -
      of_bool (splits b l (unat w) (unat (align_up sz0 PAGE_SIZE)))"
proof -
  let ?n = "unat (align_up sz0 PAGE_SIZE)"
  have ok: "buf_ok buf" "pmm_inv buf s" using assms(1) by (auto simp: pmm_sound_def)
  note ready = alloc_success_ready [OF ok assms(2)]
  obtain i p where spec: "spec_alloc ?n (unat al) (pmm_view s) = Carved i p"
    using alloc_no_room [OF ready] alloc_misfit [OF ready] assms(2)
    by (cases "spec_alloc ?n (unat al) (pmm_view s)") auto
  obtain w s2 where eff: "alloc_aligned sz0 al False s = Done (error_of SUCCESS, Some w, s2)"
    "unat w = p" "pmm_inv buf s2" "pmm_view s2 = spec_update ?n i p (pmm_view s)"
    "alloc_effect buf p (align_up sz0 PAGE_SIZE) s s2"
    "\<forall>b l. av_block (pmm_view s ! i) = Some (b, l) \<longrightarrow>
      unat (m_free (pm_block_allocator s2)) = unat (m_free (pm_block_allocator s)) -
        of_bool (splits b l p ?n)"
    by (rule alloc_carved [OF ready spec])
  then have s': "s' = s2" "r = Some w" using assms(2) by auto
  have pk: "pick ?n (pmm_view s) = Some i"
    using spec by (auto simp: spec_alloc_def Let_def split: option.splits prod.splits if_splits)
  obtain b l where bl: "av_block (pmm_view s ! i) = Some (b, l)"
    using pick_SomeD(3) [OF pk] by auto
  then have p: "p = round_to b (unat al)" "p + ?n \<le> b + l" "b \<le> p"
    using spec pk round_to_bounds(1) [OF good_align_bounds(1) [OF ready(2)], of b]
    by (auto simp: spec_alloc_def Let_def split: if_splits)
  show ?thesis
    using that [OF s'(2) ready pick_SomeD(1) [OF pk] bl
        view_block(3) [OF ok(2) pick_SomeD(1) [OF pk] bl]] p eff(2-6) s'(1) bl by simp
qed

lemma pmm_acquire_laws:
  assumes "pmm_sound buf s" and "pmm_acquire s a s'"
  shows "pmm_sound buf s'" "area_bytes a \<subseteq> pmm_owned s"
    "pmm_owned s' \<subseteq> pmm_owned s - area_bytes a"
proof -
  have ok: "buf_ok buf" "pmm_inv buf s" using assms(1) by (auto simp: pmm_sound_def)
  obtain sz0 al where call: "alloc_aligned sz0 al False s = Done (error_of SUCCESS, Some (fst a), s')"
    and len: "snd a = unat (align_up sz0 PAGE_SIZE)"
    using assms(2) by (auto simp: pmm_acquire_def)
  let ?n = "unat (align_up sz0 PAGE_SIZE)" and ?p = "unat (fst a)"
  obtain i b l where i: "i < length (pmm_view s)"
    and bl: "av_block (pmm_view s ! i) = Some (b, l)" "area_ok b l"
    and p: "b \<le> ?p" "?p + ?n \<le> b + l"
    and eff: "pmm_inv buf s'" "pmm_view s' = spec_update ?n i ?p (pmm_view s)"
    by (rule alloc_success [OF assms(1) call]) auto
  show "pmm_sound buf s'" using ok eff by (simp add: pmm_sound_def)
  have bytes: "area_bytes a = {x. ?p \<le> unat x \<and> unat x < ?p + ?n}"
    using p bl(2) len
    by (cases a) (auto simp: area_bytes_def in_range_nowrap area_ok_def phys_limit_def)
  have sub: "area_bytes a \<subseteq> view_bytes (pmm_view s ! i)"
    using p bl by (auto simp: bytes view_bytes_def)
  then show "area_bytes a \<subseteq> pmm_owned s"
    using nth_mem [OF i] unfolding pmm_owned_def by blast
  have new: "view_bytes (pmm_view s' ! n) \<subseteq> view_bytes (pmm_view s ! n) - area_bytes a"
    if n: "n < length (pmm_view s)" for n
  proof (cases "n = i")
    case True
    then show ?thesis
      using view_bytes_carved [OF bl(1) p] i by (simp add: eff(2) spec_update_def bl bytes Let_def)
  next
    case False
    then show ?thesis
      using view_bytes_disjoint [OF ok(2) i n False] sub
      by (simp add: eff(2) spec_update_def bl Let_def) blast
  qed
  have "length (pmm_view s') = length (pmm_view s)"
    by (simp add: eff(2) spec_update_def bl Let_def)
  then show "pmm_owned s' \<subseteq> pmm_owned s - area_bytes a"
    using new unfolding pmm_owned_def by (fastforce simp: in_set_conv_nth)
qed

lemma pmm_view_frame:
  assumes "pmm_inv buf s" and "R \<in> set (active_regions s)"
    and "\<And>j x. j < used_nodes s \<Longrightarrow> in_range x (node_addr buf j, 24) \<Longrightarrow> m x = pm_mem s x"
  shows "region_ok m R" "view_region m R = view_region (pm_mem s) R"
proof -
  have frame: "m x = pm_mem s x"
    if "mr_free_blocks R \<noteq> 0" "in_range x (mr_free_blocks R, 24)" for x
    using pmm_invD(8) [OF assms(1,2) that(1)] that(2) assms(3) by auto
  show "region_ok m R"
    by (rule region_ok_frame [OF pmm_invD(5) [OF assms(1,2)] frame])
  show "view_region m R = view_region (pm_mem s) R"
    using region_block_frame [OF frame] by (simp add: view_region_def)
qed

lemma pmm_write_inv:
  assumes "buf_ok buf" and "pmm_inv buf s" and "\<And>x. in_range x (buf, 1576) \<Longrightarrow> m x = pm_mem s x"
  shows "pmm_inv buf (s\<lparr>pm_mem := m\<rparr>)" "pmm_view (s\<lparr>pm_mem := m\<rparr>) = pmm_view s"
proof -
  have node: "m x = pm_mem s x" if "j < used_nodes s" "in_range x (node_addr buf j, 24)" for j x
    using that node_in_buf [OF assms(1), of j x] assms(3) by (simp add: used_nodes_def)
  note frame = pmm_view_frame [OF assms(2) _ node]
  have act: "active_regions (s\<lparr>pm_mem := m\<rparr>) = active_regions s"
    "used_nodes (s\<lparr>pm_mem := m\<rparr>) = used_nodes s"
    by (simp_all add: active_regions_def used_nodes_def)
  have "slab_rep 24 (m, pm_block_allocator s) [(buf, free_nodes buf (used_nodes s))]"
  proof (rule slab_rep_frame [OF pmm_invD(4) [OF assms(2)]])
    fix t x assume "t \<in> set (slab_ranges 24 [(buf, free_nodes buf (used_nodes s))])" "in_range x t"
    then show "m x = pm_mem s x"
      using slab_ranges_buf [OF assms(1)] header_in_buf node_in_buf [OF assms(1)] assms(3) by blast
  qed
  then show "pmm_inv buf (s\<lparr>pm_mem := m\<rparr>)"
    using assms(2) frame(1)
    unfolding pmm_inv_def act by (simp add: list_all_iff)
  show "pmm_view (s\<lparr>pm_mem := m\<rparr>) = pmm_view s"
    using frame(2) by (simp add: pmm_view_def act)
qed

lemma pmm_inv_console [simp]:
  "pmm_inv buf (s\<lparr>pm_console := c\<rparr>) = pmm_inv buf s"
  "pmm_view (s\<lparr>pm_console := c\<rparr>) = pmm_view s"
  by (simp_all add: pmm_inv_def pmm_view_def active_regions_def used_nodes_def)

lemma pmm_view_append:
  assumes "pmm_inv buf s" and "active_regions s' = active_regions s @ [R]"
    and "\<And>j x. j < used_nodes s \<Longrightarrow> in_range x (node_addr buf j, 24) \<Longrightarrow> pm_mem s' x = pm_mem s x"
  shows "pmm_view s' = pmm_view s @ [view_region (pm_mem s') R]"
  using pmm_view_frame(2) [OF assms(1) _ assms(3)] by (simp add: pmm_view_def assms(2))

lemma pmm_donate_laws:
  assumes "pmm_sound buf s" and "pmm_donate buf s F s'"
  shows "pmm_sound buf s'" "pmm_owned s' \<subseteq> pmm_owned s \<union> F"
proof -
  have ok: "buf_ok buf" "pmm_inv buf s" using assms(1) by (auto simp: pmm_sound_def)
  have "pmm_inv buf s' \<and> pmm_owned s' \<subseteq> pmm_owned s \<union> F"
    using assms(2)
  proof cases
    case (donate_region base len e)
    from ok(2,1) donate_region(1,2) show ?thesis
    proof (cases rule: add_region_cases)
      case rejected
      then show ?thesis using ok by simp
    next
      case (accepted R)
      have "pmm_view s' = pmm_view s @ [view_region (pm_mem s') R]"
        by (rule pmm_view_append [OF ok(2) accepted(2,12)])
      then show ?thesis
        using accepted(3-9) donate_region(3)
        by (auto simp: pmm_owned_def accepted(1) view_bytes_def view_region_def region_block_def)
    qed
  next
    case (donate_write m)
    then show ?thesis
      using pmm_write_inv [OF ok, of m] by (simp add: pmm_owned_def)
  qed (use ok in \<open>auto simp: pmm_free_def pmm_println_def remove_region_def pmm_owned_def\<close>)
  then show "pmm_sound buf s'" "pmm_owned s' \<subseteq> pmm_owned s \<union> F"
    using ok(1) by (auto simp: pmm_sound_def)
qed

interpretation pmm_src: area_source "pmm_sound buf" pmm_owned pmm_acquire "pmm_donate buf" for buf
  by unfold_locales (rule pmm_acquire_laws pmm_donate_laws, assumption, assumption)+

end
