(* ===== verification/Page_Supply.thy ===== *)
theory Page_Supply
  imports Area_Source Number Memory Error
begin

text \<open>
  The interface through which the page tables, the bump allocator and the stack use the
  physical memory manager: read and write memory, allocate pages, free pages. The locale
  states what these clients rely on; their own proofs are done inside it.
\<close>

record 's page_ops =
  po_mem :: "'s \<Rightarrow> mem"
  po_put :: "mem \<Rightarrow> 's \<Rightarrow> 's"
  po_alloc :: "size_t \<Rightarrow> 's \<Rightarrow> (error \<times> paddr_t option \<times> 's) outcome"
  po_free :: "paddr_t \<Rightarrow> 's \<Rightarrow> error \<times> 's"

text \<open>The area that a request of \<open>n\<close> bytes occupies.\<close>

definition request_area :: "paddr_t \<Rightarrow> size_t \<Rightarrow> area" where
  "request_area w n = (w, unat (align_up n 0x1000))"

text \<open>
  \<open>owned s\<close> are the bytes clients must not write: free memory, and the supply's records.
\<close>

locale page_supply =
  fixes ops :: "'s page_ops"
    and inv :: "'s \<Rightarrow> bool"
    and owned :: "'s \<Rightarrow> u64 set"
  assumes put_mem: "po_mem ops (po_put ops m s) = m"
    and put_inv: "inv s \<Longrightarrow> (\<And>x. x \<in> owned s \<Longrightarrow> m x = po_mem ops s x) \<Longrightarrow> inv (po_put ops m s)"
    and put_owned: "inv s \<Longrightarrow> (\<And>x. x \<in> owned s \<Longrightarrow> m x = po_mem ops s x) \<Longrightarrow>
      owned (po_put ops m s) = owned s"
    and alloc_ok: "inv s \<Longrightarrow> po_alloc ops n s = Done (error_of SUCCESS, r, s') \<Longrightarrow>
      \<exists>w. r = Some w \<and> inv s' \<and> 4096 dvd unat w \<and> w \<noteq> 0 \<and>
        unat w + unat (align_up n 0x1000) \<le> 2 ^ 56 \<and>
        area_bytes (request_area w n) \<subseteq> owned s \<and>
        owned s' \<subseteq> owned s - area_bytes (request_area w n) \<and>
        (\<forall>x \<in> area_bytes (request_area w n). po_mem ops s' x = 0) \<and>
        (\<forall>x. x \<notin> owned s \<longrightarrow> po_mem ops s' x = po_mem ops s x)"
    and alloc_err: "inv s \<Longrightarrow> po_alloc ops n s = Done (e, r, s') \<Longrightarrow>
      e = error_of SUCCESS \<or> (e = error_of PMM_OUT_OF_MEM \<and> r = Some 0 \<and> s' = s)"
    and free_frame: "inv s \<Longrightarrow> po_free ops pa s = (e, s') \<Longrightarrow>
      e = error_of SUCCESS \<and> inv s' \<and> owned s' = owned s \<and> po_mem ops s' = po_mem ops s"

end
