(* ===== verification/Pmm_Pages.thy ===== *)
theory Pmm_Pages
  imports Pmm_Source Page_Supply
begin

text \<open>
  Page allocations. With page alignment a call never meets the block that is too short:
  as long as only pages are allocated, the free block of a region is all its free
  memory, and the manager is the page supply that its clients expect.
\<close>

section \<open>Whole regions\<close>

definition whole :: "area_view \<Rightarrow> bool" where
  "whole V \<longleftrightarrow> (case av_block V of None \<Rightarrow> av_free V = 0 | Some (b, l) \<Rightarrow> l = av_free V)"

definition pmm_whole :: "pmm \<Rightarrow> bool" where
  "pmm_whole s \<longleftrightarrow> list_all whole (pmm_view s)"

lemma round_to_id: "p dvd n \<Longrightarrow> 0 < p \<Longrightarrow> round_to n p = n"
proof -
  assume p: "p dvd n" "0 < p"
  then obtain k where "n = p * k" by (auto elim: dvdE)
  have "(k * p + (p - 1)) div p = k + (p - 1) div p"
    using p(2) by (intro div_mult_self3) simp
  then show ?thesis
    using p(2) \<open>n = p * k\<close> by (simp add: round_to_def mult.commute)
qed

lemma whole_carve:
  assumes "whole V" and "av_block V = Some (b, l)" and "n \<le> av_free V"
  shows "whole (V\<lparr>av_free := av_free V - n, av_block := carved b l b n\<rparr>)"
  using assms by (auto simp: whole_def carved_def)

lemma spec_alloc_page:
  assumes "pmm_inv buf s" and "pmm_whole s"
  shows "spec_alloc n 4096 (pmm_view s) =
    (case pick n (pmm_view s) of None \<Rightarrow> No_room
     | Some i \<Rightarrow> Carved i (fst (the (av_block (pmm_view s ! i)))))"
proof (cases "pick n (pmm_view s)")
  case (Some i)
  note P = pick_SomeD [OF Some]
  then obtain b l where bl: "av_block (pmm_view s ! i) = Some (b, l)" by auto
  have "whole (pmm_view s ! i)"
    using assms(2) P(1) by (simp add: pmm_whole_def list_all_length)
  then have "n \<le> l" using P(2) bl by (simp add: whole_def)
  moreover have "round_to b 4096 = b"
    using view_block(3) [OF assms(1) P(1) bl] by (simp add: round_to_id area_ok_def)
  ultimately show ?thesis using Some bl by (simp add: spec_alloc_def)
qed (simp add: spec_alloc_def)

lemma pick_None_iff:
  "pick n Vs = None \<longleftrightarrow> (\<forall>V \<in> set Vs. n \<le> av_free V \<longrightarrow> av_block V = None)"
  unfolding pick_def find_None_iff by (simp add: all_set_conv_all_nth) (metis not_None_eq surj_pair)

lemma whole_update:
  assumes "pmm_whole s" and "pick n (pmm_view s) = Some i"
    and "pmm_view s' = spec_update n i (fst (the (av_block (pmm_view s ! i)))) (pmm_view s)"
  shows "pmm_whole s'"
proof -
  note P = pick_SomeD [OF assms(2)]
  then obtain b l where bl: "av_block (pmm_view s ! i) = Some (b, l)" by auto
  have "whole (pmm_view s ! i)"
    using assms(1) P(1) by (simp add: pmm_whole_def list_all_length)
  from whole_carve [OF this bl P(2)] show ?thesis
    using assms(1) by (auto simp: pmm_whole_def assms(3) spec_update_def bl Let_def
        intro: list_all_update)
qed

text \<open>A page allocation returns: with memory, or with the out-of-memory error.\<close>

lemma pmm_alloc_page_cases:
  assumes "alloc_ready buf s" and "pmm_whole s"
  obtains (full) "pick (unat (align_up sz PAGE_SIZE)) (pmm_view s) = None"
      "pmm_alloc sz False s = Done (error_of PMM_OUT_OF_MEM, Some 0, s)"
  | (given) i w s' where "pick (unat (align_up sz PAGE_SIZE)) (pmm_view s) = Some i"
      "pmm_alloc sz False s = Done (error_of SUCCESS, Some w, s')" "pmm_inv buf s'" "pmm_whole s'"
      "unat w = fst (the (av_block (pmm_view s ! i)))"
      "pmm_view s' = spec_update (unat (align_up sz PAGE_SIZE)) i (unat w) (pmm_view s)"
      "alloc_effect buf (unat w) (align_up sz PAGE_SIZE) s s'" "alloc_ready buf s'"
proof -
  let ?n = "unat (align_up sz PAGE_SIZE)"
  have ok: "pmm_inv buf s" using assms(1) by (simp add: alloc_ready_def)
  note spec = spec_alloc_page [OF ok assms(2), of ?n]
  show ?thesis
  proof (cases "pick ?n (pmm_view s)")
    case None
    then show ?thesis
      using full alloc_no_room [OF assms(1) good_align_PAGE_SIZE, of sz] spec
      by (simp add: pmm_alloc_def)
  next
    case (Some i)
    then have "spec_alloc ?n (unat PAGE_SIZE) (pmm_view s) =
        Carved i (fst (the (av_block (pmm_view s ! i))))" using spec by simp
    from alloc_carved [OF assms(1) good_align_PAGE_SIZE this] obtain w s' where
      r: "alloc_aligned sz PAGE_SIZE False s = Done (error_of SUCCESS, Some w, s')"
        "unat w = fst (the (av_block (pmm_view s ! i)))" "pmm_inv buf s'"
        "pmm_view s' = spec_update ?n i (fst (the (av_block (pmm_view s ! i)))) (pmm_view s)"
        "alloc_effect buf (fst (the (av_block (pmm_view s ! i)))) (align_up sz PAGE_SIZE) s s'"
        "\<forall>b l. av_block (pmm_view s ! i) = Some (b, l) \<longrightarrow>
          unat (m_free (pm_block_allocator s')) = unat (m_free (pm_block_allocator s)) -
          of_bool (splits b l (fst (the (av_block (pmm_view s ! i)))) ?n)"
      by blast
    obtain b l where "av_block (pmm_view s ! i) = Some (b, l)"
      using pick_SomeD(3) [OF Some] by auto
    then have "alloc_ready buf s'"
      using r(3,5,6) assms(1) by (simp add: alloc_ready_def alloc_effect_def splits_def)
    then show ?thesis
      using given [OF Some _ r(3) whole_update [OF assms(2) Some r(4)] r(2)] r(1,2,4,5)
      by (simp add: pmm_alloc_def)
  qed
qed

section \<open>The page supply\<close>

definition pmm_ops :: "pmm page_ops" where
  "pmm_ops = \<lparr>po_mem = pm_mem, po_put = (\<lambda>m s. s\<lparr>pm_mem := m\<rparr>),
     po_alloc = (\<lambda>n. pmm_alloc n False), po_free = pmm_free\<rparr>"

definition pmm_reserved :: "u64 \<Rightarrow> pmm \<Rightarrow> u64 set" where
  "pmm_reserved buf s = pmm_owned s \<union> {x. in_range x (buf, 1576)}"

lemma pmm_ops_simps [simp]:
  "po_mem pmm_ops = pm_mem" "po_put pmm_ops m s = s\<lparr>pm_mem := m\<rparr>"
  "po_alloc pmm_ops n s = pmm_alloc n False s" "po_free pmm_ops = pmm_free"
  by (simp_all add: pmm_ops_def)

lemma pmm_put_law:
  assumes "pmm_sound buf s" and "\<And>x. x \<in> pmm_reserved buf s \<Longrightarrow> m x = pm_mem s x"
  shows "pmm_sound buf (s\<lparr>pm_mem := m\<rparr>)" "pmm_reserved buf (s\<lparr>pm_mem := m\<rparr>) = pmm_reserved buf s"
  using pmm_write_inv [of buf s m] assms
  by (auto simp: pmm_sound_def pmm_reserved_def pmm_owned_def)

lemma alloc_error_kind:
  assumes "alloc_aligned sz PAGE_SIZE False s = Done (e, r, s')" and "pmm_sound buf s"
  shows "e = error_of SUCCESS \<or> e = error_of PMM_OUT_OF_MEM \<and> r = Some 0 \<and> s' = s"
proof (cases "alloc_ready buf s")
  case True
  show ?thesis
    using alloc_no_room [OF True good_align_PAGE_SIZE, of sz]
      alloc_misfit [OF True good_align_PAGE_SIZE, of sz]
      alloc_carved [OF True good_align_PAGE_SIZE, of sz] assms(1)
    by (cases "spec_alloc (unat (align_up sz PAGE_SIZE)) (unat PAGE_SIZE) (pmm_view s)") fastforce+
next
  case False
  then show ?thesis
    using assms good_align_PAGE_SIZE
    by (auto simp: alloc_ready_def pmm_sound_def alloc_aligned_def Let_def good_align_iff
        slab_free_count_def word_less_nat_alt not_less split: if_splits)
qed

lemma page_size_literal: "(0x1000 :: u64) = PAGE_SIZE"
  by (simp add: PAGE_SIZE_def)

lemma pmm_alloc_law:
  assumes "pmm_sound buf s" and "pmm_alloc n False s = Done (error_of SUCCESS, r, s')"
  shows "\<exists>w. r = Some w \<and> pmm_sound buf s' \<and> 4096 dvd unat w \<and> w \<noteq> 0 \<and>
    unat w + unat (align_up n 0x1000) \<le> 2 ^ 56 \<and>
    area_bytes (request_area w n) \<subseteq> pmm_reserved buf s \<and>
    pmm_reserved buf s' \<subseteq> pmm_reserved buf s - area_bytes (request_area w n) \<and>
    (\<forall>x \<in> area_bytes (request_area w n). pm_mem s' x = 0) \<and>
    (\<forall>x. x \<notin> pmm_reserved buf s \<longrightarrow> pm_mem s' x = pm_mem s x)"
proof -
  have call: "alloc_aligned n PAGE_SIZE False s = Done (error_of SUCCESS, r, s')"
    using assms(2) by (simp add: pmm_alloc_def)
  obtain w i b l where w: "r = Some w" "area_ok b l" "unat w = round_to b (unat PAGE_SIZE)"
    "b \<le> unat w" "unat w + unat (align_up n PAGE_SIZE) \<le> b + l"
    and eff: "alloc_effect buf (unat w) (align_up n PAGE_SIZE) s s'"
    by (rule alloc_success [OF assms(1) call]) blast
  have acq: "pmm_acquire s (request_area w n) s'"
    using call w(1) by (auto simp: pmm_acquire_def request_area_def PAGE_SIZE_def)
  note laws = pmm_acquire_laws [OF assms(1) acq]
  have lim: "unat w + unat (align_up n PAGE_SIZE) \<le> phys_limit"
    using w(2,5) by (simp add: area_ok_def)
  have bytes: "x \<in> area_bytes (request_area w n) \<longleftrightarrow>
      unat w \<le> unat x \<and> unat x < unat w + unat (align_up n PAGE_SIZE)" for x
    using lim by (simp add: request_area_def page_size_literal in_range_nowrap phys_limit_def)
  have "buf_ok buf" using assms(1) by (simp add: pmm_sound_def)
  then have apart: "area_bytes (request_area w n) \<inter> {x. in_range x (buf, 1576)} = {}"
    using in_buf_phys bytes lim by force
  have "w \<noteq> 0" using w(2,4) by (auto simp: area_ok_def)
  moreover have "4096 dvd unat w" by (simp add: w(3) round_to_dvd)
  moreover have "pm_mem s' x = 0" if "x \<in> area_bytes (request_area w n)" for x
    using eff that bytes by (simp add: alloc_effect_def)
  moreover have "pm_mem s' x = pm_mem s x" if "x \<notin> pmm_reserved buf s" for x
    using eff that laws(2) bytes unfolding alloc_effect_def pmm_reserved_def by blast
  ultimately show ?thesis
    using w(1) laws apart lim unfolding page_size_literal phys_limit_def pmm_reserved_def by blast
qed

lemma pmm_free_law:
  assumes "pmm_sound buf s" and "pmm_free pa s = (e, s')"
  shows "e = error_of SUCCESS \<and> pmm_sound buf s' \<and>
    pmm_reserved buf s' = pmm_reserved buf s \<and> pm_mem s' = pm_mem s"
  using assms
  by (auto simp: pmm_free_def pmm_println_def pmm_sound_def pmm_reserved_def pmm_owned_def)

interpretation pmm_pages: page_supply pmm_ops "pmm_sound buf" "pmm_reserved buf" for buf
proof
  show "e = error_of SUCCESS \<or> e = error_of PMM_OUT_OF_MEM \<and> r = Some 0 \<and> s' = s"
    if "pmm_sound buf s" "po_alloc pmm_ops n s = Done (e, r, s')" for s n e r s'
    using alloc_error_kind [of n s e r s' buf] that by (simp add: pmm_alloc_def)
qed (use pmm_put_law pmm_alloc_law pmm_free_law in \<open>simp_all\<close>)

section \<open>A manager with one region\<close>

text \<open>The state after booting, initialising and adding one region of whole pages.\<close>

definition fresh_view :: "nat \<Rightarrow> nat \<Rightarrow> area_view" where
  "fresh_view b l = \<lparr>av_base = b, av_length = l, av_free = l, av_block = Some (b, l)\<rparr>"

lemma usable_exact:
  "4096 dvd b \<Longrightarrow> usable_base b = b" "4096 dvd b \<Longrightarrow> 4096 dvd l \<Longrightarrow> usable_length b l = l"
  using round_to_id [of 4096 b] by (auto simp: usable_base_def usable_length_def round_to_def)

lemma one_region_state:
  assumes "buf_ok buf" and "area_ok (unat base) (unat len)"
  obtains s where "alloc_ready buf s" and "pmm_whole s"
    and "pmm_view s = [fresh_view (unat base) (unat len)]"
    and "run pmm_acquire (pmm_donate buf) s [] s"
    and "\<exists>s0. pmm_initialize buf FIRST_FIT (pmm_boot m) = Done s0 \<and>
      add_region base len s0 = Done (error_of SUCCESS, s)"
    and "unat (m_free (pm_block_allocator s)) = 62"
proof -
  obtain s0 where s0: "pmm_initialize buf FIRST_FIT (pmm_boot m) = Done s0" "pmm_inv buf s0"
    "pm_pol s0 = FIRST_FIT" "active_regions s0 = []" "m_free (pm_block_allocator s0) = 64"
    "pm_region_count s0 = 0"
    by (rule initialize_ok [OF assms(1), of FIRST_FIT m]) blast
  have b: "0 < unat base" "0 < unat len" "4096 dvd unat base" "4096 dvd unat len"
    "unat base + unat len \<le> phys_limit" using assms(2) by (simp_all add: area_ok_def)
  note u = usable_exact(1) [OF b(3)] usable_exact(2) [OF b(3,4)]
  have "4096 \<le> unat len" using b(2,4) by (auto elim: dvdE)
  then have v: "add_region_verdict s0 (unat base) (unat len) = SUCCESS"
    using b s0(4,6) u by (simp add: add_region_verdict_def)
  obtain s R where s: "add_region base len s0 = Done (error_of SUCCESS, s)"
    "active_regions s = active_regions s0 @ [R]" "unat (mr_base R) = usable_base (unat base)"
    "unat (mr_length R) = usable_length (unat base) (unat len)" "mr_free_bytes R = mr_length R"
    "mr_free_blocks R \<noteq> 0" "mb_base (pm_mem s) (mr_free_blocks R) = mr_base R"
    "mb_length (pm_mem s) (mr_free_blocks R) = mr_length R" "pmm_inv buf s" "pm_pol s = pm_pol s0"
    "unat (m_free (pm_block_allocator s)) = unat (m_free (pm_block_allocator s0)) - 2"
    by (rule add_region_success [OF s0(2) assms(1) _ b(5) _ v]) (use s0(4,5) u in auto)
  have view: "pmm_view s = [fresh_view (unat base) (unat len)]"
    using s u s0(4) by (simp add: pmm_view_def view_region_def region_block_def fresh_view_def)
  show ?thesis
  proof (rule that)
    show "alloc_ready buf s" using assms(1) s s0 by (simp add: alloc_ready_def)
    show "pmm_whole s" by (simp add: pmm_whole_def view whole_def fresh_view_def)
  qed (use view s s0 in \<open>auto intro: run.intros\<close>)
qed

text \<open>The addresses of a small machine: RAM at \<^verbatim>\<open>0x80000000\<close>, the kernel in the upper half.\<close>

definition demo_buf :: u64 where
  "demo_buf = 0xFFFFFFFF80000000"

lemma demo_buf_ok: "buf_ok demo_buf"
  by (simp add: buf_ok_def demo_buf_def phys_limit_def)

lemma demo_area: "area_ok (unat (0x80000000 :: u64)) (unat (0x10000 :: u64))"
  by (simp add: area_ok_def phys_limit_def)

end
