(* ===== verification/Pmm_Properties.thy ===== *)
theory Pmm_Properties
  imports Pmm_Pages Slab_Source
begin

text \<open>
  What the physical memory manager and its slab allocator guarantee, and where they
  fall short of what their interface promises. Each property is followed by an instance
  on the small machine of \<open>demo_buf\<close>, where its hypotheses hold.
\<close>

section \<open>Instances\<close>

lemma pick_single:
  "pick n [V] = (if n \<le> av_free V \<and> av_block V \<noteq> None then Some 0 else None)"
  by (simp add: pick_def)

text \<open>The manager with one region of sixteen pages, and the history that leads to it.\<close>

lemma demo_state:
  obtains s0 s where "pmm_initialize demo_buf FIRST_FIT (pmm_boot m) = Done s0"
    and "run pmm_acquire (pmm_donate demo_buf) s0 [] s" and "alloc_ready demo_buf s"
    and "pmm_whole s" and "pmm_view s = [fresh_view 0x80000000 0x10000]"
    and "pmm_sound demo_buf s" and "pmm_sound demo_buf s0"
    and "unat (m_free (pm_block_allocator s)) = 62"
proof -
  obtain s s0 where s: "alloc_ready demo_buf s" "pmm_whole s"
    "pmm_view s = [fresh_view (unat (0x80000000 :: u64)) (unat (0x10000 :: u64))]"
    "pmm_initialize demo_buf FIRST_FIT (pmm_boot m) = Done s0"
    "add_region 0x80000000 0x10000 s0 = Done (error_of SUCCESS, s)"
    "unat (m_free (pm_block_allocator s)) = 62"
    by (rule one_region_state [OF demo_buf_ok demo_area, of m]) blast
  obtain s1 where s1: "pmm_initialize demo_buf FIRST_FIT (pmm_boot m) = Done s1"
    "pmm_inv demo_buf s1" "active_regions s1 = []"
    by (rule initialize_ok [OF demo_buf_ok, of FIRST_FIT m]) blast
  have "s1 = s0" using s(4) s1(1) by simp
  note s1 = s1 [unfolded this]
  have "usable_base (unat (0x80000000 :: u64)) = 0x80000000"
    by (simp add: usable_base_def)
  then have "region_offer s0 0x80000000 0x10000"
    using s1(3) by (simp add: region_offer_def phys_limit_def)
  from donate_region [OF this s(5) refl] have "run pmm_acquire (pmm_donate demo_buf) s0 [] s"
    by (rule run_donate [OF run_start]) simp
  then show ?thesis
    using that s s1(2) demo_buf_ok by (simp add: pmm_sound_def alloc_ready_def)
qed

lemma align_page: "align_up 0x1000 PAGE_SIZE = 0x1000" "align_up 1 PAGE_SIZE = 0x1000"
  by (simp_all add: align_up_def PAGE_SIZE_def)

text \<open>Two pages allocated one after the other.\<close>

lemma demo_pages:
  obtains s0 s w1 w2 where "pmm_initialize demo_buf FIRST_FIT (pmm_boot m) = Done s0"
    and "run pmm_acquire (pmm_donate demo_buf) s0 [(w2, 4096), (w1, 4096)] s"
    and "unat w1 = 0x80000000" and "unat w2 = 0x80001000"
proof -
  obtain s0 s where s: "pmm_initialize demo_buf FIRST_FIT (pmm_boot m) = Done s0"
    "run pmm_acquire (pmm_donate demo_buf) s0 [] s" "alloc_ready demo_buf s" "pmm_whole s"
    "pmm_view s = [fresh_view 0x80000000 0x10000]"
    by (rule demo_state [of m]) blast
  obtain w1 s1 where a1: "pmm_alloc 0x1000 False s = Done (error_of SUCCESS, Some w1, s1)"
    "unat w1 = 0x80000000" "pmm_view s1 = spec_update 0x1000 0 0x80000000 (pmm_view s)"
    "alloc_ready demo_buf s1" "pmm_whole s1"
    by (rule pmm_alloc_page_cases [OF s(3,4), of "0x1000"])
      (auto simp: s(5) align_page pick_single fresh_view_def split: if_splits)
  have v1: "pmm_view s1 = [\<lparr>av_base = 0x80000000, av_length = 0x10000, av_free = 0xF000,
      av_block = Some (0x80001000, 0xF000)\<rparr>]"
    by (simp add: a1(3) s(5) spec_update_def fresh_view_def carved_def)
  obtain w2 s2 where a2: "pmm_alloc 0x1000 False s1 = Done (error_of SUCCESS, Some w2, s2)"
    "unat w2 = 0x80001000"
    by (rule pmm_alloc_page_cases [OF a1(4,5), of "0x1000"])
      (auto simp: v1 align_page pick_single split: if_splits)
  have "pmm_acquire s (w1, 4096) s1" "pmm_acquire s1 (w2, 4096) s2"
    using a1(1) a2(1) align_page(1) unfolding pmm_acquire_def pmm_alloc_def
    by (metis fst_conv snd_conv unat_PAGE_SIZE PAGE_SIZE_def)+
  then have "run pmm_acquire (pmm_donate demo_buf) s0 [(w2, 4096), (w1, 4096)] s2"
    using s(2) by (blast intro: run_acquire)
  with that s(1) a1(2) a2(2) show ?thesis by blast
qed

lemma spec_alloc_aligned: "spec_alloc n al Vs = Carved i a \<Longrightarrow> al dvd a"
  by (auto simp: spec_alloc_def Let_def round_to_dvd split: option.splits prod.splits if_splits)

section \<open>The physical memory manager\<close>

text \<open>
  C1. Memory safety of allocation. Take any history of the memory manager after
  \<open>initialize\<close>: regions offered to \<open>add_region\<close>, successful and failed allocations of
  any size and alignment, calls of \<open>free\<close> and \<open>remove_region\<close>, and writes to memory outside the
  manager's list nodes, in any order. Then the invariant holds, no two areas handed out
  share a byte, and none shares a byte with memory that is still free.
\<close>

theorem pmm_allocations_disjoint:
  assumes "buf_ok buf" and "pmm_initialize buf FIRST_FIT (pmm_boot m) = Done s0"
    and "run pmm_acquire (pmm_donate buf) s0 as s"
  shows "pmm_sound buf s \<and> pmm_owned s \<inter> all_bytes as = {} \<and>
    (\<forall>i < length as. \<forall>j < i. area_bytes (as ! i) \<inter> area_bytes (as ! j) = {})"
proof -
  obtain s1 where "pmm_initialize buf FIRST_FIT (pmm_boot m) = Done s1" "pmm_inv buf s1"
    by (rule initialize_ok [OF assms(1), of FIRST_FIT m]) blast
  with assms(1,2) have "pmm_sound buf s0" by (simp add: pmm_sound_def)
  note inv = pmm_src.run_invariant [OF assms(3) this]
  moreover have "area_bytes (as ! i) \<inter> area_bytes (as ! j) = {}"
    if "i < length as" "j < i" for i j
    using pairwise_disjoint_nth [of as i j] inv that by simp
  ultimately show ?thesis by blast
qed

theorem pmm_allocations_disjoint_witness:
  "\<exists>s0 s w1 w2. pmm_initialize demo_buf FIRST_FIT (pmm_boot (\<lambda>_. 0)) = Done s0 \<and>
    run pmm_acquire (pmm_donate demo_buf) s0 [(w2, 4096), (w1, 4096)] s \<and>
    area_bytes (w1, 4096) \<inter> area_bytes (w2, 4096) = {}"
proof -
  obtain s0 s w1 w2 where h: "pmm_initialize demo_buf FIRST_FIT (pmm_boot (\<lambda>_. 0)) = Done s0"
    "run pmm_acquire (pmm_donate demo_buf) s0 [(w2, 4096), (w1, 4096)] s"
    by (rule demo_pages)
  from pmm_allocations_disjoint [OF demo_buf_ok h] have
    "area_bytes ([(w2, 4096), (w1, 4096)] ! 1) \<inter> area_bytes ([(w2, 4096), (w1, 4096)] ! 0) = {}"
    by (metis One_nat_def Suc_1 length_Cons lessI list.size(3) zero_less_one)
  with h show ?thesis by auto
qed

text \<open>
  C2. Refinement of \<open>alloc_aligned\<close>. Under the invariant, with at least sixteen list nodes
  left and an alignment that is a power of two of at least a page, the call does what
  the abstract allocator says of the table: with no region that has the memory it fails
  and changes nothing; when the one block of the first such region cannot hold the
  aligned request it dereferences a null pointer; otherwise it returns the block's base
  rounded up to the alignment, the table becomes the abstract table with the block
  carved, the memory handed out is zeroed, all other memory outside the manager's nodes is
  unchanged, and the invariant holds again.
\<close>

theorem alloc_aligned_refines:
  assumes "alloc_ready buf s" and "good_align al"
  shows "case spec_alloc (unat (align_up sz0 PAGE_SIZE)) (unat al) (pmm_view s) of
      No_room \<Rightarrow> alloc_aligned sz0 al False s = Done (error_of PMM_OUT_OF_MEM, Some 0, s)
    | Misfit \<Rightarrow> alloc_aligned sz0 al False s = Halt Null_deref
    | Carved i a \<Rightarrow> (\<exists>w s'. alloc_aligned sz0 al False s = Done (error_of SUCCESS, Some w, s') \<and>
        unat w = a \<and> unat al dvd a \<and> pmm_inv buf s' \<and>
        pmm_view s' = spec_update (unat (align_up sz0 PAGE_SIZE)) i a (pmm_view s) \<and>
        alloc_effect buf a (align_up sz0 PAGE_SIZE) s s')"
proof (cases "spec_alloc (unat (align_up sz0 PAGE_SIZE)) (unat al) (pmm_view s)")
  case (Carved i a)
  obtain w s' where "alloc_aligned sz0 al False s = Done (error_of SUCCESS, Some w, s')"
    "unat w = a" "pmm_inv buf s'"
    "pmm_view s' = spec_update (unat (align_up sz0 PAGE_SIZE)) i a (pmm_view s)"
    "alloc_effect buf a (align_up sz0 PAGE_SIZE) s s'"
    by (rule alloc_carved [OF assms Carved]) blast
  then show ?thesis using Carved spec_alloc_aligned [OF Carved] by auto
qed (use alloc_no_room [OF assms] alloc_misfit [OF assms] in auto)

theorem alloc_aligned_refines_witness:
  "\<exists>s w s'. alloc_ready demo_buf s \<and> good_align PAGE_SIZE \<and>
    alloc_aligned 0x1000 PAGE_SIZE False s = Done (error_of SUCCESS, Some w, s') \<and>
    unat w = 0x80000000"
proof -
  obtain s where s: "alloc_ready demo_buf s" "pmm_view s = [fresh_view 0x80000000 0x10000]"
    by (rule demo_state [of "\<lambda>_. 0"]) blast
  have "spec_alloc 0x1000 0x1000 (pmm_view s) = Carved 0 0x80000000"
    by (simp add: s(2) spec_alloc_def pick_single fresh_view_def round_to_def)
  then show ?thesis
    using alloc_aligned_refines [OF s(1) good_align_PAGE_SIZE, of "0x1000"] s(1)
      good_align_PAGE_SIZE by (auto simp: align_page)
qed

text \<open>
  C3. Page allocations never trap. As long as the free block of every region is all its
  free memory, which is so after \<open>add_region\<close> and kept by this very call, \<open>alloc\<close> returns:
  page-aligned zeroed memory if a region has that many free bytes, and the out-of-memory
  error with an unchanged state if none has.
\<close>

theorem pmm_alloc_pages:
  assumes "alloc_ready buf s" and "pmm_whole s"
  shows "if \<exists>V \<in> set (pmm_view s). unat (align_up sz PAGE_SIZE) \<le> av_free V \<and> av_block V \<noteq> None
    then \<exists>w s'. pmm_alloc sz False s = Done (error_of SUCCESS, Some w, s') \<and> 4096 dvd unat w \<and>
      alloc_ready buf s' \<and> pmm_whole s' \<and> alloc_effect buf (unat w) (align_up sz PAGE_SIZE) s s'
    else pmm_alloc sz False s = Done (error_of PMM_OUT_OF_MEM, Some 0, s)"
proof (rule pmm_alloc_page_cases [OF assms, of sz])
  assume "pick (unat (align_up sz PAGE_SIZE)) (pmm_view s) = None"
    "pmm_alloc sz False s = Done (error_of PMM_OUT_OF_MEM, Some 0, s)"
  then show ?thesis by (auto simp: pick_None_iff)
next
  fix i w s'
  assume h: "pick (unat (align_up sz PAGE_SIZE)) (pmm_view s) = Some i"
    "pmm_alloc sz False s = Done (error_of SUCCESS, Some w, s')" "pmm_whole s'"
    "unat w = fst (the (av_block (pmm_view s ! i)))"
    "alloc_effect buf (unat w) (align_up sz PAGE_SIZE) s s'" "alloc_ready buf s'"
  note P = pick_SomeD [OF h(1)]
  then obtain b l where "av_block (pmm_view s ! i) = Some (b, l)" by auto
  then have "4096 dvd unat w"
    using view_block(3) [of buf s i b l] P(1) assms(1) h(4)
    by (simp add: area_ok_def alloc_ready_def)
  then show ?thesis using h P nth_mem [OF P(1)] by auto
qed

theorem pmm_alloc_pages_witness:
  "\<exists>s w s'. alloc_ready demo_buf s \<and> pmm_whole s \<and>
    pmm_alloc 0x3000 False s = Done (error_of SUCCESS, Some w, s') \<and>
    pmm_alloc 0x20000 False s = Done (error_of PMM_OUT_OF_MEM, Some 0, s)"
proof -
  obtain s where s: "alloc_ready demo_buf s" "pmm_whole s"
    "pmm_view s = [fresh_view 0x80000000 0x10000]"
    by (rule demo_state [of "\<lambda>_. 0"]) blast
  have "align_up 0x3000 PAGE_SIZE = 0x3000" "align_up 0x20000 PAGE_SIZE = 0x20000"
    by (simp_all add: align_up_def PAGE_SIZE_def)
  then show ?thesis
    using pmm_alloc_pages [OF s(1,2), of "0x3000"] pmm_alloc_pages [OF s(1,2), of "0x20000"] s
    by (auto simp: fresh_view_def)
qed





text \<open>
  Bad arguments. A null result pointer and an alignment that is not a power of two
  of at least a page are reported before anything is looked at: the state is
  unchanged, and in the second case zero is written to the result.
\<close>

theorem alloc_aligned_bad_arguments:
  "alloc_aligned sz al True s = Done (error_of NULL_ARGUMENT, None, s) \<and>
   (\<not> good_align al \<longrightarrow> alloc_aligned sz al False s = Done (error_of PMM_BAD_ALIGN, Some 0, s))"
  by (simp add: alloc_aligned_def good_align_iff Let_def)

theorem alloc_aligned_bad_arguments_witness:
  "alloc_aligned 0x1000 0x1800 False (pmm_boot (\<lambda>_. 0)) =
    Done (error_of PMM_BAD_ALIGN, Some 0, pmm_boot (\<lambda>_. 0))"
proof -
  have "\<not> good_align 0x1800" by (simp add: good_align_iff PAGE_SIZE_def)
  then show ?thesis
    using alloc_aligned_bad_arguments [of "0x1000" "0x1800" "pmm_boot (\<lambda>_. 0)"] by simp
qed

text \<open>
  C31. A leak. When an aligned allocation leaves free memory on both sides, the part behind
  it is lost: it was free before the call, is not part of the area handed out, and
  belongs to no free block afterwards, although the region still counts it as free.
\<close>

theorem alloc_split_leaks:
  assumes "alloc_ready buf s" and "good_align al" and "n = unat (align_up sz0 PAGE_SIZE)"
    and "spec_alloc n (unat al) (pmm_view s) = Carved i a"
    and "av_block (pmm_view s ! i) = Some (b, l)" and "splits b l a n"
  shows "\<exists>w s'. alloc_aligned sz0 al False s = Done (error_of SUCCESS, Some w, s') \<and>
    {x. a + n \<le> unat x \<and> unat x < b + l} \<subseteq> pmm_owned s - area_bytes (w, n) \<and>
    {x. a + n \<le> unat x \<and> unat x < b + l} \<inter> pmm_owned s' = {} \<and>
    unat (free_memory s') = unat (free_memory s) - n"
proof -
  let ?tail = "{x. a + n \<le> unat x \<and> unat x < b + l}"
  have inv: "pmm_inv buf s" using assms(1) by (simp add: alloc_ready_def)
  obtain w s' where h: "alloc_aligned sz0 al False s = Done (error_of SUCCESS, Some w, s')"
    "unat w = a" "pmm_inv buf s'" "pmm_view s' = spec_update n i a (pmm_view s)"
    "alloc_effect buf a (align_up sz0 PAGE_SIZE) s s'"
    using alloc_carved [OF assms(1,2) assms(4) [unfolded assms(3)]] assms(3) by metis
  have pk: "pick n (pmm_view s) = Some i"
    using assms(4) by (auto simp: spec_alloc_def Let_def split: option.splits prod.splits if_splits)
  note P = pick_SomeD [OF pk] and B = view_block [OF inv pick_SomeD(1) [OF pk] assms(5)]
  have tail: "?tail \<subseteq> view_bytes (pmm_view s ! i)"
    using assms(4,5,6) pk round_to_bounds(1) [OF good_align_bounds(1) [OF assms(2)], of b]
    by (auto simp: view_bytes_def spec_alloc_def Let_def split: if_splits)
  have "x \<notin> area_bytes (w, n)" if "x \<in> ?tail" for x
    using that h(2) B(3) assms(4,5) pk
    by (subst area_bytes_iff, subst in_range_nowrap)
      (auto simp: area_ok_def phys_limit_def spec_alloc_def Let_def split: if_splits)
  then have sub: "?tail \<subseteq> pmm_owned s - area_bytes (w, n)"
    using tail nth_mem [OF P(1)] unfolding pmm_owned_def by blast
  have "?tail \<inter> view_bytes (pmm_view s' ! k) = {}" if k: "k < length (pmm_view s)" for k
  proof (cases "k = i")
    case True
    then show ?thesis
      using assms(6) P(1) h(4)
      by (auto simp: spec_update_def assms(5) Let_def view_bytes_def carved_def splits_def)
  next
    case False
    then show ?thesis
      using view_bytes_disjoint [OF inv P(1) k] tail h(4)
      by (auto simp: spec_update_def assms(5) Let_def)
  qed
  moreover have "length (pmm_view s') = length (pmm_view s)"
    by (simp add: h(4) spec_update_def assms(5) Let_def)
  ultimately have none: "?tail \<inter> pmm_owned s' = {}"
    unfolding pmm_owned_def by (fastforce simp: in_set_conv_nth)
  have "n \<le> unat (free_memory s)"
    using member_le_sum_list [of "av_free (pmm_view s ! i)" "map av_free (pmm_view s)"] P(1,2)
      counters_sum(2) [OF inv] by simp
  then have "unat (free_memory s') = unat (free_memory s) - n"
    using h(5) assms(3) by (simp add: alloc_effect_def unat_sub_nowrap word_le_nat_alt)
  with h(1) sub none show ?thesis by blast
qed

theorem alloc_split_leaks_witness:
  "\<exists>s w s'. alloc_ready demo_buf s \<and> free_memory s = 0x20000 \<and>
    alloc_aligned 0x1000 0x10000 False s = Done (error_of SUCCESS, Some w, s') \<and>
    {x. 0x80011000 \<le> unat x \<and> unat x < 0x80021000} \<inter> pmm_owned s' = {} \<and>
    unat (free_memory s') = 0x1F000"
proof -
  obtain s where s: "alloc_ready demo_buf s"
    "pmm_view s = [fresh_view (unat (0x80001000 :: u64)) (unat (0x20000 :: u64))]"
    by (rule one_region_state [OF demo_buf_ok, of "0x80001000" "0x20000" "\<lambda>_. 0"])
      (auto simp: area_ok_def phys_limit_def)
  have al: "good_align 0x10000"
    by (simp add: good_align_iff PAGE_SIZE_def)
  have n: "0x1000 = unat (align_up 0x1000 PAGE_SIZE)"
    by (simp add: align_page)
  have free: "free_memory s = 0x20000"
    using counters_sum(2) [of demo_buf s] s
    by (auto simp: alloc_ready_def fresh_view_def word_unat_eq_iff)
  have "spec_alloc 0x1000 (unat (0x10000 :: u64)) (pmm_view s) = Carved 0 0x80010000"
    by (simp add: s(2) spec_alloc_def pick_single fresh_view_def round_to_def)
  moreover have "av_block (pmm_view s ! 0) = Some (0x80001000, 0x20000)"
    by (simp add: s(2) fresh_view_def)
  moreover have "splits 0x80001000 0x20000 0x80010000 0x1000"
    by (simp add: splits_def)
  ultimately show ?thesis
    using alloc_split_leaks [OF s(1) al n] s(1) free by fastforce
qed


text \<open>
  A wrap-around. A request within a page of \<^verbatim>\<open>SIZE_MAX\<close> rounds up to zero bytes: it
  succeeds, returns the address of the first free byte, and reserves nothing.
\<close>

theorem alloc_size_wraps:
  assumes "alloc_ready buf s" and "pmm_whole s" and "pmm_view s = [fresh_view b l]"
    and "unat sz > 2 ^ 64 - 4096"
  shows "\<exists>w s'. pmm_alloc sz False s = Done (error_of SUCCESS, Some w, s') \<and> unat w = b \<and>
    pmm_view s' = [fresh_view b l] \<and> free_memory s' = free_memory s"
proof -
  have "unat (sz + mask 12) < 4096"
    using assms(4) unat_less_64 [of sz] by (simp add: unat_add_cases unat_mask_64)
  then have "unat (align_up sz PAGE_SIZE) = 0"
    unfolding PAGE_SIZE_eq align_up_eq_mask unat_and_not_mask by simp
  then have sz: "align_up sz PAGE_SIZE = 0" by (simp add: unat_eq_0)
  have "0 < l"
    using view_block(3) [of buf s 0 b l] assms(1,3)
    by (simp add: alloc_ready_def fresh_view_def area_ok_def)
  have pk: "pick 0 (pmm_view s) = Some 0"
    by (simp add: assms(3) pick_single fresh_view_def)
  show ?thesis
  proof (rule pmm_alloc_page_cases [OF assms(1,2), of sz])
    fix i w s'
    assume h: "pick (unat (align_up sz PAGE_SIZE)) (pmm_view s) = Some i"
      "pmm_alloc sz False s = Done (error_of SUCCESS, Some w, s')"
      "unat w = fst (the (av_block (pmm_view s ! i)))"
      "pmm_view s' = spec_update (unat (align_up sz PAGE_SIZE)) i (unat w) (pmm_view s)"
      "alloc_effect buf (unat w) (align_up sz PAGE_SIZE) s s'"
    have "i = 0" using h(1) pk sz by simp
    then have w: "unat w = b" using h(3) by (simp add: assms(3) fresh_view_def)
    have "pmm_view s' = [fresh_view b l]"
      using h(4) \<open>0 < l\<close> \<open>i = 0\<close> by (simp add: w sz assms(3) spec_update_def fresh_view_def carved_def)
    moreover have "free_memory s' = free_memory s"
      using h(5) by (simp add: alloc_effect_def sz)
    ultimately show ?thesis using h(2) w by blast
  qed (use pk sz in simp)
qed

theorem alloc_size_wraps_witness:
  "\<exists>s w s'. pmm_view s = [fresh_view 0x80000000 0x10000] \<and>
    pmm_alloc (- 1) False s = Done (error_of SUCCESS, Some w, s') \<and> pmm_view s' = pmm_view s"
proof -
  obtain s where s: "alloc_ready demo_buf s" "pmm_whole s"
    "pmm_view s = [fresh_view 0x80000000 0x10000]"
    by (rule demo_state [of "\<lambda>_. 0"]) blast
  have "unat (- 1 :: u64) > 2 ^ 64 - 4096" by (simp add: unsigned_minus_1_eq_mask mask_eq_exp_minus_1)
  from alloc_size_wraps [OF s this] s(3) show ?thesis by auto
qed

text \<open>
  A missing guard. An area of sixteen bytes that ends before the next page boundary
  is accepted: the subtraction of the gap wraps, both checks on the wrapped sizes pass,
  and the manager believes it owns all but a page of the address space.
\<close>

theorem add_region_accepts_short_area:
  "\<exists>s s'. pmm_initialize demo_buf FIRST_FIT (pmm_boot m) = Done s \<and>
    add_region 0x1001 0x10 s = Done (error_of SUCCESS, s') \<and>
    total_memory s' = - 0x1000 \<and> free_memory s' = - 0x1000"
proof -
  obtain s where s: "pmm_initialize demo_buf FIRST_FIT (pmm_boot m) = Done s" "pmm_inv demo_buf s"
    "active_regions s = []" "m_free (pm_block_allocator s) = 64" "pm_region_count s = 0"
    by (rule initialize_ok [OF demo_buf_ok, of FIRST_FIT m]) blast
  note D = pmm_invD [OF s(2)]
  have k: "used_nodes s = 0" "unat (m_free (pm_block_allocator s)) = 64"
    using s(4) by (simp_all add: used_nodes_def)
  obtain m1 sa1 where a1: "slab_alloc_block True 24 (pm_mem s, pm_block_allocator s) =
      Done (node_addr demo_buf 0, m1, sa1)"
    and rep1: "slab_rep 24 (m1, sa1) [(demo_buf, free_nodes demo_buf (Suc 0))]"
    and f1: "unat (m_free sa1) = 63"
  proof (rule alloc_node [OF demo_buf_ok _ D(3) _ D(4)])
  qed (use k that in simp_all)
  have two: "0 < unat (m_free sa1)" "unat (m_free sa1) \<le> 64" "Suc 0 = 64 - unat (m_free sa1)"
    using f1 by simp_all
  obtain m2 sa2 where a2: "slab_alloc_block True 24 (m1, sa1) = Done (node_addr demo_buf 1, m2, sa2)"
    by (rule alloc_node [OF demo_buf_ok two rep1]) (simp add: that)
  have nz: "node_addr demo_buf 0 \<noteq> 0" "node_addr demo_buf 1 \<noteq> 0"
    by (rule node_addr_nonzero [OF demo_buf_ok], simp)+
  have totals: "pm_total_bytes s = 0" "pm_free_bytes s = 0"
    using D(9,10) s(3) by simp_all
  show ?thesis
    using s(1,3,5) a1 a2 nz totals
    by (simp add: add_region_def align_up_def align_down_def Let_def REGION_COUNT_def PAGE_SIZE_def
        total_memory_def free_memory_def)
qed

end
