(* ===== verification/Sv39.thy ===== *)
theory Sv39
  imports Pmm_Pages "HOL-Library.Sublist"
begin

text \<open>
  The page tables of \<^verbatim>\<open>kernel/src/riscv/sv39.cpp\<close> and \<^verbatim>\<open>kernel/include/riscv/sv39.h\<close>.
  A page table is 512 entries of eight bytes in memory; the code reaches tables by
  their physical addresses. The operations work over any page supply; the model of the
  kernel is their instance for the physical memory manager.
\<close>

section \<open>Entries\<close>

definition sv39_PAGE_SIZE :: size_t where
  "sv39_PAGE_SIZE = 0x1000"

definition TEF_VALID :: u64 where "TEF_VALID = 0x01"
definition TEF_READ :: u64 where "TEF_READ = 0x02"
definition TEF_WRITE :: u64 where "TEF_WRITE = 0x04"
definition TEF_EXECUTE :: u64 where "TEF_EXECUTE = 0x08"
definition TEF_USER :: u64 where "TEF_USER = 0x10"
definition TEF_GLOBAL :: u64 where "TEF_GLOBAL = 0x20"
definition TEF_ACCESSED :: u64 where "TEF_ACCESSED = 0x40"
definition TEF_DIRTY :: u64 where "TEF_DIRTY = 0x80"

lemmas tef_defs = TEF_VALID_def TEF_READ_def TEF_WRITE_def TEF_EXECUTE_def TEF_USER_def
  TEF_GLOBAL_def TEF_ACCESSED_def TEF_DIRTY_def

text \<open>A \<^verbatim>\<open>table_entry\<close> is its one field \<^verbatim>\<open>m_entry\<close>.\<close>

type_synonym table_entry = u64

definition table_entry_of :: "paddr_t \<Rightarrow> u64 \<Rightarrow> table_entry" where
  "table_entry_of page_address flags = drop_bit 2 page_address OR flags"

definition NULL_TABLE_ENTRY :: table_entry where
  "NULL_TABLE_ENTRY = table_entry_of 0 0"

definition get_address :: "table_entry \<Rightarrow> paddr_t" where
  "get_address e = push_bit 12 (drop_bit 10 e)"

definition get_megapage_addr :: "table_entry \<Rightarrow> paddr_t" where
  "get_megapage_addr e = push_bit 21 (drop_bit 10 e)"

definition get_gigapage_addr :: "table_entry \<Rightarrow> paddr_t" where
  "get_gigapage_addr e = push_bit 30 (drop_bit 10 e)"

definition is_valid :: "table_entry \<Rightarrow> bool" where
  "is_valid e \<longleftrightarrow> 0 \<noteq> e AND TEF_VALID"

definition is_readable :: "table_entry \<Rightarrow> bool" where
  "is_readable e \<longleftrightarrow> 0 \<noteq> e AND TEF_READ"

definition is_writable :: "table_entry \<Rightarrow> bool" where
  "is_writable e \<longleftrightarrow> 0 \<noteq> e AND TEF_WRITE"

definition is_executable :: "table_entry \<Rightarrow> bool" where
  "is_executable e \<longleftrightarrow> 0 \<noteq> e AND TEF_EXECUTE"

definition is_leaf :: "table_entry \<Rightarrow> bool" where
  "is_leaf e \<longleftrightarrow> is_readable e \<or> is_writable e \<or> is_executable e"

section \<open>Tables\<close>

text \<open>\<^verbatim>\<open>alignof(page_table)\<close>: the alignment of an array of 64-bit integers.\<close>

definition alignof_page_table :: size_t where
  "alignof_page_table = 8"

definition entry_addr :: "u64 \<Rightarrow> u64 \<Rightarrow> u64" where
  "entry_addr table i = table + 8 * i"

definition entry_at :: "mem \<Rightarrow> u64 \<Rightarrow> u64 \<Rightarrow> table_entry" where
  "entry_at m table i = load64 m (entry_addr table i)"

definition set_entry :: "mem \<Rightarrow> u64 \<Rightarrow> u64 \<Rightarrow> table_entry \<Rightarrow> mem" where
  "set_entry m table i e = store64 m (entry_addr table i) e"

fun vpn :: "vaddr_t \<Rightarrow> nat \<Rightarrow> u64" where
  "vpn va level =
     (if level = 0 then drop_bit 12 va AND 0x1FF
      else if level = 1 then drop_bit 21 va AND 0x1FF
      else drop_bit 30 va AND 0x1FF)"

declare vpn.simps [simp del]

section \<open>Mapping\<close>

text \<open>
  The step that both upper levels repeat: make sure that an entry points to a table.
  \<open>Inl\<close> is an early return of the caller, \<open>Inr\<close> the error variable it goes on with. The
  allocation always writes \<^verbatim>\<open>page\<close>, since its \<^verbatim>\<open>ret\<close> argument is not null.
\<close>

definition ensure_table ::
  "'s page_ops \<Rightarrow> u64 \<Rightarrow> u64 \<Rightarrow> error \<Rightarrow> 's \<Rightarrow> ((error + error) \<times> 's) outcome" where
  "ensure_table ops table i err s =
     (if is_valid (entry_at (po_mem ops s) table i) then Done (Inr err, s)
      else bind_outcome (po_alloc ops sv39_PAGE_SIZE s) (\<lambda>(err', page, s').
        if is_err err' then Done (Inl (error_push err' PAGING_ALLOC_FAILED), s')
        else case page of
          None \<Rightarrow> Halt Unreachable
        | Some pa \<Rightarrow>
            Done (Inr err',
              po_put ops (set_entry (po_mem ops s') table i (table_entry_of pa TEF_VALID)) s')))"

definition map_page_with ::
  "'s page_ops \<Rightarrow> u64 \<Rightarrow> vaddr_t \<Rightarrow> paddr_t \<Rightarrow> u64 \<Rightarrow> 's \<Rightarrow> (error \<times> 's) outcome" where
  "map_page_with ops root va pa flags s =
     (if \<not> is_aligned va alignof_page_table \<or> \<not> is_aligned pa alignof_page_table
      then Done (error_of PAGING_UNALIGNED_ADDR, s)
      else bind_outcome (ensure_table ops root (vpn va 2) (error_of SUCCESS) s) (\<lambda>(r2, s2).
        case r2 of
          Inl err \<Rightarrow> Done (err, s2)
        | Inr err2 \<Rightarrow>
            let l1_pt = get_address (entry_at (po_mem ops s2) root (vpn va 2)) in
            bind_outcome (ensure_table ops l1_pt (vpn va 1) err2 s2) (\<lambda>(r1, s1).
              case r1 of
                Inl err \<Rightarrow> Done (err, s1)
              | Inr err1 \<Rightarrow>
                  let l0_pt = get_address (entry_at (po_mem ops s1) l1_pt (vpn va 1)) in
                  if is_valid (entry_at (po_mem ops s1) l0_pt (vpn va 0))
                  then Done (error_of PAGING_MAP_EXISTS, s1)
                  else Done (err1, po_put ops (set_entry (po_mem ops s1) l0_pt (vpn va 0)
                         (table_entry_of pa (flags OR TEF_VALID))) s1))))"

definition map_small_page ::
  "u64 \<Rightarrow> vaddr_t \<Rightarrow> paddr_t \<Rightarrow> u64 \<Rightarrow> pmm \<Rightarrow> (error \<times> pmm) outcome" where
  "map_small_page = map_page_with pmm_ops"

section \<open>Translation\<close>

text \<open>
  The \<^verbatim>\<open>switch\<close> on the level of a leaf. In the case of level 1 the code joins the two
  parts of the address with \<^verbatim>\<open>||\<close>, whose value is 0 or 1.
\<close>

definition leaf_addr :: "vaddr_t \<Rightarrow> nat \<Rightarrow> table_entry \<Rightarrow> paddr_t" where
  "leaf_addr va level pte =
     (if level = 2 then
        get_gigapage_addr pte OR push_bit 21 (vpn va 1) OR push_bit 12 (vpn va 0)
      else if level = 1 then
        of_bool (get_megapage_addr pte \<noteq> 0 \<or> push_bit 12 (vpn va 0) \<noteq> 0)
      else get_address pte)"

text \<open>The loop over the levels; running out of them is \<^verbatim>\<open>__builtin_unreachable\<close>.\<close>

fun walk :: "mem \<Rightarrow> vaddr_t \<Rightarrow> u64 \<Rightarrow> nat list \<Rightarrow> paddr_t outcome" where
  "walk m va table [] = Halt Unreachable"
| "walk m va table (level # levels) =
     (let pte = entry_at m table (vpn va level)
      in if \<not> is_valid pte then Done (- 1)
         else if is_leaf pte then Done (leaf_addr va level pte OR (va AND sv39_PAGE_SIZE))
         else walk m va (get_address pte) levels)"

definition virt_to_phys :: "mem \<Rightarrow> u64 \<Rightarrow> vaddr_t \<Rightarrow> paddr_t outcome" where
  "virt_to_phys m root va = walk m va root [2, 1, 0]"

section \<open>Bits of entries\<close>

lemma vpn_less: "unat (vpn va level) < 512"
proof -
  have "(0x1FF :: u64) = mask 9" by (simp add: mask_numeral)
  moreover have "unat (w AND mask 9 :: u64) < 2 ^ 9" for w
    using unat_take_bit_mod [of 9 w] by (simp add: take_bit_eq_mask)
  ultimately show ?thesis by (simp add: vpn.simps)
qed

lemma one_bits: "TEF_VALID = 2 ^ 0" "TEF_READ = 2 ^ 1" "TEF_WRITE = 2 ^ 2" "TEF_EXECUTE = 2 ^ 3"
  by (simp_all add: tef_defs)

lemma and_pow_eq_0: "(e :: u64) AND 2 ^ n \<noteq> 0 \<longleftrightarrow> bit e n"
proof
  assume "bit e n"
  then have "bit (e AND 2 ^ n) n" by (auto simp: bit_simps dest: bit_imp_le_length)
  then show "e AND 2 ^ n \<noteq> 0" by auto
next
  assume "e AND 2 ^ n \<noteq> 0"
  then obtain k where "bit (e AND 2 ^ n) k"
    by (metis bit_word_eqI bit_0_eq bot_apply bot_bool_def)
  then show "bit e n" by (auto simp: bit_simps)
qed

lemma entry_bits:
  "is_valid e \<longleftrightarrow> bit e 0" "is_readable e \<longleftrightarrow> bit e 1" "is_writable e \<longleftrightarrow> bit e 2"
  "is_executable e \<longleftrightarrow> bit e 3"
  using and_pow_eq_0 [of e] unfolding is_valid_def is_readable_def is_writable_def is_executable_def
    one_bits by metis+

lemma is_leaf_bits: "is_leaf e \<longleftrightarrow> bit e 1 \<or> bit e 2 \<or> bit e 3"
  by (simp add: is_leaf_def entry_bits)

lemma aligned_low_bits:
  assumes "4096 dvd unat (pa :: u64)" and "n < 12"
  shows "\<not> bit pa n"
proof -
  have "take_bit 12 pa = 0"
    using assms(1) by (simp add: unat_eq_0 [symmetric] unat_take_bit_mod dvd_eq_mod_eq_0)
  then show ?thesis
    using assms(2) by (metis bit_take_bit_iff bit_0_eq bot_apply bot_bool_def)
qed

lemma small_high_bits:
  assumes "f < (2 :: u64) ^ 10" and "10 \<le> n"
  shows "\<not> bit f n"
proof -
  have "unat f < 2 ^ 10"
    using assms(1) by (simp add: word_less_nat_alt)
  also have "\<dots> \<le> (2 :: nat) ^ n"
    using assms(2) by (intro power_increasing) simp_all
  finally have "\<not> bit (unat f) n"
    by (simp add: bit_iff_odd)
  then show ?thesis
    using bit_imp_le_length [of f n] by (auto simp: bit_unsigned_iff)
qed

text \<open>An entry made for a page-aligned address with flag bits below bit 10.\<close>

lemma table_entry_address:
  assumes "4096 dvd unat pa" and "flags < 2 ^ 10"
  shows "get_address (table_entry_of pa flags) = pa"
proof (rule bit_word_eqI)
  fix n assume "n < LENGTH(64)"
  then show "bit (get_address (table_entry_of pa flags)) n \<longleftrightarrow> bit pa n"
    using aligned_low_bits [OF assms(1), of n] small_high_bits [OF assms(2), of "n - 2"]
    by (cases "n < 12") (simp_all add: get_address_def table_entry_of_def bit_simps)
qed

lemma table_entry_flags:
  assumes "4096 dvd unat pa" and "n < 10"
  shows "bit (table_entry_of pa flags) n = bit flags n"
  using aligned_low_bits [OF assms(1), of "n + 2"] assms(2)
  by (simp add: table_entry_of_def bit_simps add.commute)

lemma table_entry_pointer:
  assumes "4096 dvd unat pa"
  shows "is_valid (table_entry_of pa TEF_VALID)" "\<not> is_leaf (table_entry_of pa TEF_VALID)"
    "get_address (table_entry_of pa TEF_VALID) = pa"
  using table_entry_flags [OF assms] table_entry_address [OF assms]
  by (simp_all add: entry_bits is_leaf_bits TEF_VALID_def bit_simps)

lemma zero_entry: "\<not> is_valid 0"
  by (simp add: is_valid_def)

section \<open>Tables in memory\<close>

definition table_ok :: "u64 \<Rightarrow> bool" where
  "table_ok t \<longleftrightarrow> 4096 dvd unat t \<and> unat t + 4096 \<le> phys_limit"

lemma unat_entry_addr:
  assumes "table_ok t" and "unat i < 512"
  shows "unat (entry_addr t i) = unat t + 8 * unat i"
proof -
  have t: "unat t + 4096 \<le> 2 ^ 56" using assms(1) by (simp add: table_ok_def phys_limit_def)
  have i: "unat (8 * i) = 8 * unat i"
    using assms(2) by (subst unat_mult_lem [THEN iffD1]) simp_all
  show ?thesis
    using t assms(2) unfolding entry_addr_def by (subst unat_add_nowrap) (simp_all add: i)
qed

lemma in_table:
  assumes "table_ok t"
  shows "in_range x (t, 4096) \<longleftrightarrow> unat t \<le> unat x \<and> unat x < unat t + 4096"
  using assms by (intro in_range_nowrap) (simp add: table_ok_def phys_limit_def)

lemma in_entry:
  assumes "table_ok t" and "unat i < 512"
  shows "in_range x (entry_addr t i, 8) \<longleftrightarrow>
    unat t + 8 * unat i \<le> unat x \<and> unat x < unat t + 8 * unat i + 8"
  using assms unat_entry_addr [OF assms]
  by (subst in_range_nowrap) (simp_all add: table_ok_def phys_limit_def)

lemma entry_in_table:
  assumes "table_ok t" and "unat i < 512" and "in_range x (entry_addr t i, 8)"
  shows "in_range x (t, 4096)"
  using assms by (simp add: in_table in_entry)

lemma tables_disj:
  assumes "table_ok t" and "table_ok u" and "t \<noteq> u" and "in_range x (t, 4096)"
  shows "\<not> in_range x (u, 4096)"
proof
  assume "in_range x (u, 4096)"
  then have "unat x div 4096 = unat u div 4096" "unat x div 4096 = unat t div 4096"
    using assms by (auto simp: in_table table_ok_def elim!: dvdE)
  then have "unat t = unat u"
    using assms(1,2) by (auto simp: table_ok_def elim!: dvdE)
  with assms(3) show False by (simp add: word_unat_eq_iff)
qed

lemma entry_set_entry:
  assumes "table_ok t" and "table_ok u" and "unat i < 512" and "unat j < 512"
  shows "entry_at (set_entry m t i e) u j = (if t = u \<and> i = j then e else entry_at m u j)"
proof (cases "t = u \<and> i = j")
  case False
  have "\<not> in_range x (entry_addr t i, 8)" if x: "in_range x (entry_addr u j, 8)" for x
  proof
    assume x': "in_range x (entry_addr t i, 8)"
    have "t = u"
      using tables_disj [OF assms(1,2) _ entry_in_table [OF assms(1,3) x']]
        entry_in_table [OF assms(2,4) x] by blast
    then have "unat i = unat j"
      using x x' assms by (simp add: in_entry)
    with False \<open>t = u\<close> show False by (simp add: word_unat_eq_iff)
  qed
  then have "entry_at (set_entry m t i e) u j = entry_at m u j"
    unfolding entry_at_def set_entry_def by (intro load64_frame store64_other) blast
  with False show ?thesis by auto
qed (simp add: entry_at_def set_entry_def)

lemma entry_frame:
  assumes "table_ok t" and "unat i < 512" and "\<And>x. in_range x (t, 4096) \<Longrightarrow> m' x = m x"
  shows "entry_at m' t i = entry_at m t i"
  unfolding entry_at_def
  by (intro load64_frame assms(3) entry_in_table [OF assms(1,2)])

lemma entry_zero:
  assumes "table_ok t" and "unat i < 512" and "\<And>x. in_range x (t, 4096) \<Longrightarrow> m x = 0"
  shows "entry_at m t i = 0"
proof -
  have "load64 m (entry_addr t i) = load64 (fill m (entry_addr t i) 0 8) (entry_addr t i)"
    using assms(3) [OF entry_in_table [OF assms(1,2)]]
    by (intro load64_frame) (simp add: fill_eq)
  then show ?thesis
    using load64_fill_zero [of "entry_addr t i" "entry_addr t i" 8] by (simp add: entry_at_def)
qed

section \<open>The tree of tables\<close>

text \<open>
  The table that a path of indices leads to. A page-table tree has tables at paths of
  length at most two, no table at two paths, and pointers, not leaves, in its upper two
  levels.
\<close>

fun table_at :: "mem \<Rightarrow> u64 \<Rightarrow> u64 list \<Rightarrow> u64 option" where
  "table_at m t [] = Some t"
| "table_at m t (i # is) =
     (if is_valid (entry_at m t i) then table_at m (get_address (entry_at m t i)) is else None)"

definition path_ok :: "u64 list \<Rightarrow> bool" where
  "path_ok p \<longleftrightarrow> length p \<le> 2 \<and> (\<forall>i \<in> set p. unat i < 512)"

definition pt_ok :: "mem \<Rightarrow> u64 \<Rightarrow> bool" where
  "pt_ok m root \<longleftrightarrow>
     (\<forall>p t. path_ok p \<longrightarrow> table_at m root p = Some t \<longrightarrow> table_ok t) \<and>
     (\<forall>p q t. path_ok p \<longrightarrow> path_ok q \<longrightarrow>
       table_at m root p = Some t \<longrightarrow> table_at m root q = Some t \<longrightarrow> p = q) \<and>
     (\<forall>p t i. path_ok (p @ [i]) \<longrightarrow> table_at m root p = Some t \<longrightarrow> \<not> is_leaf (entry_at m t i))"

definition pt_pages :: "mem \<Rightarrow> u64 \<Rightarrow> u64 set" where
  "pt_pages m root = {x. \<exists>p t. path_ok p \<and> table_at m root p = Some t \<and> in_range x (t, 4096)}"

text \<open>The entry of the last level that a virtual address selects.\<close>

definition lookup :: "mem \<Rightarrow> u64 \<Rightarrow> vaddr_t \<Rightarrow> table_entry option" where
  "lookup m root va =
     (case table_at m root [vpn va 2, vpn va 1] of
        None \<Rightarrow> None
      | Some t \<Rightarrow> (let e = entry_at m t (vpn va 0) in if is_valid e then Some e else None))"

definition same_page :: "vaddr_t \<Rightarrow> vaddr_t \<Rightarrow> bool" where
  "same_page va vb \<longleftrightarrow> vpn va 0 = vpn vb 0 \<and> vpn va 1 = vpn vb 1 \<and> vpn va 2 = vpn vb 2"

lemma table_at_snoc:
  "table_at m t (p @ [i]) =
    (case table_at m t p of None \<Rightarrow> None
     | Some u \<Rightarrow> if is_valid (entry_at m u i) then Some (get_address (entry_at m u i)) else None)"
  by (induction p arbitrary: t) auto

lemma path_ok_prefix: "path_ok (p @ [i]) \<Longrightarrow> path_ok p" "path_ok (p @ [i]) \<Longrightarrow> unat i < 512"
  by (auto simp: path_ok_def)

lemma path_ok_vpn [simp]: "path_ok []" "path_ok [vpn va k]" "path_ok [vpn va k, vpn va l]"
  by (simp_all add: path_ok_def vpn_less)

lemma pt_okD:
  assumes "pt_ok m root"
  shows "path_ok p \<Longrightarrow> table_at m root p = Some t \<Longrightarrow> table_ok t"
    and "path_ok p \<Longrightarrow> path_ok q \<Longrightarrow> table_at m root p = Some t \<Longrightarrow> table_at m root q = Some t \<Longrightarrow> p = q"
    and "path_ok (p @ [i]) \<Longrightarrow> table_at m root p = Some t \<Longrightarrow> \<not> is_leaf (entry_at m t i)"
  using assms unfolding pt_ok_def by blast+

lemma pt_okI:
  assumes "\<And>p t. path_ok p \<Longrightarrow> table_at m root p = Some t \<Longrightarrow> table_ok t"
    and "\<And>p q t. path_ok p \<Longrightarrow> path_ok q \<Longrightarrow> table_at m root p = Some t \<Longrightarrow>
      table_at m root q = Some t \<Longrightarrow> p = q"
    and "\<And>p t i. path_ok (p @ [i]) \<Longrightarrow> table_at m root p = Some t \<Longrightarrow> \<not> is_leaf (entry_at m t i)"
  shows "pt_ok m root"
  using assms unfolding pt_ok_def by blast

lemma virt_to_phys_lookup:
  assumes "pt_ok m root"
  shows "virt_to_phys m root va =
    (case lookup m root va of
       None \<Rightarrow> Done (- 1)
     | Some e \<Rightarrow> if is_leaf e then Done (get_address e OR (va AND sv39_PAGE_SIZE))
                 else Halt Unreachable)"
proof -
  have leaf2: "\<not> is_leaf (entry_at m root (vpn va 2))"
    by (rule pt_okD(3) [OF assms, of "[]"]) simp_all
  have leaf1: "\<not> is_leaf (entry_at m t (vpn va 1))" if "table_at m root [vpn va 2] = Some t" for t
    by (rule pt_okD(3) [OF assms _ that]) simp
  show ?thesis
    using leaf2 leaf1
    by (auto simp: virt_to_phys_def lookup_def Let_def leaf_addr_def)
qed

text \<open>Memory outside the tables does not matter.\<close>

lemma table_at_frame:
  assumes "pt_ok m root" and "\<forall>x \<in> pt_pages m root. m' x = m x" and "path_ok p"
  shows "table_at m' root p = table_at m root p"
  using assms(3)
proof (induction p rule: rev_induct)
  case (snoc i p)
  note p = path_ok_prefix [OF snoc.prems]
  have "entry_at m' u i = entry_at m u i" if "table_at m root p = Some u" for u
    using pt_okD(1) [OF assms(1) p(1) that] p that
    by (intro entry_frame assms(2) [rule_format]) (auto simp: pt_pages_def)
  then show ?case
    using snoc.IH [OF p(1)] by (auto simp: table_at_snoc split: option.split)
qed simp

lemma entry_at_frame:
  assumes "pt_ok m root" and "\<forall>x \<in> pt_pages m root. m' x = m x"
    and "path_ok p" and "table_at m root p = Some t" and "unat i < 512"
  shows "entry_at m' t i = entry_at m t i"
  using pt_okD(1) [OF assms(1,3,4)] assms(3-5)
  by (intro entry_frame assms(2) [rule_format]) (auto simp: pt_pages_def)

lemma pt_frame:
  assumes "pt_ok m root" and "\<forall>x \<in> pt_pages m root. m' x = m x"
  shows "pt_ok m' root" "pt_pages m' root = pt_pages m root" "lookup m' root va = lookup m root va"
proof -
  note tab = table_at_frame [OF assms] and ent = entry_at_frame [OF assms]
  show "pt_pages m' root = pt_pages m root"
    using tab by (auto simp: pt_pages_def)
  show "pt_ok m' root"
  proof (rule pt_okI)
    fix p t i assume h: "path_ok (p @ [i])" "table_at m' root p = Some t"
    then have "table_at m root p = Some t" using tab path_ok_prefix(1) by simp
    then show "\<not> is_leaf (entry_at m' t i)"
      using pt_okD(3) [OF assms(1) h(1)] ent path_ok_prefix [OF h(1)] by simp
  qed (use tab pt_okD(1,2) [OF assms(1)] in simp_all)
  show "lookup m' root va = lookup m root va"
    using tab [of "[vpn va 2, vpn va 1]"] ent [of "[vpn va 2, vpn va 1]" _ "vpn va 0"]
    by (auto simp: lookup_def vpn_less split: option.split)
qed

text \<open>Writing one entry changes only what lies below it.\<close>

lemma table_at_set:
  assumes pt: "pt_ok m root" and p: "path_ok p" "table_at m root p = Some t" and i: "unat i < 512"
    and q: "path_ok q" "\<not> prefix (p @ [i]) q"
  shows "table_at (set_entry m t i e) root q = table_at m root q"
  using q
proof (induction q rule: rev_induct)
  case (snoc j q)
  note pq = path_ok_prefix [OF snoc.prems(1)]
  have np: "\<not> prefix (p @ [i]) q" "\<not> (p = q \<and> i = j)"
    using snoc.prems(2) by auto
  have "entry_at (set_entry m t i e) u j = entry_at m u j" if u: "table_at m root q = Some u" for u
  proof -
    have "t = u \<Longrightarrow> p = q" using pt_okD(2) [OF pt p(1) pq(1) p(2)] u by simp
    then show ?thesis
      using np(2) entry_set_entry [OF pt_okD(1) [OF pt p] pt_okD(1) [OF pt pq(1) u] i pq(2)]
      by auto
  qed
  then show ?case
    using snoc.IH [OF pq(1) np(1)] by (auto simp: table_at_snoc split: option.split)
qed simp

lemma entry_at_set:
  assumes "pt_ok m root" and "path_ok p" "table_at m root p = Some t" "unat i < 512"
    and "path_ok q" "table_at m root q = Some u" "unat j < 512"
  shows "entry_at (set_entry m t i e) u j = (if p = q \<and> i = j then e else entry_at m u j)"
  using entry_set_entry [OF pt_okD(1) [OF assms(1-3)] pt_okD(1) [OF assms(1,5,6)] assms(4,7)]
    pt_okD(2) [OF assms(1,2,5,3)] assms(3,6) by auto

text \<open>Hanging a zeroed page under an invalid entry adds one empty table.\<close>

lemma pt_link_tables:
  assumes pt: "pt_ok m root" and pi: "path_ok (p @ [i])" and p: "table_at m root p = Some t"
    and free: "\<not> is_valid (entry_at m t i)" and page: "table_ok page"
    and fresh: "\<forall>x. in_range x (page, 4096) \<longrightarrow> x \<notin> pt_pages m root \<and> m x = 0"
    and q: "path_ok q" and m': "m' = set_entry m t i (table_entry_of page TEF_VALID)"
  shows "table_at m' root q = (if q = p @ [i] then Some page else table_at m root q)"
    and "unat j < 512 \<Longrightarrow> entry_at m' page j = 0"
proof -
  note pok = path_ok_prefix [OF pi]
  have t: "table_ok t" by (rule pt_okD(1) [OF pt pok(1) p])
  have "in_range page (page, 4096)" by (simp add: in_range_def)
  then have "page \<noteq> t"
    using spec [OF fresh, of page] pok(1) p by (auto simp: pt_pages_def)
  then have zero: "entry_at m' page j = 0" if "unat j < 512" for j
    using entry_set_entry [OF t page pok(2) that] entry_zero [OF page that] fresh by (simp add: m')
  then show "unat j < 512 \<Longrightarrow> entry_at m' page j = 0" .
  have "4096 dvd unat page" using page by (simp add: table_ok_def)
  note ptr = table_entry_pointer [OF this]
  have "entry_at m' t i = table_entry_of page TEF_VALID"
    using entry_at_set [OF pt pok(1) p pok(2) pok(1) p pok(2)] by (simp add: m')
  moreover have "table_at m' root p = Some t"
    using table_at_set [OF pt pok(1) p pok(2) pok(1)] p by (simp add: m')
  ultimately have at: "table_at m' root (p @ [i]) = Some page"
    using ptr by (simp add: table_at_snoc)
  have "r = [] \<or> (\<exists>j. r = [j])" if "q = (p @ [i]) @ r" for r
    using q pi that by (cases r) (auto simp: path_ok_def)
  then consider "q = p @ [i]" | "\<not> prefix (p @ [i]) q" | j where "q = (p @ [i]) @ [j]"
    unfolding prefix_def by fastforce
  then show "table_at m' root q = (if q = p @ [i] then Some page else table_at m root q)"
  proof cases
    case 2
    then show ?thesis
      using table_at_set [OF pt pok(1) p pok(2) q] prefix_order.refl by (auto simp: m')
  next
    case (3 j)
    then have "unat j < 512" using q by (simp add: path_ok_def)
    then have "table_at m' root q = None"
      using zero zero_entry unfolding 3 table_at_snoc [of m' root "p @ [i]"] at by simp
    moreover have "table_at m root q = None"
      using free p unfolding 3 by (simp add: table_at_snoc del: append_assoc)
    ultimately show ?thesis using 3 by simp
  qed (use at in simp)
qed

lemma pt_pages_link:
  assumes tab: "\<And>q. path_ok q \<Longrightarrow> table_at m' root q = (if q = r then Some page else table_at m root q)"
    and r: "path_ok r" "table_at m root r = None"
  shows "pt_pages m' root = pt_pages m root \<union> {x. in_range x (page, 4096)}"
proof (intro equalityI subsetI)
  fix x assume "x \<in> pt_pages m' root"
  then obtain q u where "path_ok q" "table_at m' root q = Some u" "in_range x (u, 4096)"
    by (auto simp: pt_pages_def)
  then show "x \<in> pt_pages m root \<union> {x. in_range x (page, 4096)}"
    using tab [of q] by (auto simp: pt_pages_def split: if_splits)
next
  fix x assume "x \<in> pt_pages m root \<union> {x. in_range x (page, 4096)}"
  then consider "in_range x (page, 4096)"
    | q u where "path_ok q" "table_at m root q = Some u" "in_range x (u, 4096)"
    by (auto simp: pt_pages_def)
  then show "x \<in> pt_pages m' root"
  proof cases
    case 1
    then show ?thesis using tab [OF r(1)] r(1) by (auto simp: pt_pages_def)
  next
    case (2 q u)
    then have "table_at m' root q = Some u" using tab [OF 2(1)] r(2) by auto
    then show ?thesis using 2 by (auto simp: pt_pages_def)
  qed
qed

lemma pt_link:
  assumes pt: "pt_ok m root" and pi: "path_ok (p @ [i])" and p: "table_at m root p = Some t"
    and free: "\<not> is_valid (entry_at m t i)" and page: "table_ok page"
    and fresh: "\<forall>x. in_range x (page, 4096) \<longrightarrow> x \<notin> pt_pages m root \<and> m x = 0"
    and m': "m' = set_entry m t i (table_entry_of page TEF_VALID)"
  shows "pt_ok m' root" and "pt_pages m' root = pt_pages m root \<union> {x. in_range x (page, 4096)}"
    and "lookup m' root va = lookup m root va" and "entry_at m' t i = table_entry_of page TEF_VALID"
proof -
  note tab = pt_link_tables [OF assms(1-6) _ m']
  note pok = path_ok_prefix [OF pi]
  have none: "table_at m root (p @ [i]) = None" using free p by (simp add: table_at_snoc)
  have ptr: "\<not> is_leaf (table_entry_of page TEF_VALID)"
    using page by (intro table_entry_pointer) (simp add: table_ok_def)
  have ent: "entry_at m' u j = (if p = q \<and> i = j then table_entry_of page TEF_VALID else entry_at m u j)"
    if "path_ok q" "table_at m root q = Some u" "unat j < 512" for q u j
    using entry_at_set [OF pt pok(1) p pok(2) that] by (simp add: m')
  then show "entry_at m' t i = table_entry_of page TEF_VALID" using pok p by simp
  have new: "table_at m root q \<noteq> Some page" if "path_ok q" for q
    using that spec [OF fresh, of page] by (auto simp: pt_pages_def in_range_def)
  have "\<not> is_leaf (entry_at m' u j)" if h: "path_ok (q @ [j])" "table_at m' root q = Some u" for q u j
  proof (cases "q = p @ [i]")
    case True
    then have "u = page" using h tab(1) [of q] path_ok_prefix by auto
    then show ?thesis using tab(2) path_ok_prefix [OF h(1)] by (simp add: is_leaf_bits)
  next
    case False
    then have "table_at m root q = Some u" using h tab(1) [of q] path_ok_prefix by auto
    then show ?thesis
      using ent [of q u j] pt_okD(3) [OF pt h(1)] path_ok_prefix [OF h(1)] ptr by simp
  qed
  moreover have "table_ok u" if "path_ok q" "table_at m' root q = Some u" for q u
    using tab(1) [OF that(1)] that page pt_okD(1) [OF pt that(1)] by (auto split: if_splits)
  moreover have "q = q'" if "path_ok q" "path_ok q'" "table_at m' root q = Some u"
    "table_at m' root q' = Some u" for q q' u
    using tab(1) that new pt_okD(2) [OF pt that(1,2)] by (auto split: if_splits)
  ultimately show "pt_ok m' root" unfolding pt_ok_def by blast
  show "pt_pages m' root = pt_pages m root \<union> {x. in_range x (page, 4096)}"
    by (rule pt_pages_link [OF tab(1) pi none])
  show "lookup m' root va = lookup m root va"
  proof (cases "[vpn va 2, vpn va 1] = p @ [i]")
    case True
    then have "table_at m' root [vpn va 2, vpn va 1] = Some page"
      "table_at m root [vpn va 2, vpn va 1] = None"
      using tab(1) [OF pi] none unfolding True by simp_all
    then show ?thesis
      using tab(2) [OF pi vpn_less] zero_entry by (simp add: lookup_def del: table_at.simps)
  next
    case False
    then have same: "table_at m' root [vpn va 2, vpn va 1] = table_at m root [vpn va 2, vpn va 1]"
      using tab(1) [OF path_ok_vpn(3)] by (simp only: if_False)
    have "p \<noteq> [vpn va 2, vpn va 1]" using pi by (auto simp: path_ok_def)
    then show ?thesis
      using ent [of "[vpn va 2, vpn va 1]" _ "vpn va 0"] unfolding lookup_def same
      by (auto simp: vpn_less split: option.split)
  qed
qed

text \<open>Writing an entry of the last level changes one translation.\<close>

lemma pt_map:
  assumes pt: "pt_ok m root" and p: "table_at m root [vpn va 2, vpn va 1] = Some t"
    and m': "m' = set_entry m t (vpn va 0) e"
  shows "pt_ok m' root" and "pt_pages m' root = pt_pages m root"
    and "lookup m' root vb =
      (if same_page vb va then (if is_valid e then Some e else None) else lookup m root vb)"
proof -
  let ?p = "[vpn va 2, vpn va 1]"
  have tab: "table_at m' root q = table_at m root q" if q: "path_ok q" for q
  proof -
    have "\<not> prefix (?p @ [vpn va 0]) q"
      using q by (auto simp: path_ok_def dest: prefix_length_le)
    then show ?thesis
      unfolding m' by (intro table_at_set [OF pt _ p vpn_less q]) simp
  qed
  have ent: "entry_at m' u j = (if ?p = q \<and> vpn va 0 = j then e else entry_at m u j)"
    if "path_ok q" "table_at m root q = Some u" "unat j < 512" for q u j
    unfolding m' by (rule entry_at_set [OF pt _ p vpn_less that]) simp
  show "pt_pages m' root = pt_pages m root"
    using tab by (auto simp: pt_pages_def)
  show "pt_ok m' root"
  proof (rule pt_okI)
    fix q u j assume h: "path_ok (q @ [j])" "table_at m' root q = Some u"
    then have u: "table_at m root q = Some u" using tab path_ok_prefix(1) by simp
    have "?p \<noteq> q" using h(1) by (auto simp: path_ok_def)
    then show "\<not> is_leaf (entry_at m' u j)"
      using ent [OF _ u] pt_okD(3) [OF pt h(1) u] path_ok_prefix [OF h(1)] by simp
  qed (use tab pt_okD(1,2) [OF pt] in simp_all)
  show "lookup m' root vb =
      (if same_page vb va then (if is_valid e then Some e else None) else lookup m root vb)"
    using tab [of "[vpn vb 2, vpn vb 1]"] ent [of "[vpn vb 2, vpn vb 1]" _ "vpn vb 0"] p
    by (auto simp: lookup_def same_page_def vpn_less simp del: table_at.simps split: option.split)
qed

section \<open>Mapping over a page supply\<close>

text \<open>The tables are the client's own memory: no table lies in what the supply owns.\<close>

definition pt_sound :: "'s page_ops \<Rightarrow> ('s \<Rightarrow> u64 set) \<Rightarrow> u64 \<Rightarrow> 's \<Rightarrow> bool" where
  "pt_sound ops owned root s \<longleftrightarrow>
     pt_ok (po_mem ops s) root \<and> pt_pages (po_mem ops s) root \<inter> owned s = {}"

text \<open>What a step keeps: memory that is neither the supply's nor a table is not written.\<close>

definition pt_step :: "'s page_ops \<Rightarrow> ('s \<Rightarrow> u64 set) \<Rightarrow> u64 \<Rightarrow> 's \<Rightarrow> 's \<Rightarrow> bool" where
  "pt_step ops owned root s s' \<longleftrightarrow>
     pt_sound ops owned root s' \<and> owned s' \<subseteq> owned s \<and>
     pt_pages (po_mem ops s') root \<subseteq> pt_pages (po_mem ops s) root \<union> owned s \<and>
     (\<forall>x. x \<notin> owned s \<longrightarrow> x \<notin> pt_pages (po_mem ops s) root \<longrightarrow> po_mem ops s' x = po_mem ops s x)"

definition alloc_failed :: error where
  "alloc_failed = error_push (error_of PMM_OUT_OF_MEM) PAGING_ALLOC_FAILED"

lemma pt_step_refl: "pt_sound ops owned root s \<Longrightarrow> pt_step ops owned root s s"
  by (auto simp: pt_step_def)

lemma pt_step_trans:
  assumes "pt_step ops owned root s s1" and "pt_step ops owned root s1 s2"
  shows "pt_step ops owned root s s2"
proof -
  note a = assms(1) [unfolded pt_step_def] and b = assms(2) [unfolded pt_step_def]
  have "po_mem ops s2 x = po_mem ops s x"
    if "x \<notin> owned s" "x \<notin> pt_pages (po_mem ops s) root" for x
  proof -
    have "x \<notin> owned s1" "x \<notin> pt_pages (po_mem ops s1) root" using a that by blast+
    then show ?thesis using a b that by simp
  qed
  moreover have "owned s2 \<subseteq> owned s"
    "pt_pages (po_mem ops s2) root \<subseteq> pt_pages (po_mem ops s) root \<union> owned s"
    using a b by blast+
  ultimately show ?thesis using b unfolding pt_step_def by blast
qed

lemma set_entry_other:
  assumes "pt_ok m root" and "path_ok p" and "table_at m root p = Some t" and "unat i < 512"
    and "x \<notin> pt_pages m root"
  shows "set_entry m t i e x = m x"
  unfolding set_entry_def
  using entry_in_table [OF pt_okD(1) [OF assms(1-3)] assms(4)] assms(2,3,5)
  by (intro store64_other) (auto simp: pt_pages_def)

context page_supply
begin

lemma page_area:
  "request_area w sv39_PAGE_SIZE = (w, 4096)"
  by (simp add: request_area_def sv39_PAGE_SIZE_def align_up_def)

text \<open>Writing an entry of one of the tables keeps the supply's invariant.\<close>

lemma put_entry:
  assumes "inv s" and "pt_sound ops owned root s" and "path_ok p"
    and "table_at (po_mem ops s) root p = Some t" and "unat i < 512"
  shows "inv (po_put ops (set_entry (po_mem ops s) t i e) s)"
    and "owned (po_put ops (set_entry (po_mem ops s) t i e) s) = owned s"
proof -
  have "set_entry (po_mem ops s) t i e x = po_mem ops s x" if "x \<in> owned s" for x
    using assms(2) that
    by (intro set_entry_other [OF _ assms(3-5)]) (auto simp: pt_sound_def)
  then show "inv (po_put ops (set_entry (po_mem ops s) t i e) s)"
    "owned (po_put ops (set_entry (po_mem ops s) t i e) s) = owned s"
    using put_inv [OF assms(1)] put_owned [OF assms(1)] by blast+
qed

lemma ensure_table_alloc:
  assumes inv: "inv s" and pt: "pt_sound ops owned root s" and pi: "path_ok (p @ [i])"
    and p: "table_at (po_mem ops s) root p = Some t"
    and free: "\<not> is_valid (entry_at (po_mem ops s) t i)"
    and al: "po_alloc ops sv39_PAGE_SIZE s = Done (error_of SUCCESS, r, s1)"
  obtains w where "r = Some w"
    and "inv (po_put ops (set_entry (po_mem ops s1) t i (table_entry_of w TEF_VALID)) s1)"
    and "pt_step ops owned root s
      (po_put ops (set_entry (po_mem ops s1) t i (table_entry_of w TEF_VALID)) s1)"
    and "\<And>va. lookup (set_entry (po_mem ops s1) t i (table_entry_of w TEF_VALID)) root va =
      lookup (po_mem ops s) root va"
    and "table_at (set_entry (po_mem ops s1) t i (table_entry_of w TEF_VALID)) root (p @ [i]) = Some w"
    and "entry_at (set_entry (po_mem ops s1) t i (table_entry_of w TEF_VALID)) t i =
      table_entry_of w TEF_VALID"
proof -
  obtain w where w: "r = Some w" "inv s1" "4096 dvd unat w"
    "unat w + unat (align_up sv39_PAGE_SIZE 0x1000) \<le> 2 ^ 56"
    "area_bytes (request_area w sv39_PAGE_SIZE) \<subseteq> owned s"
    "owned s1 \<subseteq> owned s - area_bytes (request_area w sv39_PAGE_SIZE)"
    "\<forall>x \<in> area_bytes (request_area w sv39_PAGE_SIZE). po_mem ops s1 x = 0"
    "\<forall>x. x \<notin> owned s \<longrightarrow> po_mem ops s1 x = po_mem ops s x"
    using alloc_ok [OF inv al] by blast
  let ?m = "po_mem ops s" and ?m1 = "po_mem ops s1"
  let ?m2 = "set_entry ?m1 t i (table_entry_of w TEF_VALID)"
  note ptD = pt [unfolded pt_sound_def] and pok = path_ok_prefix [OF pi]
  have page: "table_ok w"
    using w(3,4) by (simp add: table_ok_def phys_limit_def sv39_PAGE_SIZE_def align_up_def)
  have "\<forall>x \<in> pt_pages ?m root. ?m1 x = ?m x"
    using w(8) ptD by blast
  note fr = pt_frame [OF conjunct1 [OF ptD] this]
    table_at_frame [OF conjunct1 [OF ptD] this]
    entry_at_frame [OF conjunct1 [OF ptD] this pok(1) p pok(2)]
  have p1: "table_at ?m1 root p = Some t" using fr(4) [OF pok(1)] p by simp
  have free1: "\<not> is_valid (entry_at ?m1 t i)" using fr(5) free by simp
  have "\<forall>x. in_range x (w, 4096) \<longrightarrow> x \<notin> pt_pages ?m1 root \<and> ?m1 x = 0"
    using w(5,7) ptD fr(2) unfolding page_area by (auto simp: area_bytes_def)
  note link = pt_link [OF fr(1) pi p1 free1 page this refl]
    pt_link_tables(1) [OF fr(1) pi p1 free1 page this pi refl]
  have sound1: "pt_sound ops owned root s1"
    using fr(1,2) w(6) ptD by (auto simp: pt_sound_def)
  note put = put_entry [OF w(2) sound1 pok(1) p1 pok(2), of "table_entry_of w TEF_VALID"]
  have "pt_step ops owned root s (po_put ops ?m2 s1)"
    unfolding pt_step_def pt_sound_def put put_mem
  proof (intro conjI allI impI)
    show "pt_pages ?m2 root \<inter> owned s1 = {}"
      using link(2) fr(2) w(5,6) ptD unfolding page_area by (auto simp: area_bytes_def)
    show "pt_pages ?m2 root \<subseteq> pt_pages ?m root \<union> owned s"
      using link(2) fr(2) w(5) unfolding page_area by (auto simp: area_bytes_def)
    show "?m2 x = ?m x" if "x \<notin> owned s" "x \<notin> pt_pages ?m root" for x
      using set_entry_other [OF fr(1) pok(1) p1 pok(2)] that fr(2) w(8) by simp
  qed (use link(1) w(6) in auto)
  then show ?thesis
    using that [OF w(1) put(1)] link(3,4,5) fr(3) by simp
qed

lemma ensure_table_cases:
  assumes inv: "inv s" and pt: "pt_sound ops owned root s" and pi: "path_ok (p @ [i])"
    and p: "table_at (po_mem ops s) root p = Some t"
    and run: "ensure_table ops t i (error_of SUCCESS) s = Done (r, s')"
  obtains (full) "r = Inl alloc_failed" "s' = s"
      "table_at (po_mem ops s) root (p @ [i]) = None"
  | (table) "r = Inr (error_of SUCCESS)" "inv s'" "pt_step ops owned root s s'"
      "\<And>va. lookup (po_mem ops s') root va = lookup (po_mem ops s) root va"
      "table_at (po_mem ops s') root (p @ [i]) = Some (get_address (entry_at (po_mem ops s') t i))"
proof (cases "is_valid (entry_at (po_mem ops s) t i)")
  case True
  then have "r = Inr (error_of SUCCESS)" "s' = s" using run by (auto simp: ensure_table_def)
  then show ?thesis
    using table inv pt_step_refl [OF pt] True p by (simp add: table_at_snoc)
next
  case False
  obtain e pg s1 where al: "po_alloc ops sv39_PAGE_SIZE s = Done (e, pg, s1)"
    using run False by (cases "po_alloc ops sv39_PAGE_SIZE s") (auto simp: ensure_table_def)
  consider "e = error_of SUCCESS" | "e = error_of PMM_OUT_OF_MEM" "s1 = s"
    using alloc_err [OF inv al] by blast
  then show ?thesis
  proof cases
    case 1
    obtain w where w: "pg = Some w"
      "inv (po_put ops (set_entry (po_mem ops s1) t i (table_entry_of w TEF_VALID)) s1)"
      "pt_step ops owned root s
        (po_put ops (set_entry (po_mem ops s1) t i (table_entry_of w TEF_VALID)) s1)"
      "\<And>va. lookup (set_entry (po_mem ops s1) t i (table_entry_of w TEF_VALID)) root va =
        lookup (po_mem ops s) root va"
      "table_at (set_entry (po_mem ops s1) t i (table_entry_of w TEF_VALID)) root (p @ [i]) = Some w"
      "entry_at (set_entry (po_mem ops s1) t i (table_entry_of w TEF_VALID)) t i =
        table_entry_of w TEF_VALID"
      by (rule ensure_table_alloc [OF inv pt pi p False al [unfolded 1]]) blast
    have "pt_ok (set_entry (po_mem ops s1) t i (table_entry_of w TEF_VALID)) root"
      using w(3) by (simp add: pt_step_def pt_sound_def put_mem)
    from pt_okD(1) [OF this pi w(5)] have "get_address (table_entry_of w TEF_VALID) = w"
      by (intro table_entry_pointer) (simp add: table_ok_def)
    moreover have "r = Inr (error_of SUCCESS)"
      "s' = po_put ops (set_entry (po_mem ops s1) t i (table_entry_of w TEF_VALID)) s1"
      using run False al 1 w(1) by (simp_all add: ensure_table_def)
    ultimately show ?thesis using table w by (simp add: put_mem)
  next
    case 2
    then have "r = Inl alloc_failed" "s' = s"
      using run False al by (simp_all add: ensure_table_def alloc_failed_def)
    then show ?thesis using full False p by (simp add: table_at_snoc)
  qed
qed

text \<open>Every way a call with aligned addresses can return.\<close>

definition same_lookups :: "u64 \<Rightarrow> 's \<Rightarrow> 's \<Rightarrow> bool" where
  "same_lookups root s s' \<longleftrightarrow>
     (\<forall>va. lookup (po_mem ops s') root va = lookup (po_mem ops s) root va)"

lemma map_page_cases:
  assumes inv: "inv s" and pt: "pt_sound ops owned root s"
    and aligned: "is_aligned va alignof_page_table" "is_aligned pa alignof_page_table"
    and run: "map_page_with ops root va pa flags s = Done (e, s')"
  shows "inv s' \<and> pt_step ops owned root s s' \<and>
    (e = alloc_failed \<and> same_lookups root s s' \<and> lookup (po_mem ops s) root va = None \<or>
     e = error_of PAGING_MAP_EXISTS \<and> same_lookups root s s' \<and>
       lookup (po_mem ops s) root va \<noteq> None \<or>
     e = error_of SUCCESS \<and> lookup (po_mem ops s) root va = None \<and>
       (\<forall>vb. lookup (po_mem ops s') root vb =
         (if same_page vb va then Some (table_entry_of pa (flags OR TEF_VALID))
          else lookup (po_mem ops s) root vb)))"
proof -
  let ?v2 = "vpn va 2" and ?v1 = "vpn va 1" and ?v0 = "vpn va 0"
  obtain r2 s2 where e2: "ensure_table ops root ?v2 (error_of SUCCESS) s = Done (r2, s2)"
    using run aligned by (cases "ensure_table ops root ?v2 (error_of SUCCESS) s")
      (auto simp: map_page_with_def)
  show ?thesis
  proof (rule ensure_table_cases [OF inv pt _ _ e2, of "[]"])
    assume "r2 = Inl alloc_failed" "s2 = s" "table_at (po_mem ops s) root ([] @ [?v2]) = None"
    then show ?thesis
      using run aligned e2 inv pt_step_refl [OF pt]
      by (auto simp: map_page_with_def same_lookups_def lookup_def split: if_splits)
  next
    assume r2: "r2 = Inr (error_of SUCCESS)" and inv2: "inv s2"
      and step2: "pt_step ops owned root s s2"
      and look2: "\<And>va. lookup (po_mem ops s2) root va = lookup (po_mem ops s) root va"
      and t1: "table_at (po_mem ops s2) root ([] @ [?v2]) =
        Some (get_address (entry_at (po_mem ops s2) root ?v2))"
    let ?t1 = "get_address (entry_at (po_mem ops s2) root ?v2)"
    have pt2: "pt_sound ops owned root s2" using step2 by (simp add: pt_step_def)
    obtain r1 s1 where e1: "ensure_table ops ?t1 ?v1 (error_of SUCCESS) s2 = Done (r1, s1)"
      using run aligned e2 r2 by (cases "ensure_table ops ?t1 ?v1 (error_of SUCCESS) s2")
        (auto simp: map_page_with_def Let_def)
    show ?thesis
    proof (rule ensure_table_cases [OF inv2 pt2 _ _ e1, of "[?v2]"])
      assume "r1 = Inl alloc_failed" "s1 = s2"
        and none: "table_at (po_mem ops s2) root ([?v2] @ [?v1]) = None"
      moreover have "lookup (po_mem ops s) root va = None"
        using none look2 [of va] by (simp add: lookup_def del: table_at.simps)
      ultimately show ?thesis
        using run aligned e2 e1 r2 inv2 step2 look2
        by (simp add: map_page_with_def same_lookups_def)
    next
      assume r1: "r1 = Inr (error_of SUCCESS)" and inv1: "inv s1"
        and step1: "pt_step ops owned root s2 s1"
        and look1: "\<And>va. lookup (po_mem ops s1) root va = lookup (po_mem ops s2) root va"
        and t0: "table_at (po_mem ops s1) root ([?v2] @ [?v1]) =
          Some (get_address (entry_at (po_mem ops s1) ?t1 ?v1))"
      let ?t0 = "get_address (entry_at (po_mem ops s1) ?t1 ?v1)" and ?m1 = "po_mem ops s1"
      note step = pt_step_trans [OF step2 step1]
      have pt1: "pt_sound ops owned root s1" using step1 by (simp add: pt_step_def)
      have t0: "table_at ?m1 root [?v2, ?v1] = Some ?t0" using t0 by (simp del: table_at.simps)
      have at: "lookup ?m1 root va = (if is_valid (entry_at ?m1 ?t0 ?v0)
          then Some (entry_at ?m1 ?t0 ?v0) else None)"
        unfolding lookup_def t0 by (simp add: Let_def)
      show ?thesis
      proof (cases "is_valid (entry_at ?m1 ?t0 ?v0)")
        case True
        then have "e = error_of PAGING_MAP_EXISTS" "s' = s1"
          using run aligned e2 e1 r2 r1 by (simp_all add: map_page_with_def Let_def)
        then show ?thesis
          using True at look1 look2 inv1 step by (auto simp: same_lookups_def)
      next
        case False
        let ?e = "table_entry_of pa (flags OR TEF_VALID)" let ?m = "set_entry ?m1 ?t0 ?v0 ?e"
        have s': "e = error_of SUCCESS" "s' = po_put ops ?m s1"
          using False run aligned e2 e1 r2 r1 by (simp_all add: map_page_with_def Let_def)
        note put = put_entry [OF inv1 pt1 path_ok_vpn(3) t0 vpn_less, of va 0 ?e, folded s'(2)]
        have ok1: "pt_ok ?m1 root" using pt1 by (simp add: pt_sound_def)
        note map = pt_map [OF ok1 t0 refl, of ?e]
        have "is_valid ?e" by (simp add: entry_bits table_entry_of_def TEF_VALID_def bit_simps)
        have "pt_step ops owned root s1 s'"
          using map(1,2) pt1 set_entry_other [OF ok1 path_ok_vpn(3) t0 vpn_less]
          by (simp add: pt_step_def pt_sound_def put(2)) (simp add: s'(2) put_mem)
        then show ?thesis
          using s' put(1) pt_step_trans [OF step] False at look1 look2 map(3) \<open>is_valid ?e\<close>
          by (simp add: put_mem)
      qed
    qed (use t1 in \<open>simp_all del: table_at.simps\<close>)
  qed simp_all
qed

end

end
