(* ===== verification/Sv39_Properties.thy ===== *)
theory Sv39_Properties
  imports Sv39 Pmm_Properties
begin

text \<open>
  The page tables on the physical memory manager: totality of the mapping operation on
  a manager that serves pages, and what a mapping means for translations.
\<close>

section \<open>Pages left\<close>

text \<open>Some region still has \<open>k\<close> free pages.\<close>

definition pages_left :: "nat \<Rightarrow> pmm \<Rightarrow> bool" where
  "pages_left k s \<longleftrightarrow> (\<exists>V \<in> set (pmm_view s). k * 4096 \<le> av_free V)"

definition serving :: "u64 \<Rightarrow> nat \<Rightarrow> pmm \<Rightarrow> bool" where
  "serving buf k s \<longleftrightarrow> alloc_ready buf s \<and> pmm_whole s \<and> pages_left k s"

lemma serving_sound: "serving buf k s \<Longrightarrow> pmm_sound buf s"
  by (simp add: serving_def alloc_ready_def pmm_sound_def)

lemma serving_less: "serving buf k s \<Longrightarrow> j \<le> k \<Longrightarrow> serving buf j s"
  unfolding serving_def pages_left_def by (meson le_trans mult_le_mono1)

lemma sv39_page: "align_up sv39_PAGE_SIZE PAGE_SIZE = 0x1000"
  by (simp add: align_up_def sv39_PAGE_SIZE_def PAGE_SIZE_def)

lemma alloc_serving_pages:
  assumes "serving buf (j + k) s" and n: "unat (align_up n PAGE_SIZE) = j * 4096" and "0 < j"
  obtains w s' where "pmm_alloc n False s = Done (error_of SUCCESS, Some w, s')"
    and "serving buf k s'"
proof -
  have s: "alloc_ready buf s" "pmm_whole s" using assms by (simp_all add: serving_def)
  obtain V where V: "V \<in> set (pmm_view s)" "(j + k) * 4096 \<le> av_free V"
    using assms by (auto simp: serving_def pages_left_def)
  have whole: "\<forall>V \<in> set (pmm_view s). whole V" using s(2) by (simp add: pmm_whole_def list_all_iff)
  show ?thesis
  proof (rule pmm_alloc_page_cases [OF s, of n])
    assume "pick (unat (align_up n PAGE_SIZE)) (pmm_view s) = None"
    then have "av_block V = None" using V n by (simp add: pick_None_iff)
    then have "av_free V = 0" using whole V(1) by (auto simp: whole_def)
    with V(2) assms(3) show thesis by simp
  next
    fix i w s'
    assume h: "pick (unat (align_up n PAGE_SIZE)) (pmm_view s) = Some i"
      "pmm_alloc n False s = Done (error_of SUCCESS, Some w, s')" "pmm_whole s'"
      "pmm_view s' = spec_update (unat (align_up n PAGE_SIZE)) i (unat w) (pmm_view s)"
      "alloc_ready buf s'"
    obtain l where l: "l < length (pmm_view s)" "V = pmm_view s ! l"
      using V(1) by (auto simp: in_set_conv_nth)
    obtain b m where bm: "av_block (pmm_view s ! i) = Some (b, m)"
      using pick_SomeD(3) [OF h(1)] by auto
    have "l < length (pmm_view s')" "k * 4096 \<le> av_free (pmm_view s' ! l)"
      using l V(2) by (cases "l = i"; simp add: h(4) spec_update_def bm Let_def n)+
    then have "pages_left k s'" unfolding pages_left_def by (blast intro: nth_mem)
    with that h show thesis by (simp add: serving_def)
  qed
qed

lemma alloc_serving:
  assumes "serving buf (Suc k) s"
  obtains w s' where "pmm_alloc sv39_PAGE_SIZE False s = Done (error_of SUCCESS, Some w, s')"
    and "serving buf k s'"
  using alloc_serving_pages [of buf 1 k s sv39_PAGE_SIZE thesis] assms by (simp add: sv39_page)

lemma serving_console [simp]: "serving buf k (s\<lparr>pm_console := c\<rparr>) = serving buf k s"
  by (simp add: serving_def alloc_ready_def pmm_whole_def pages_left_def)

text \<open>Writing to a table keeps the manager serving.\<close>

lemma put_serving:
  assumes "serving buf k s" and "\<And>x. x \<in> pmm_reserved buf s \<Longrightarrow> m x = pm_mem s x"
  shows "serving buf k (s\<lparr>pm_mem := m\<rparr>)"
proof -
  have "buf_ok buf" "pmm_inv buf s" using assms(1) by (auto simp: serving_def alloc_ready_def)
  from pmm_write_inv [OF this] assms(2)
  have "pmm_inv buf (s\<lparr>pm_mem := m\<rparr>)" "pmm_view (s\<lparr>pm_mem := m\<rparr>) = pmm_view s"
    by (auto simp: pmm_reserved_def)
  then show ?thesis
    using assms(1) by (simp add: serving_def alloc_ready_def pmm_whole_def pages_left_def)
qed

lemma set_entry_outside:
  assumes "table_ok t" and "unat i < 512" and "\<not> in_range x (t, 4096)"
  shows "set_entry m t i e x = m x"
  unfolding set_entry_def
  using entry_in_table [OF assms(1,2)] assms(3) by (intro store64_other) blast

lemma ensure_table_serving:
  assumes "serving buf (Suc k) s" and "pt_sound pmm_ops (pmm_reserved buf) root s"
    and "path_ok (p @ [i])" and "table_at (pm_mem s) root p = Some t"
  obtains s' where "ensure_table pmm_ops t i (error_of SUCCESS) s = Done (Inr (error_of SUCCESS), s')"
    and "serving buf k s'"
proof (cases "is_valid (entry_at (pm_mem s) t i)")
  case True
  then show ?thesis
    using that serving_less [OF assms(1), of k] by (simp add: ensure_table_def)
next
  case False
  obtain w s1 where al: "pmm_alloc sv39_PAGE_SIZE False s = Done (error_of SUCCESS, Some w, s1)"
    and s1: "serving buf k s1"
    by (rule alloc_serving [OF assms(1)])
  let ?m = "set_entry (pm_mem s1) t i (table_entry_of w TEF_VALID)"
  have step: "ensure_table pmm_ops t i (error_of SUCCESS) s =
      Done (Inr (error_of SUCCESS), s1\<lparr>pm_mem := ?m\<rparr>)"
    using False al by (simp add: ensure_table_def)
  have ok: "pt_ok (pm_mem s) root" "pt_pages (pm_mem s) root \<inter> pmm_reserved buf s = {}"
    using assms(2) by (simp_all add: pt_sound_def)
  note pok = path_ok_prefix [OF assms(3)]
  have law: "pmm_reserved buf s1 \<subseteq> pmm_reserved buf s"
    using pmm_alloc_law [OF serving_sound [OF assms(1)] al] by blast
  have "?m x = pm_mem s1 x" if "x \<in> pmm_reserved buf s1" for x
  proof (rule set_entry_outside [OF pt_okD(1) [OF ok(1) pok(1) assms(4)] pok(2)])
    show "\<not> in_range x (t, 4096)"
      using that law ok(2) pok(1) assms(4) by (auto simp: pt_pages_def)
  qed
  then show ?thesis
    using that [OF step] put_serving [OF s1, of ?m] by simp
qed

lemma map_serving:
  assumes "serving buf 2 s" and "pt_sound pmm_ops (pmm_reserved buf) root s"
    and "is_aligned va alignof_page_table" "is_aligned pa alignof_page_table"
  obtains e s' where "map_small_page root va pa flags s = Done (e, s')"
    and "e = error_of PAGING_MAP_EXISTS \<or> e = error_of SUCCESS"
proof -
  have two: "serving buf (Suc 1) s" using assms(1) by (simp add: numeral_2_eq_2)
  obtain s2 where e2: "ensure_table pmm_ops root (vpn va 2) (error_of SUCCESS) s =
      Done (Inr (error_of SUCCESS), s2)" and s2: "serving buf (Suc 0) s2"
    using ensure_table_serving [OF two assms(2), of "[]" "vpn va 2" root] by auto
  have t2: "pt_step pmm_ops (pmm_reserved buf) root s s2"
    "table_at (pm_mem s2) root [vpn va 2] = Some (get_address (entry_at (pm_mem s2) root (vpn va 2)))"
    by (rule pmm_pages.ensure_table_cases [OF serving_sound [OF assms(1)] assms(2) _ _ e2, of "[]"];
      simp)+
  then have pt2: "pt_sound pmm_ops (pmm_reserved buf) root s2" by (simp add: pt_step_def)
  obtain s1 where e1: "ensure_table pmm_ops (get_address (entry_at (pm_mem s2) root (vpn va 2)))
      (vpn va 1) (error_of SUCCESS) s2 = Done (Inr (error_of SUCCESS), s1)"
    using ensure_table_serving [OF s2 pt2 _ t2(2), of "vpn va 1"] by auto
  have "\<exists>e s'. map_small_page root va pa flags s = Done (e, s') \<and>
      (e = error_of PAGING_MAP_EXISTS \<or> e = error_of SUCCESS)"
    using assms(3,4) e2 e1 by (simp add: map_small_page_def map_page_with_def Let_def)
  then show ?thesis using that by blast
qed

text \<open>A zeroed page is a page table without mappings.\<close>

lemma pt_ok_zero:
  assumes "table_ok root" and "\<forall>x. in_range x (root, 4096) \<longrightarrow> m x = 0"
  shows "pt_ok m root" and "pt_pages m root = {x. in_range x (root, 4096)}"
    and "lookup m root va = None"
proof -
  have zero: "entry_at m root i = 0" if "unat i < 512" for i
    by (rule entry_zero [OF assms(1) that]) (use assms(2) in blast)
  have only: "p = [] \<and> t = root" if "path_ok p" "table_at m root p = Some t" for p t
    using that zero zero_entry by (cases p) (auto simp: path_ok_def)
  show "pt_ok m root"
  proof (rule pt_okI)
    fix p t i assume "path_ok (p @ [i])" "table_at m root p = Some t"
    then show "\<not> is_leaf (entry_at m t i)"
      using only [of p t] path_ok_prefix [of p i] zero by (simp add: is_leaf_bits)
  qed (use only assms(1) in auto)
  show "pt_pages m root = {x. in_range x (root, 4096)}"
    using only by (auto simp: pt_pages_def intro!: exI [of _ "[]"])
  show "lookup m root va = None"
    using zero [OF vpn_less] zero_entry by (simp add: lookup_def)
qed

lemma new_root:
  assumes "serving buf (Suc k) s"
  obtains root s' where "pmm_alloc sv39_PAGE_SIZE False s = Done (error_of SUCCESS, Some root, s')"
    and "serving buf k s'" and "pt_sound pmm_ops (pmm_reserved buf) root s'"
    and "\<And>va. lookup (pm_mem s') root va = None"
proof -
  obtain w s' where al: "pmm_alloc sv39_PAGE_SIZE False s = Done (error_of SUCCESS, Some w, s')"
    and s': "serving buf k s'"
    by (rule alloc_serving [OF assms])
  note law = pmm_alloc_law [OF serving_sound [OF assms] al, unfolded pmm_pages.page_area]
  have "table_ok w"
    using law by (simp add: table_ok_def phys_limit_def sv39_PAGE_SIZE_def align_up_def)
  moreover have "\<forall>x. in_range x (w, 4096) \<longrightarrow> pm_mem s' x = 0"
    using law by (auto simp: area_bytes_def)
  ultimately have "pt_ok (pm_mem s') w" "pt_pages (pm_mem s') w = area_bytes (w, 4096)"
    "\<And>va. lookup (pm_mem s') w va = None"
    using pt_ok_zero [of w "pm_mem s'"] by (simp_all add: area_bytes_def)
  then show ?thesis
    using that [OF al s'] law unfolding pt_sound_def by auto
qed

text \<open>The pushed error is the same word as another error of the enumeration.\<close>

lemma alloc_failed_code: "alloc_failed = error_of DYN_ARR_REALLOC_FAILURE"
  by (simp add: alloc_failed_def error_push_def error_of_def sizeof_ErrorCode_def)

lemma map_small_page_success:
  assumes "serving buf 2 s" and "pt_sound pmm_ops (pmm_reserved buf) root s"
    and "is_aligned va alignof_page_table" "is_aligned pa alignof_page_table"
    and "lookup (pm_mem s) root va = None"
  shows "\<exists>s'. map_small_page root va pa flags s = Done (error_of SUCCESS, s') \<and>
    (\<forall>vb. lookup (pm_mem s') root vb =
      (if same_page vb va then Some (table_entry_of pa (flags OR TEF_VALID))
       else lookup (pm_mem s) root vb)) \<and>
    pmm_sound buf s' \<and> pt_step pmm_ops (pmm_reserved buf) root s s'"
proof -
  obtain e s' where run: "map_small_page root va pa flags s = Done (e, s')"
    and e: "e = error_of PAGING_MAP_EXISTS \<or> e = error_of SUCCESS"
    by (rule map_serving [OF assms(1-4)])
  from pmm_pages.map_page_cases [OF serving_sound [OF assms(1)] assms(2-4)
      run [unfolded map_small_page_def]]
  show ?thesis
    using run assms(5) e by (auto simp: alloc_failed_code)
qed

text \<open>The small machine with an empty root table.\<close>

lemma demo_root:
  obtains root s where "serving demo_buf 14 s"
    and "pt_sound pmm_ops (pmm_reserved demo_buf) root s"
    and "\<And>va. lookup (pm_mem s) root va = None"
proof -
  obtain s where s: "alloc_ready demo_buf s" "pmm_whole s"
    "pmm_view s = [fresh_view 0x80000000 0x10000]"
    by (rule demo_state [of "\<lambda>_. 0"]) blast
  have "serving demo_buf (Suc 14) s"
    using s by (simp add: serving_def pages_left_def fresh_view_def)
  then show ?thesis
    by (rule new_root) (use that in blast)
qed

lemma and_pow: "(w :: u64) AND 2 ^ k = (if bit w k then 2 ^ k else 0)"
  by (rule bit_word_eqI) (auto simp: bit_simps dest: bit_imp_le_length)

section \<open>Properties\<close>

text \<open>
  C12. Mapping. On a page table that is a tree of tables the memory manager does not own,
  with two pages left and no mapping at the address, \<open>map_small_page\<close> returns success;
  afterwards exactly the addresses of that page translate through the new entry, every
  other translation is what it was, the tables still form such a tree, and memory
  outside the tables and the manager's own is untouched.
\<close>

theorem map_small_page_maps:
  assumes "serving buf 2 s" and "pt_sound pmm_ops (pmm_reserved buf) root s"
    and "is_aligned va alignof_page_table" "is_aligned pa alignof_page_table"
    and "lookup (pm_mem s) root va = None"
  shows "\<exists>s'. map_small_page root va pa flags s = Done (error_of SUCCESS, s') \<and>
    (\<forall>vb. lookup (pm_mem s') root vb =
      (if same_page vb va then Some (table_entry_of pa (flags OR TEF_VALID))
       else lookup (pm_mem s) root vb)) \<and>
    pmm_sound buf s' \<and> pt_step pmm_ops (pmm_reserved buf) root s s'"
  by (rule map_small_page_success [OF assms])

theorem map_small_page_maps_witness:
  "\<exists>root s s'. map_small_page root 0x1000 0x90000000 TEF_READ s = Done (error_of SUCCESS, s') \<and>
    lookup (pm_mem s) root 0x1000 = None \<and>
    lookup (pm_mem s') root 0x1000 = Some (table_entry_of 0x90000000 (TEF_READ OR TEF_VALID))"
proof -
  obtain root s where s: "serving demo_buf 14 s"
    "pt_sound pmm_ops (pmm_reserved demo_buf) root s" "\<And>va. lookup (pm_mem s) root va = None"
    by (rule demo_root) blast
  have two: "serving demo_buf 2 s" using serving_less [OF s(1)] by simp
  have "is_aligned 0x1000 alignof_page_table" "is_aligned 0x90000000 alignof_page_table"
    by (simp_all add: is_aligned_def alignof_page_table_def)
  from map_small_page_maps [OF two s(2) this s(3)] s(3) show ?thesis
    by (fastforce simp: same_page_def)
qed

text \<open>
  C13. What a mapping translates to. For a page-aligned physical address and flags below
  bit 10 that make a leaf, every virtual address of the mapped page translates to the
  physical page, or-ed with bit 12 of the virtual address. The byte offset within the
  page does not reach the result, since the code masks with \<^verbatim>\<open>PAGE_SIZE\<close>, not with
  \<^verbatim>\<open>PAGE_SIZE - 1\<close>.
\<close>

theorem virt_to_phys_of_mapping:
  assumes "pt_ok m root" and "lookup m root va = Some (table_entry_of pa (flags OR TEF_VALID))"
    and "4096 dvd unat pa" and "flags < 2 ^ 10" and "bit flags 1 \<or> bit flags 2 \<or> bit flags 3"
  shows "virt_to_phys m root va = Done (if bit va 12 then pa OR 0x1000 else pa)"
proof -
  have "flags OR TEF_VALID < 2 ^ 10"
  proof -
    have "n < 10" if "bit flags n" for n
      using small_high_bits [OF assms(4), of n] that by (cases "n < 10") simp_all
    then have eq: "take_bit 10 (flags OR TEF_VALID) = flags OR TEF_VALID"
      by (intro bit_word_eqI) (auto simp: bit_simps TEF_VALID_def)
    have "unat (take_bit 10 w) < 2 ^ 10" for w :: u64
      by (simp add: unat_take_bit_mod)
    from this [of "flags OR TEF_VALID", unfolded eq] show ?thesis
      by (simp add: word_less_nat_alt)
  qed
  then have "get_address (table_entry_of pa (flags OR TEF_VALID)) = pa"
    by (rule table_entry_address [OF assms(3)])
  moreover have "is_leaf (table_entry_of pa (flags OR TEF_VALID))"
    using assms(5) by (auto simp: is_leaf_bits table_entry_flags [OF assms(3)] bit_simps)
  moreover have "va AND sv39_PAGE_SIZE = (if bit va 12 then 0x1000 else 0)"
    using and_pow [of va 12] by (simp add: sv39_PAGE_SIZE_def)
  ultimately show ?thesis
    by (simp add: virt_to_phys_lookup [OF assms(1)] assms(2))
qed

theorem virt_to_phys_of_mapping_witness:
  "\<exists>m root. virt_to_phys m root 0x1000 = Done 0x90001000 \<and>
    virt_to_phys m root 0x1ABC = Done 0x90001000 \<and>
    lookup m root 0x1000 = Some (table_entry_of 0x90000000 (TEF_READ OR TEF_VALID))"
proof -
  obtain root s where s: "serving demo_buf 14 s"
    "pt_sound pmm_ops (pmm_reserved demo_buf) root s" "\<And>va. lookup (pm_mem s) root va = None"
    by (rule demo_root) blast
  have two: "serving demo_buf 2 s" using serving_less [OF s(1)] by simp
  have al: "is_aligned 0x1000 alignof_page_table" "is_aligned 0x90000000 alignof_page_table"
    by (simp_all add: is_aligned_def alignof_page_table_def)
  have same: "same_page 0x1000 0x1000" "same_page 0x1ABC 0x1000"
    by (simp_all add: same_page_def vpn.simps)
  obtain s' where step: "pt_step pmm_ops (pmm_reserved demo_buf) root s s'"
    and new: "\<forall>vb. lookup (pm_mem s') root vb =
      (if same_page vb 0x1000 then Some (table_entry_of 0x90000000 (TEF_READ OR TEF_VALID))
       else lookup (pm_mem s) root vb)"
    using map_small_page_success [OF two s(2) al s(3), of TEF_READ] by blast
  have s': "pt_ok (pm_mem s') root"
    "lookup (pm_mem s') root 0x1000 = Some (table_entry_of 0x90000000 (TEF_READ OR TEF_VALID))"
    "lookup (pm_mem s') root 0x1ABC = Some (table_entry_of 0x90000000 (TEF_READ OR TEF_VALID))"
    using step spec [OF new, of "0x1000"] spec [OF new, of "0x1ABC"] same
    by (simp_all add: pt_step_def pt_sound_def)
  have pa: "4096 dvd unat (0x90000000 :: u64)" "TEF_READ < 2 ^ 10" "bit TEF_READ 1"
    by (simp_all add: TEF_READ_def)
  have "bit (0x1000 :: u64) 12" "bit (0x1ABC :: u64) 12" by simp_all
  with virt_to_phys_of_mapping [OF s'(1,2) pa(1,2)] virt_to_phys_of_mapping [OF s'(1,3) pa(1,2)] pa(3)
  have "virt_to_phys (pm_mem s') root 0x1000 = Done 0x90001000"
    "virt_to_phys (pm_mem s') root 0x1ABC = Done 0x90001000" by simp_all
  with s'(2) show ?thesis by blast
qed



end
