(* ===== verification/Printer.thy ===== *)
theory Printer
  imports Views Error
begin

text \<open>
  Formatted output: \<^verbatim>\<open>kernel/include/fmt/printer.h\<close>, \<^verbatim>\<open>print.h\<close>, \<^verbatim>\<open>assert.h\<close>,
  \<^verbatim>\<open>panic.h\<close>, \<^verbatim>\<open>src/fmt/fmt.cpp\<close>, and the printers of errors and of allocation
  policies. A character sink is a function pointer; the record \<open>out\<close> keeps what was sent
  to which sink, the global \<^verbatim>\<open>put_char\<close>, and the static digit buffer. The printer of a
  type is a function of the sink and of the output state, so that a sequence of printable
  arguments is a list of such functions.

  The theorems read the printed digits back.
\<close>

section \<open>Characters and sinks\<close>

definition ascii :: "string \<Rightarrow> u8 list" where
  "ascii s = map of_char s"

record out =
  out_log :: "(u64 \<times> u8) list"
  out_put_char :: u64
  out_buffer :: "u8 list"

type_synonym printer = "u64 \<Rightarrow> out \<Rightarrow> out outcome"

text \<open>The state before \<^verbatim>\<open>fmt::initialize\<close>.\<close>

definition out_boot :: out where
  "out_boot = \<lparr>out_log = [], out_put_char = 0, out_buffer = replicate 65 0\<rparr>"

definition fmt_initialize :: "u64 \<Rightarrow> out \<Rightarrow> error \<times> out" where
  "fmt_initialize fn o1 =
     (if fn = 0 then (error_of NULL_ARGUMENT, o1)
      else (error_of SUCCESS, o1\<lparr>out_put_char := fn\<rparr>))"

text \<open>A call \<^verbatim>\<open>fn(c)\<close>.\<close>

definition emit :: "u64 \<Rightarrow> u8 \<Rightarrow> out \<Rightarrow> out outcome" where
  "emit fn c o1 = (if fn = 0 then Halt Null_deref else Done (o1\<lparr>out_log := out_log o1 @ [(fn, c)]\<rparr>))"

section \<open>Strings\<close>

partial_function (option) cstr_loop :: "mem \<Rightarrow> u64 \<Rightarrow> u64 \<Rightarrow> out \<Rightarrow> out outcome option" where
  "cstr_loop m fn str o1 =
     (if m str \<noteq> 0 then
        (case emit fn (m str) o1 of
           Halt h \<Rightarrow> Some (Halt h)
         | Done o2 \<Rightarrow> cstr_loop m fn (str + 1) o2)
      else Some (Done o1))"

definition print_cstr :: "mem \<Rightarrow> u64 \<Rightarrow> printer" where
  "print_cstr m str fn o1 = join_spin (cstr_loop m fn str o1)"

text \<open>A string literal is a list of characters that ends at its terminator.\<close>

fun print_literal :: "u8 list \<Rightarrow> printer" where
  "print_literal [] fn o1 = Done o1"
| "print_literal (c # cs) fn o1 = bind_outcome (emit fn c o1) (print_literal cs fn)"

function str_view_print_loop :: "mem \<Rightarrow> str_view \<Rightarrow> size_t \<Rightarrow> printer" where
  "str_view_print_loop m sv i fn o1 =
     (if i < sv_size sv then
        bind_outcome (emit fn (str_view_index m sv i) o1) (str_view_print_loop m sv (i + 1) fn)
      else Done o1)"
  by pat_completeness auto
termination
  by (relation "measure (\<lambda>(m, sv, i, fn, o1). unat (sv_size sv) - unat i)")
    (auto simp: unat_Suc_less word_less_nat_alt)

declare str_view_print_loop.simps [simp del]

definition print_str_view :: "mem \<Rightarrow> str_view \<Rightarrow> printer" where
  "print_str_view m sv fn o1 = str_view_print_loop m sv 0 fn o1"

section \<open>Numbers\<close>

definition m_base :: nat where
  "m_base = 10"

definition digits :: "u8 list" where
  "digits = ascii ''0123456789ABCDEF''"

text \<open>
  \<^verbatim>\<open>buffer[index++] = digits[num % base]; num /= base\<close> while \<^verbatim>\<open>num > 0\<close>. The number is at
  its value, since division and remainder do not wrap.
\<close>

partial_function (option) digit_loop ::
  "nat \<Rightarrow> nat \<Rightarrow> nat \<Rightarrow> u8 list \<Rightarrow> (nat \<times> u8 list) outcome option" where
  "digit_loop base num index buffer =
     (if num > 0 then
        (if index < length buffer \<and> num mod base < length digits
         then digit_loop base (num div base) (index + 1) (buffer[index := digits ! (num mod base)])
         else Some (Halt Out_of_bounds))
      else Some (Done (index, buffer)))"

text \<open>\<^verbatim>\<open>for (int i = index - 1; i >= 0; i--) fn(buffer[i])\<close>.\<close>

fun emit_back :: "u8 list \<Rightarrow> nat \<Rightarrow> printer" where
  "emit_back buffer 0 fn o1 = Done o1"
| "emit_back buffer (Suc i) fn o1 =
     (if i < length buffer then bind_outcome (emit fn (buffer ! i) o1) (emit_back buffer i fn)
      else Halt Out_of_bounds)"

text \<open>The part that the decimal and the hexadecimal printer share.\<close>

definition print_digits :: "nat \<Rightarrow> nat \<Rightarrow> printer" where
  "print_digits base value fn o1 =
     bind_outcome (join_spin (digit_loop base value 0 (out_buffer o1))) (\<lambda>(index, buffer).
       emit_back buffer index fn (o1\<lparr>out_buffer := buffer\<rparr>))"

definition print_unsigned :: "'a::len word \<Rightarrow> printer" where
  "print_unsigned value fn o1 =
     (if value = 0 then emit (out_put_char o1) (of_char (CHR ''0'')) o1
      else print_digits m_base (unat value) fn o1)"

text \<open>
  Negating the least value overflows at 32 bits and more; narrower types are promoted to
  \<^verbatim>\<open>int\<close> first.
\<close>

definition print_signed :: "'a::len word \<Rightarrow> printer" where
  "print_signed value fn o1 =
     (if sint value < 0 then
        bind_outcome (emit fn (of_char (CHR ''-'')) o1) (\<lambda>o2.
          if LENGTH('a) \<ge> 32 \<and> sint value = - (2 ^ (LENGTH('a) - 1)) then Halt Overflow
          else print_unsigned (- value) fn o2)
      else print_unsigned value fn o1)"

definition print_hex :: "'a::len word \<Rightarrow> printer" where
  "print_hex value fn o1 =
     bind_outcome (print_literal (ascii ''0x'') fn o1) (\<lambda>o2.
       if value = 0 then emit fn (of_char (CHR ''0'')) o2
       else print_digits 16 (unat value) fn o2)"

definition print_pointer :: "u64 \<Rightarrow> printer" where
  "print_pointer ptr = print_hex ptr"

section \<open>Sequences of arguments\<close>

fun print_with_func :: "u64 \<Rightarrow> printer list \<Rightarrow> out \<Rightarrow> out outcome" where
  "print_with_func fn [] o1 = Done o1"
| "print_with_func fn (a # args) o1 = bind_outcome (a fn o1) (print_with_func fn args)"

definition println_with_func :: "u64 \<Rightarrow> printer list \<Rightarrow> out \<Rightarrow> out outcome" where
  "println_with_func fn args o1 =
     bind_outcome (print_with_func fn args o1) (emit fn 0x0A)"

definition fmt_print :: "printer list \<Rightarrow> out \<Rightarrow> out outcome" where
  "fmt_print args o1 = print_with_func (out_put_char o1) args o1"

definition fmt_println :: "printer list \<Rightarrow> out \<Rightarrow> out outcome" where
  "fmt_println args o1 = println_with_func (out_put_char o1) args o1"

definition lit :: "string \<Rightarrow> printer" where
  "lit s = print_literal (ascii s)"

section \<open>Errors and policies\<close>

definition print_error :: "error \<Rightarrow> printer" where
  "print_error err fn o1 = bind_outcome (error_str err) (\<lambda>s. print_with_func fn [lit s] o1)"

definition print_error_code :: "error_code \<Rightarrow> printer" where
  "print_error_code c fn o1 =
     bind_outcome (error_str (error_of c)) (\<lambda>s. print_with_func fn [lit s] o1)"

section \<open>Assertions and panics\<close>

text \<open>
  What the macros print before they spin. \<open>msg\<close> is the optional message; \<^verbatim>\<open>__FILE__\<close> and
  \<^verbatim>\<open>__LINE__\<close> are arguments.
\<close>

definition assert_failed ::
  "string \<Rightarrow> string \<Rightarrow> 32 word \<Rightarrow> printer list option \<Rightarrow> out \<Rightarrow> out outcome" where
  "assert_failed condition file line msg o1 =
     bind_outcome (fmt_println [lit ''Assertion failed: '', lit condition, lit '' at '', lit file,
         lit '':'', print_signed line, lit '' with message:''] o1)
       (\<lambda>o2. case msg of None \<Rightarrow> Done o2 | Some args \<Rightarrow> fmt_println args o2)"

definition assert_err :: "error \<Rightarrow> string \<Rightarrow> 32 word \<Rightarrow> out \<Rightarrow> out outcome" where
  "assert_err err file line o1 =
     (if is_err err then
        bind_outcome (error_str err) (\<lambda>s.
          bind_outcome (fmt_println [lit ''Error occured at '', lit file, lit '':'',
              print_signed line, lit '': '', lit s] o1)
            (fmt_println [lit s]))
      else Done o1)"

definition todo_reached :: "string \<Rightarrow> 32 word \<Rightarrow> printer list option \<Rightarrow> out \<Rightarrow> out outcome" where
  "todo_reached file line msg o1 =
     bind_outcome (fmt_println [lit ''TODO: at '', lit file, lit '':'', print_signed line,
         lit '' with message:''] o1)
       (\<lambda>o2. case msg of None \<Rightarrow> Done o2 | Some args \<Rightarrow> fmt_println args o2)"

definition panic_message :: "printer list \<Rightarrow> out \<Rightarrow> out outcome" where
  "panic_message args = fmt_println (lit ''[Kernel Panic]: '' # args)"

section \<open>What is sent\<close>

definition sent :: "u64 \<Rightarrow> u8 list \<Rightarrow> out \<Rightarrow> out" where
  "sent fn cs o1 = o1\<lparr>out_log := out_log o1 @ map (Pair fn) cs\<rparr>"

lemma sent_simps [simp]:
  "sent fn [] o1 = o1"
  "sent fn ds (sent fn cs o1) = sent fn (cs @ ds) o1"
  "out_log (sent fn cs o1) = out_log o1 @ map (Pair fn) cs"
  "out_put_char (sent fn cs o1) = out_put_char o1"
  "out_buffer (sent fn cs o1) = out_buffer o1"
  by (simp_all add: sent_def)

lemma emit_sent: "fn \<noteq> 0 \<Longrightarrow> emit fn c o1 = Done (sent fn [c] o1)"
  by (simp add: emit_def sent_def)

lemma print_literal_sent: "fn \<noteq> 0 \<Longrightarrow> print_literal cs fn o1 = Done (sent fn cs o1)"
  by (induction cs arbitrary: o1) (simp_all add: emit_sent)

lemma lit_sent: "fn \<noteq> 0 \<Longrightarrow> lit s fn o1 = Done (sent fn (ascii s) o1)"
  by (simp add: lit_def print_literal_sent)

text \<open>The text of a C string in memory, and of a view.\<close>

lemma cstr_loop_literal:
  assumes "load_bytes (length cs) m str = cs" and "0 \<notin> set cs" and "m (str + of_nat (length cs)) = 0"
  shows "cstr_loop m fn str o1 = Some (print_literal cs fn o1)"
  using assms
proof (induction cs arbitrary: str o1)
  case (Cons c cs)
  have "load_bytes (length cs) m (str + 1) = cs" and c: "m str = c"
    using Cons.prems(1) by (auto simp: load_bytes_def upt_rec [of 0] simp flip: map_Suc_upt
        simp: o_def ac_simps simp del: upt_Suc)
  then have "cstr_loop m fn (str + 1) o2 = Some (print_literal cs fn o2)" for o2
    using Cons.prems by (intro Cons.IH) (auto simp: ac_simps)
  then show ?case
    using Cons.prems(2) c
    by (subst cstr_loop.simps) (auto split: outcome.splits)
qed (subst cstr_loop.simps, simp)

lemma str_view_print_loop_literal:
  "i \<le> sv_size sv \<Longrightarrow>
   str_view_print_loop m sv i fn o1 = print_literal (drop (unat i) (sv_bytes m sv)) fn o1"
proof (induction m sv i fn o1 rule: str_view_print_loop.induct)
  case (1 m sv i fn o1)
  show ?case
  proof (cases "i < sv_size sv")
    case True
    then have i: "unat i < unat (sv_size sv)" and n: "unat (i + 1) = Suc (unat i)"
      by (auto simp: word_less_nat_alt unat_Suc_less)
    have "drop (unat i) (sv_bytes m sv) = str_view_index m sv i # drop (unat (i + 1)) (sv_bytes m sv)"
      using i True by (simp add: n Cons_nth_drop_Suc [symmetric] str_view_index_def nth_view_bytes)
    moreover have "i + 1 \<le> sv_size sv"
      using i n by (simp add: word_le_nat_alt)
    ultimately show ?thesis
      using 1 True
      by (subst str_view_print_loop.simps) (auto simp: emit_def)
  next
    case False
    then show ?thesis
      using 1(2) by (subst str_view_print_loop.simps) (simp add: word_le_nat_alt word_less_nat_alt not_less)
  qed
qed

lemma print_str_view_literal: "print_str_view m sv fn o1 = print_literal (sv_bytes m sv) fn o1"
  using str_view_print_loop_literal [of 0 sv m fn o1] by (simp add: print_str_view_def)

section \<open>The digits of a number\<close>

fun low_digits :: "nat \<Rightarrow> nat \<Rightarrow> nat list" where
  "low_digits b n = (if n = 0 \<or> b < 2 then [] else n mod b # low_digits b (n div b))"

declare low_digits.simps [simp del]

lemma low_digits_0 [simp]: "low_digits b 0 = []"
  by (simp add: low_digits.simps)

lemma low_digits_less: "2 \<le> b \<Longrightarrow> d \<in> set (low_digits b n) \<Longrightarrow> d < b"
  by (induction b n rule: low_digits.induct) (subst (asm) (2) low_digits.simps, auto split: if_splits)

lemma low_digits_value: "2 \<le> b \<Longrightarrow> foldr (\<lambda>d n. n * b + d) (low_digits b n) 0 = n"
proof (induction b n rule: low_digits.induct)
  case (1 b n)
  then show ?case
    by (subst low_digits.simps) auto
qed

lemma low_digits_last: "2 \<le> b \<Longrightarrow> n \<noteq> 0 \<Longrightarrow> low_digits b n \<noteq> [] \<and> last (low_digits b n) \<noteq> 0"
proof (induction b n rule: low_digits.induct)
  case (1 b n)
  show ?case
  proof (cases "n div b = 0")
    case True
    then show ?thesis
      using 1(2,3) by (subst (1 2) low_digits.simps) (auto simp: div_eq_0_iff)
  next
    case False
    then show ?thesis
      using 1 by (subst (1 2) low_digits.simps) auto
  qed
qed

lemma length_low_digits: "2 \<le> b \<Longrightarrow> n < b ^ k \<Longrightarrow> length (low_digits b n) \<le> k"
proof (induction b n arbitrary: k rule: low_digits.induct)
  case (1 b n)
  show ?case
  proof (cases "n = 0")
    case False
    then obtain j where k: "k = Suc j"
      using 1(3) by (cases k) auto
    then have "n div b < b ^ j"
      using 1(2,3) by (simp add: less_mult_imp_div_less mult.commute)
    then show ?thesis
      using 1 False k by (subst low_digits.simps) auto
  qed simp
qed

text \<open>The loop writes them into the buffer, the lowest first.\<close>

lemma length_digits [simp]: "length digits = 16"
  by (simp add: digits_def ascii_def)

lemma digit_loop_eq:
  assumes "2 \<le> b" and "b \<le> 16" and "index + length (low_digits b n) \<le> length buffer"
  shows "digit_loop b n index buffer =
     Some (Done (index + length (low_digits b n),
       take index buffer @ map ((!) digits) (low_digits b n) @
         drop (index + length (low_digits b n)) buffer))"
  using assms
proof (induction b n arbitrary: index buffer rule: low_digits.induct)
  case (1 b n)
  show ?case
  proof (cases "n = 0")
    case True
    then show ?thesis by (subst digit_loop.simps) simp
  next
    case False
    then have L: "low_digits b n = n mod b # low_digits b (n div b)"
      using 1(2) by (subst low_digits.simps) simp
    have "n mod b < 16"
      using 1(2,3) by (meson mod_less_divisor less_le_trans zero_less_numeral)
    then show ?thesis
      using 1 False L
      by (subst digit_loop.simps) (simp add: take_Suc_conv_app_nth)
  qed
qed

lemma emit_back_sent:
  "fn \<noteq> 0 \<Longrightarrow> i \<le> length buffer \<Longrightarrow> emit_back buffer i fn o1 = Done (sent fn (rev (take i buffer)) o1)"
  by (induction i arbitrary: o1) (simp_all add: emit_sent take_Suc_conv_app_nth)

definition number_text :: "nat \<Rightarrow> nat \<Rightarrow> u8 list" where
  "number_text b n = map ((!) digits) (rev (low_digits b n))"

lemma print_digits_sent:
  assumes "fn \<noteq> 0" and "2 \<le> b" and "b \<le> 16" and "n < b ^ length (out_buffer o1)"
  obtains buffer where "length buffer = length (out_buffer o1)"
    and "print_digits b n fn o1 = Done (sent fn (number_text b n) (o1\<lparr>out_buffer := buffer\<rparr>))"
proof -
  let ?L = "low_digits b n"
  have L: "length ?L \<le> length (out_buffer o1)"
    by (rule length_low_digits [OF assms(2,4)])
  show ?thesis
    by (rule that [of "map ((!) digits) ?L @ drop (length ?L) (out_buffer o1)"])
      (use assms L in \<open>simp_all add: print_digits_def digit_loop_eq emit_back_sent number_text_def
        rev_map\<close>)
qed

section \<open>Reading numbers\<close>

text \<open>
  The value of a text, and the texts that are numbers: digits of the base without a
  leading zero.
\<close>

definition digit_value :: "u8 \<Rightarrow> nat" where
  "digit_value c = length (takeWhile ((\<noteq>) c) digits)"

definition read_number :: "nat \<Rightarrow> u8 list \<Rightarrow> nat" where
  "read_number b cs = foldl (\<lambda>n c. n * b + digit_value c) 0 cs"

definition number_ok :: "nat \<Rightarrow> u8 list \<Rightarrow> bool" where
  "number_ok b cs \<longleftrightarrow> cs \<noteq> [] \<and> (\<forall>c \<in> set cs. c \<in> set (take b digits)) \<and>
     (hd cs = of_char (CHR ''0'') \<longrightarrow> length cs = 1)"

lemma digit_value_nth: "d < 16 \<Longrightarrow> digit_value (digits ! d) = d"
proof -
  have "\<forall>d \<in> set [0..<16]. digit_value (digits ! d) = d"
    by (simp add: digit_value_def digits_def ascii_def upt_rec)
  then show "d < 16 \<Longrightarrow> digit_value (digits ! d) = d" by simp
qed

lemma digit_zero: "d < 16 \<Longrightarrow> digits ! d = of_char (CHR ''0'') \<longleftrightarrow> d = 0"
  using digit_value_nth [of d] digit_value_nth [of 0] by (auto simp: digits_def ascii_def)

lemma read_number_text: "2 \<le> b \<Longrightarrow> b \<le> 16 \<Longrightarrow> read_number b (number_text b n) = n"
proof -
  assume b: "2 \<le> b" "b \<le> 16"
  have "foldl (\<lambda>n c. n * b + digit_value c) 0 (map ((!) digits) (rev ds)) =
      foldr (\<lambda>d n. n * b + d) ds 0" if "\<forall>d \<in> set ds. d < b" for ds
    using that b by (induction ds) (simp_all add: digit_value_nth)
  then show ?thesis
    using low_digits_less [OF b(1)] low_digits_value [OF b(1)]
    by (simp add: read_number_def number_text_def)
qed

lemma number_text_ok: "2 \<le> b \<Longrightarrow> b \<le> 16 \<Longrightarrow> n \<noteq> 0 \<Longrightarrow> number_ok b (number_text b n)"
proof -
  assume b: "2 \<le> b" "b \<le> 16" "n \<noteq> 0"
  have last: "low_digits b n \<noteq> []" "last (low_digits b n) \<noteq> 0"
    using low_digits_last [OF b(1,3)] by simp_all
  have less: "\<forall>d \<in> set (low_digits b n). d < b"
    using low_digits_less [OF b(1)] by simp
  then have "\<forall>d \<in> set (low_digits b n). digits ! d \<in> set (take b digits)"
    using b(2) by (auto simp: in_set_conv_nth intro!: exI)
  moreover have "hd (number_text b n) \<noteq> of_char (CHR ''0'')"
    using last bspec [OF less last_in_set [OF last(1)]] b(2) digit_zero [of "last (low_digits b n)"]
    by (simp add: number_text_def hd_map hd_rev)
  ultimately show ?thesis
    using last(1) by (auto simp: number_ok_def number_text_def)
qed

lemma zero_text: "number_ok b [of_char (CHR ''0'')] \<and> read_number b [of_char (CHR ''0'')] = 0"
  if "2 \<le> b" for b
  using that digit_value_nth [of 0]
  by (cases b) (auto simp: number_ok_def read_number_def digits_def ascii_def)

end
