(* ===== verification/Output_Properties.thy ===== *)
theory Output_Properties
  imports Printer Pmm
begin

text \<open>
  Properties of the formatted output: numbers can be read back from their text, C strings
  and views print their bytes. The printer of allocation policies is defined here, where
  both output and the policies are known.
\<close>

definition print_policy :: "policy \<Rightarrow> printer" where
  "print_policy p = (case p of
     FIRST_FIT \<Rightarrow> lit ''pmm::policy::FIRST_FIT''
   | BEST_FIT \<Rightarrow> lit ''pmm::policy::BEST_FIT''
   | WORST_FIT \<Rightarrow> lit ''pmm::policy::WORST_FIT''
   | NEXT_FIT \<Rightarrow> lit ''pmm::policy::NEXT_FIT'')"

section \<open>Numbers\<close>

text \<open>The initial output state with a sink.\<close>

definition out_ready :: "out \<Rightarrow> bool" where
  "out_ready o1 \<longleftrightarrow> out_put_char o1 \<noteq> 0 \<and> length (out_buffer o1) = 65"

lemma out_ready_simps [simp]:
  "out_ready (sent fn cs o1) = out_ready o1"
  "out_ready (o1\<lparr>out_buffer := b\<rparr>) \<longleftrightarrow> out_put_char o1 \<noteq> 0 \<and> length b = 65"
  by (simp_all add: out_ready_def)

lemma digits_fit:
  fixes w :: "'a::len word"
  assumes "LENGTH('a) \<le> k" and "(2 :: nat) ^ k < b ^ 65"
  shows "unat w < b ^ 65"
proof -
  have "unat w < 2 ^ LENGTH('a)" by simp
  also have "\<dots> \<le> 2 ^ k" using assms(1) by (rule power_increasing) simp
  finally show ?thesis using assms(2) by simp
qed

text \<open>The result of a number printer: it sent \<open>prefix\<close>, then a text with the given value.\<close>

definition prints_number ::
  "(u64 \<times> u8) list \<Rightarrow> u64 \<Rightarrow> nat \<Rightarrow> nat \<Rightarrow> out \<Rightarrow> out outcome \<Rightarrow> bool" where
  "prints_number prefix sink b n o1 r \<longleftrightarrow> (\<exists>text o2. r = Done o2 \<and>
     out_log o2 = out_log o1 @ prefix @ map (Pair sink) text \<and>
     number_ok b text \<and> read_number b text = n \<and>
     out_ready o2 \<and> out_put_char o2 = out_put_char o1)"

lemma prints_numberI:
  assumes "fn \<noteq> 0" and "out_ready o1" and "2 \<le> b" and "b \<le> 16" and "n < b ^ 65" and "n \<noteq> 0"
  shows "prints_number (map (Pair f) cs) fn b n o1 (print_digits b n fn (sent f cs o1))"
proof -
  have len: "length (out_buffer o1) = 65" and put: "out_put_char o1 \<noteq> 0"
    using assms(2) by (simp_all add: out_ready_def)
  obtain buffer where b: "length buffer = length (out_buffer (sent f cs o1))"
    and p: "print_digits b n fn (sent f cs o1) =
      Done (sent fn (number_text b n) ((sent f cs o1)\<lparr>out_buffer := buffer\<rparr>))"
    by (rule print_digits_sent [OF assms(1,3,4), of n "sent f cs o1"])
      (use assms(5) len in simp_all)
  show ?thesis
    unfolding prints_number_def
    by (rule exI [of _ "number_text b n"], rule exI, rule conjI, rule p)
      (use b len put number_text_ok [OF assms(3,4,6)] read_number_text [OF assms(3,4)]
        in \<open>simp add: sent_def out_ready_def\<close>)
qed

lemma prints_zero:
  assumes "fn \<noteq> 0" and "out_ready o1" and "2 \<le> b"
  shows "prints_number (map (Pair f) cs) fn b 0 o1 (emit fn (of_char (CHR ''0'')) (sent f cs o1))"
  unfolding prints_number_def emit_sent [OF assms(1)]
  by (rule exI [of _ "[of_char (CHR ''0'')]"], rule exI, rule conjI, rule refl)
    (use zero_text [OF assms(3)] assms(2) in \<open>simp add: sent_def out_ready_def\<close>)

lemma printed_number:
  fixes w :: "'a::len word"
  assumes "fn \<noteq> 0" and "out_ready o1" and "LENGTH('a) \<le> 128"
  shows "prints_number [] (if w = 0 then out_put_char o1 else fn) 10 (unat w) o1
      (print_unsigned w fn o1)"
proof -
  have put: "out_put_char o1 \<noteq> 0"
    using assms(2) by (simp add: out_ready_def)
  show ?thesis
    using prints_zero [OF put assms(2), of 10 fn "[]"]
      prints_numberI [OF assms(1,2), of 10 "unat w" fn "[]"] digits_fit [OF assms(3), of 10 w]
    by (simp add: print_unsigned_def m_base_def unat_eq_0)
qed

text \<open>
  C36. Unsigned numbers. Printing a number of at most 128 bits sends a decimal text without
  a leading zero from which the number can be read back, and hexadecimal printing of a
  number of at most 64 bits does the same in base sixteen after \<^verbatim>\<open>0x\<close>. The static buffer
  is large enough whatever it holds. Decimal zero goes to the global \<^verbatim>\<open>put_char\<close>, every
  other number to the sink of the call.
\<close>

theorem printed_unsigned:
  fixes w :: "'a::len word" and h :: "'b::len word"
  assumes "fn \<noteq> 0" and "out_ready o1" and "LENGTH('a) \<le> 128" and "LENGTH('b) \<le> 64"
  shows "prints_number [] (if w = 0 then out_put_char o1 else fn) 10 (unat w) o1
      (print_unsigned w fn o1) \<and>
    prints_number (map (Pair fn) (ascii ''0x'')) fn 16 (unat h) o1 (print_hex h fn o1)"
proof
  show "prints_number [] (if w = 0 then out_put_char o1 else fn) 10 (unat w) o1
      (print_unsigned w fn o1)"
    by (rule printed_number [OF assms(1-3)])
  show "prints_number (map (Pair fn) (ascii ''0x'')) fn 16 (unat h) o1 (print_hex h fn o1)"
    using prints_zero [OF assms(1,2), of 16 fn "ascii ''0x''"]
      prints_numberI [OF assms(1,2), of 16 "unat h" fn "ascii ''0x''"]
      digits_fit [OF assms(4), of 16 h]
    by (simp add: print_hex_def print_literal_sent [OF assms(1)] unat_eq_0)
qed

theorem printed_unsigned_witness:
  "prints_number [] 7 10 40960 (out_boot\<lparr>out_put_char := 7\<rparr>)
     (print_unsigned (40960 :: u64) 7 (out_boot\<lparr>out_put_char := 7\<rparr>)) \<and>
   prints_number (map (Pair 7) (ascii ''0x'')) 7 16 40960 (out_boot\<lparr>out_put_char := 7\<rparr>)
     (print_hex (40960 :: u64) 7 (out_boot\<lparr>out_put_char := 7\<rparr>))"
  using printed_unsigned [of 7 "out_boot\<lparr>out_put_char := 7\<rparr>", where w = "40960 :: u64" and h = "40960 :: u64"]
  by (simp add: out_ready_def out_boot_def)

text \<open>The magnitude of a signed number fits the unsigned type.\<close>

lemma unat_magnitude:
  fixes w :: "'a::len word"
  shows "unat (if sint w < 0 then - w else w) = nat \<bar>sint w\<bar>"
proof -
  have fits: "uint (word_of_int k :: 'a word) = k" if "0 \<le> k" "k \<le> 2 ^ (LENGTH('a) - 1)" for k
  proof -
    have "(2 :: int) ^ (LENGTH('a) - 1) < 2 ^ LENGTH('a)" by (rule power_strict_increasing) simp_all
    then have "k < 2 ^ LENGTH('a)" using that(2) by linarith
    then show ?thesis using that(1) by (simp add: uint_word_of_int_eq take_bit_int_eq_self)
  qed
  have b: "- (2 ^ (LENGTH('a) - 1)) \<le> sint w" "sint w < 2 ^ (LENGTH('a) - 1)"
    by (rule sint_ge, rule sint_lt)
  have "w = word_of_int (sint w)" and "- w = word_of_int (- sint w)"
    by simp_all
  then have "uint w = sint w" if "0 \<le> sint w"
    using fits [of "sint w"] that b by simp
  moreover have "uint (- w) = - sint w" if "sint w < 0"
    using fits [of "- sint w"] that b by simp
  ultimately show ?thesis
    by (simp flip: nat_uint_eq add: abs_if)
qed

text \<open>
  C37. Signed numbers. Except for the least value of a type of 32 bits or more, whose
  negation overflows, printing sends a minus sign exactly for negative values and then the
  decimal text of the magnitude.
\<close>

theorem printed_signed:
  fixes w :: "'a::len word"
  assumes "fn \<noteq> 0" and "out_ready o1" and "LENGTH('a) \<le> 128"
  shows "if 32 \<le> LENGTH('a) \<and> sint w = - (2 ^ (LENGTH('a) - 1))
    then print_signed w fn o1 = Halt Overflow
    else prints_number (if sint w < 0 then [(fn, of_char (CHR ''-''))] else [])
      (if w = 0 then out_put_char o1 else fn) 10 (nat \<bar>sint w\<bar>) o1 (print_signed w fn o1)"
proof (cases "32 \<le> LENGTH('a) \<and> sint w = - (2 ^ (LENGTH('a) - 1))")
  case True
  then show ?thesis
    by (simp add: print_signed_def emit_sent [OF assms(1)])
next
  case False
  have ready: "out_ready (sent fn cs o1)" for cs
    using assms(2) by simp
  define m where "m = (if sint w < 0 then - w else w)"
  have m: "unat m = nat \<bar>sint w\<bar>" "m = 0 \<longleftrightarrow> w = 0"
    using unat_magnitude [of w] by (simp_all add: m_def)
  have "prints_number [] (if m = 0 then out_put_char o1 else fn) 10 (unat m) (sent fn cs o1)
      (print_unsigned m fn (sent fn cs o1))" for cs
    using printed_number [OF assms(1) ready assms(3), of m cs] by (simp cong: if_cong)
  from this [of "if sint w < 0 then [of_char (CHR ''-'')] else []"]
  have "prints_number (if sint w < 0 then [(fn, of_char (CHR ''-''))] else [])
      (if w = 0 then out_put_char o1 else fn) 10 (nat \<bar>sint w\<bar>) o1
      (print_unsigned m fn (sent fn (if sint w < 0 then [of_char (CHR ''-'')] else []) o1))"
    unfolding prints_number_def m by (auto split: if_splits)
  moreover have "print_signed w fn o1 =
      print_unsigned m fn (sent fn (if sint w < 0 then [of_char (CHR ''-'')] else []) o1)"
    using False
    by (simp only: print_signed_def emit_sent [OF assms(1)] m_def) (simp split: if_splits)
  ultimately show ?thesis
    by (simp only: if_not_P [OF False])
qed

theorem printed_signed_witness:
  "prints_number [(7, of_char (CHR ''-''))] 7 10 5 (out_boot\<lparr>out_put_char := 7\<rparr>)
     (print_signed (- 5 :: 32 word) 7 (out_boot\<lparr>out_put_char := 7\<rparr>))"
  using printed_signed [of 7 "out_boot\<lparr>out_put_char := 7\<rparr>", where w = "- 5 :: 32 word"]
  by (simp add: out_ready_def out_boot_def)

section \<open>Strings\<close>

text \<open>
  Strings. A C string prints the bytes before its first zero byte, in order and through
  the sink of the call, and the view that \<^verbatim>\<open>from_null_term\<close> makes of it prints the same. A
  null sink is called, and traps, as soon as there is a character to print.
\<close>

theorem printed_strings:
  assumes "strlen m p = Some n"
  shows "let text = load_bytes (unat n) m p in
    (fn \<noteq> 0 \<longrightarrow> print_cstr m p fn o1 = Done (sent fn text o1)) \<and>
    (fn = 0 \<longrightarrow> print_cstr m p fn o1 = (if n = 0 then Done o1 else Halt Null_deref)) \<and>
    (\<exists>v. str_view_from_null_term m p = Done v \<and>
       print_str_view m v fn o1 = print_cstr m p fn o1)"
proof -
  let ?text = "load_bytes (unat n) m p"
  have zero: "m (p + n) = 0" and nz: "\<forall>k. k < n \<longrightarrow> m (p + k) \<noteq> 0"
    using assms by (simp_all add: strlen_eq_Some_iff)
  have "0 \<notin> set ?text"
  proof
    assume "0 \<in> set ?text"
    then obtain i where i: "i < unat n" "m (p + of_nat i) = 0"
      by (auto simp: load_bytes_def)
    then have "(of_nat i :: u64) < n"
      by (simp add: word_less_nat_alt unat_of_nat_64 less_trans [OF _ unat_less_64])
    with nz i(2) show False by blast
  qed
  then have "cstr_loop m fn p o1 = Some (print_literal ?text fn o1)"
    by (intro cstr_loop_literal) (simp_all add: zero)
  then have print: "print_cstr m p fn o1 = print_literal ?text fn o1"
    by (simp add: print_cstr_def)
  moreover have "print_literal ?text fn o1 = Done (sent fn ?text o1)" if "fn \<noteq> 0"
    by (rule print_literal_sent [OF that])
  moreover have "print_literal ?text 0 o1 = (if n = 0 then Done o1 else Halt Null_deref)"
    by (cases "unat n") (auto simp: load_bytes_def emit_def unat_eq_0 upt_rec simp flip: map_Suc_upt)
  moreover have "print_str_view m \<lparr>sv_data = p, sv_size = n\<rparr> fn o1 = print_cstr m p fn o1"
    unfolding print by (simp add: print_str_view_literal view_bytes_def)
  ultimately show ?thesis
    using assms by (auto simp: str_view_from_null_term_def)
qed

theorem printed_strings_witness:
  "let m = (\<lambda>x. if x = 0x100 then 0x48 else if x = 0x101 then 0x69 else 0) in
   print_cstr m 0x100 7 out_boot = Done (sent 7 [0x48, 0x69] out_boot) \<and>
   print_cstr m 0x100 0 out_boot = Halt Null_deref"
proof -
  let ?m = "\<lambda>x :: u64. if x = 0x100 then 0x48 else if x = 0x101 then 0x69 else (0 :: u8)"
  have two: "k = 0 \<or> k = 1" if "k < 2" for k :: u64
    using that less_2_cases [of "unat k"] by (simp add: word_less_nat_alt word_unat_eq_iff)
  have len: "strlen ?m 0x100 = Some 2"
    by (auto simp: strlen_eq_Some_iff dest: two)
  show ?thesis
    using printed_strings [OF len, of 7 out_boot] printed_strings [OF len, of 0 out_boot]
    by (simp add: Let_def load_bytes_def upt_rec)
qed

end
