(* ===== verification/Csr.thy ===== *)
theory Csr
  imports Prelude
begin

text \<open>
  Control and status registers: \<^verbatim>\<open>kernel/include/riscv/csr.h\<close>. An access is one inline
  assembly statement whose text depends on the register. What the processor does with
  that text is a parameter: \<open>asm_write\<close> and \<open>asm_read\<close> execute a statement on the state
  \<open>'h\<close> of the hart.
\<close>

datatype csr =
    medeleg
  | mideleg
  | mie
  | mstatus
  | mtvec
  | mip
  | mcounteren
  | pmpaddr0
  | pmpcfg0
  | sstatus
  | stvec
  | sip
  | sie
  | scounteren
  | sscratch
  | sepc
  | scause
  | stval
  | senvcfg
  | satp

fun csrw_asm_string_view :: "csr \<Rightarrow> string" where
  "csrw_asm_string_view medeleg = ''csrw medeleg, %0''"
| "csrw_asm_string_view mideleg = ''csrw mideleg, %0''"
| "csrw_asm_string_view mie = ''csrw mie, %0''"
| "csrw_asm_string_view mstatus = ''csrw mstatus, %0''"
| "csrw_asm_string_view mtvec = ''csrw mtvec, %0''"
| "csrw_asm_string_view mip = ''csrw mip, %0''"
| "csrw_asm_string_view mcounteren = ''csrw mcounteren, %0''"
| "csrw_asm_string_view pmpaddr0 = ''csrw pmpaddr0, %0''"
| "csrw_asm_string_view pmpcfg0 = ''csrw pmpcfg0, %0''"
| "csrw_asm_string_view sstatus = ''csrw sstatus, %0''"
| "csrw_asm_string_view stvec = ''csrw stvec, %0''"
| "csrw_asm_string_view sip = ''csrw sip, %0''"
| "csrw_asm_string_view sie = ''csrw sie, %0''"
| "csrw_asm_string_view scounteren = ''csrw scounteren, %0''"
| "csrw_asm_string_view sscratch = ''csrw sscratch, %0''"
| "csrw_asm_string_view sepc = ''csrw sepc, %0''"
| "csrw_asm_string_view scause = ''csrw scause, %0''"
| "csrw_asm_string_view stval = ''csrw stval, %0''"
| "csrw_asm_string_view senvcfg = ''csrw senvcfg, %0''"
| "csrw_asm_string_view satp = ''csrw satp, %0''"

fun csrr_asm_string_view :: "csr \<Rightarrow> string" where
  "csrr_asm_string_view medeleg = ''csrr %0, medeleg''"
| "csrr_asm_string_view mideleg = ''csrr %0, mideleg''"
| "csrr_asm_string_view mie = ''csrr %0, mie''"
| "csrr_asm_string_view mstatus = ''csrr %0, mstatus''"
| "csrr_asm_string_view mtvec = ''csrr %0, mtvec''"
| "csrr_asm_string_view mip = ''csrr %0, mip''"
| "csrr_asm_string_view mcounteren = ''csrr %0, mcounteren''"
| "csrr_asm_string_view pmpaddr0 = ''csrr %0, pmpaddr0''"
| "csrr_asm_string_view pmpcfg0 = ''csrr %0, pmpcfg0''"
| "csrr_asm_string_view sstatus = ''csrr %0, sstatus''"
| "csrr_asm_string_view stvec = ''csrr %0, stvec''"
| "csrr_asm_string_view sip = ''csrr %0, sip''"
| "csrr_asm_string_view sie = ''csrr %0, sie''"
| "csrr_asm_string_view scounteren = ''csrr %0, scounteren''"
| "csrr_asm_string_view sscratch = ''csrr %0, sscratch''"
| "csrr_asm_string_view sepc = ''csrr %0, sepc''"
| "csrr_asm_string_view scause = ''csrr %0, scause''"
| "csrr_asm_string_view stval = ''csrr %0, stval''"
| "csrr_asm_string_view senvcfg = ''csrr %0, senvcfg''"
| "csrr_asm_string_view satp = ''csrr %0, satp''"

definition csrw :: "(string \<Rightarrow> u64 \<Rightarrow> 'h \<Rightarrow> 'h) \<Rightarrow> csr \<Rightarrow> u64 \<Rightarrow> 'h \<Rightarrow> 'h" where
  "csrw asm_write reg v h = asm_write (csrw_asm_string_view reg) v h"

definition csrr :: "(string \<Rightarrow> 'h \<Rightarrow> u64) \<Rightarrow> csr \<Rightarrow> 'h \<Rightarrow> u64" where
  "csrr asm_read reg h = asm_read (csrr_asm_string_view reg) h"

section \<open>The register that a statement names\<close>

text \<open>The operand of \<^verbatim>\<open>csrw NAME, %0\<close> and of \<^verbatim>\<open>csrr %0, NAME\<close>.\<close>

definition csrw_operand :: "string \<Rightarrow> string" where
  "csrw_operand s = take (length s - 9) (drop 5 s)"

definition csrr_operand :: "string \<Rightarrow> string" where
  "csrr_operand s = drop 9 s"

lemma csr_operands:
  "csrw_asm_string_view r = ''csrw '' @ csrw_operand (csrw_asm_string_view r) @ '', %0''"
  "csrr_asm_string_view r = ''csrr %0, '' @ csrw_operand (csrw_asm_string_view r)"
  by (cases r; simp add: csrw_operand_def)+

lemma csr_operand_inject:
  "csrw_operand (csrw_asm_string_view r) = csrw_operand (csrw_asm_string_view q) \<longleftrightarrow> r = q"
proof
  assume eq: "csrw_operand (csrw_asm_string_view r) = csrw_operand (csrw_asm_string_view q)"
  show "r = q"
    using eq by (cases r; cases q) (simp_all add: csrw_operand_def)
qed simp

end
