(* ===== verification/Uart.thy ===== *)
theory Uart
  imports Prelude
begin

text \<open>
  The serial port: \<^verbatim>\<open>kernel/include/uart.h\<close> and \<^verbatim>\<open>kernel/src/uart.cpp\<close>. The registers
  are volatile, so that each access counts: writes are kept in a log, and a read sees
  what the device shows at that moment, given by a function of the number of reads so
  far and of the address.
\<close>

record uart =
  m_base :: u64

definition uart_at :: "u64 \<Rightarrow> uart" where
  "uart_at base_address = \<lparr>m_base = base_address\<rparr>"

definition uart_send :: "uart \<Rightarrow> u8 \<Rightarrow> (u64 \<times> u8) list \<Rightarrow> (u64 \<times> u8) list" where
  "uart_send u c written = written @ [(m_base u, c)]"

type_synonym device = "nat \<Rightarrow> u64 \<Rightarrow> u8"

text \<open>The result is the character and the number of reads.\<close>

partial_function (option) receive_loop :: "device \<Rightarrow> uart \<Rightarrow> nat \<Rightarrow> (u8 \<times> nat) option" where
  "receive_loop dev u t =
     (if dev t (m_base u + 0b101) AND 0x01 = 0 then receive_loop dev u (t + 1)
      else Some (dev (t + 1) (m_base u), t + 2))"

definition uart_receive :: "device \<Rightarrow> uart \<Rightarrow> nat \<Rightarrow> (u8 \<times> nat) outcome" where
  "uart_receive dev u t = or_spin (receive_loop dev u t)"

text \<open>Whether the \<open>i\<close>-th read finds the line status register saying that data is ready.\<close>

definition data_ready :: "device \<Rightarrow> uart \<Rightarrow> nat \<Rightarrow> bool" where
  "data_ready dev u i \<longleftrightarrow> bit (dev i (m_base u + 5)) 0"

lemma data_ready_test: "dev i (m_base u + 0b101) AND 0x01 = 0 \<longleftrightarrow> \<not> data_ready dev u i"
  by (simp add: data_ready_def bit_0 and_one_eq even_iff_mod_2_eq_zero)

lemma receive_loop_ready:
  assumes "\<forall>i. t \<le> i \<and> i < k \<longrightarrow> \<not> data_ready dev u i" and "data_ready dev u k" and "t \<le> k"
  shows "receive_loop dev u t = Some (dev (k + 1) (m_base u), k + 2)"
  using assms(3,1)
proof (induction rule: inc_induct)
  case base
  then show ?case
    using assms(2) by (subst receive_loop.simps) (simp only: data_ready_test, simp)
next
  case (step t)
  then show ?case
    by (subst receive_loop.simps) (simp only: data_ready_test, simp)
qed

lemma receive_loop_SomeD:
  assumes "receive_loop dev u t = Some r"
  shows "\<exists>k \<ge> t. data_ready dev u k"
proof (rule receive_loop.raw_induct [OF _ assms])
  fix loop :: "device \<Rightarrow> uart \<Rightarrow> nat \<Rightarrow> (u8 \<times> nat) option" and dev u t r
  assume IH: "\<And>dev u t r. loop dev u t = Some r \<Longrightarrow> \<exists>k \<ge> t. data_ready dev u k"
    and r: "(if dev t (m_base u + 0b101) AND 0x01 = 0 then loop dev u (t + 1)
      else Some (dev (t + 1) (m_base u), t + 2)) = Some r"
  show "\<exists>k \<ge> t. data_ready dev u k"
  proof (cases "data_ready dev u t")
    case False
    then have "loop dev u (t + 1) = Some r"
      using r unfolding data_ready_test by simp
    then show ?thesis
      using IH by (meson add_leE)
  qed auto
qed

end
