(* ===== verification/Platform.thy ===== *)
theory Platform
  imports Memory
begin

text \<open>
  What the boot loader tells the kernel: \<^verbatim>\<open>kernel/include/limine/platform_info.h\<close> and
  \<^verbatim>\<open>kernel/src/limine/platform_info.cpp\<close>. The requests are global objects that the loader
  fills in; a missing response is a null pointer. Of a response only the fields that the
  kernel reads are kept.
\<close>

section \<open>Requests\<close>

record limine_requests =
  base_revision :: u64
  framebuffer_req :: "(u64 \<times> u64) option"
  paging_mode_req :: "u64 option"
  memmap_req :: "(u64 \<times> u64) option"
  dtb_req :: "u64 option"
  hhdm_req :: "u64 option"

definition LIMINE_PAGING_MODE_RISCV_SV39 :: u64 where
  "LIMINE_PAGING_MODE_RISCV_SV39 = 0"

definition LIMINE_MEMMAP_USABLE :: u64 where
  "LIMINE_MEMMAP_USABLE = 0"

text \<open>
  The requests as the kernel image holds them: no response yet. The loader overwrites the
  third word of the base revision with zero when it supports the revision asked for.
\<close>

definition requests_boot :: limine_requests where
  "requests_boot = \<lparr>base_revision = 0, framebuffer_req = None, paging_mode_req = None,
     memmap_req = None, dtb_req = None, hhdm_req = None\<rparr>"

section \<open>Parsing\<close>

record platform_info =
  framebuffer_count :: u64
  framebuffers :: u64
  mode :: u64
  memmap_count :: u64
  memmap :: u64
  device_tree_blob :: u64
  hhdm_base :: u64

definition parse_platform_info :: "mem \<Rightarrow> limine_requests \<Rightarrow> platform_info outcome" where
  "parse_platform_info m q =
     (if base_revision q \<noteq> 0 then Halt (Assertion ''LIMINE_BASE_REVISION_SUPPORTED != false'')
      else case framebuffer_req q of
        None \<Rightarrow> Halt (Assertion ''framebuffer_req.response != nullptr'')
      | Some (fb_count, fbs) \<Rightarrow> (case paging_mode_req q of
        None \<Rightarrow> Halt (Assertion ''paging_mode_req.response != nullptr'')
      | Some md \<Rightarrow> (case memmap_req q of
        None \<Rightarrow> Halt (Assertion ''memmap_req.response != nullptr'')
      | Some (entry_count, entries) \<Rightarrow> (case dtb_req q of
        None \<Rightarrow> Halt (Assertion ''dtb_req.response != nullptr'')
      | Some dtb_ptr \<Rightarrow> (case hhdm_req q of
        None \<Rightarrow> Halt (Assertion ''hhdm_req.response != nullptr'')
      | Some offset \<Rightarrow> Done
          \<lparr>framebuffer_count = fb_count, framebuffers = fbs, mode = md,
           memmap_count = entry_count, memmap = load64 m entries,
           device_tree_blob = dtb_ptr, hhdm_base = offset\<rparr>)))))"

section \<open>The higher half direct map\<close>

definition hhdm_phys_to_virt :: "platform_info \<Rightarrow> paddr_t \<Rightarrow> u64" where
  "hhdm_phys_to_virt p pa = pa + hhdm_base p"

definition hhdm_virt_to_phys :: "platform_info \<Rightarrow> u64 \<Rightarrow> paddr_t" where
  "hhdm_virt_to_phys p ptr = ptr - hhdm_base p"

lemma hhdm_inverse [simp]:
  "hhdm_virt_to_phys p (hhdm_phys_to_virt p pa) = pa"
  "hhdm_phys_to_virt p (hhdm_virt_to_phys p v) = v"
  by (simp_all add: hhdm_virt_to_phys_def hhdm_phys_to_virt_def)

section \<open>The memory map\<close>

text \<open>
  The fields of \<^verbatim>\<open>memmap[i]\<close>. The protocol gives an array of pointers to entries; the
  kernel keeps the first pointer and indexes an array of entries from there.
\<close>

definition memmap_entry :: "platform_info \<Rightarrow> size_t \<Rightarrow> u64" where
  "memmap_entry p i = memmap p + 24 * i"

definition entry_base :: "mem \<Rightarrow> u64 \<Rightarrow> u64" where
  "entry_base m e = load64 m e"

definition entry_length :: "mem \<Rightarrow> u64 \<Rightarrow> u64" where
  "entry_length m e = load64 m (e + 8)"

definition entry_type :: "mem \<Rightarrow> u64 \<Rightarrow> u64" where
  "entry_type m e = load64 m (e + 16)"

end
