(* ===== verification/Device_Properties.thy ===== *)
theory Device_Properties
  imports Csr Uart Platform
begin

text \<open>Properties of the registers, the serial port and the platform information.\<close>

text \<open>
  Control and status registers. The text that writes a register and the text that
  reads it name the same register, and different registers have different names. Hence, on
  a hart on which \<^verbatim>\<open>csrw N, %0\<close> stores under the name \<^verbatim>\<open>N\<close> and \<^verbatim>\<open>csrr %0, N\<close> reads what
  is stored there, a register reads back the last value written to it, and writing it
  leaves the others alone.
\<close>

theorem csr_read_after_write:
  fixes asm_write :: "string \<Rightarrow> u64 \<Rightarrow> 'h \<Rightarrow> 'h" and asm_read :: "string \<Rightarrow> 'h \<Rightarrow> u64"
  assumes "\<forall>n n' v h. asm_read (''csrr %0, '' @ n) (asm_write (''csrw '' @ n' @ '', %0'') v h) =
    (if n = n' then v else asm_read (''csrr %0, '' @ n) h)"
  shows "csrr asm_read q (csrw asm_write r v h) = (if q = r then v else csrr asm_read q h)"
  using assms csr_operands(1) [of r] csr_operands(2) [of q] csr_operand_inject [of q r]
  unfolding csrr_def csrw_def by metis

theorem csr_read_after_write_witness:
  "csrr (\<lambda>s h. h (csrr_operand s)) satp
     (csrw (\<lambda>s v h. h(csrw_operand s := v)) satp 5 (csrw (\<lambda>s v h. h(csrw_operand s := v)) stvec 6
       (\<lambda>_. 0))) = 5"
  by (subst csr_read_after_write) (simp_all add: csrr_operand_def csrw_operand_def)

text \<open>
  C38. Receiving a character. \<^verbatim>\<open>receive\<close> returns what the data register shows right after
  the first read of the line status register that finds its lowest bit set; it runs for
  ever exactly when no read does.
\<close>

theorem uart_receive_first_ready:
  "(\<forall>k. t \<le> k \<and> data_ready dev u k \<and> (\<forall>i. t \<le> i \<and> i < k \<longrightarrow> \<not> data_ready dev u i) \<longrightarrow>
      uart_receive dev u t = Done (dev (k + 1) (m_base u), k + 2)) \<and>
   (uart_receive dev u t = Halt Spin \<longleftrightarrow> (\<forall>k \<ge> t. \<not> data_ready dev u k))"
proof (intro conjI allI impI)
  show found: "uart_receive dev u t = Done (dev (k + 1) (m_base u), k + 2)"
    if "t \<le> k \<and> data_ready dev u k \<and> (\<forall>i. t \<le> i \<and> i < k \<longrightarrow> \<not> data_ready dev u i)" for k
    using that by (simp add: uart_receive_def receive_loop_ready [of t k])
  show "uart_receive dev u t = Halt Spin \<longleftrightarrow> (\<forall>k \<ge> t. \<not> data_ready dev u k)"
  proof
    assume spin: "uart_receive dev u t = Halt Spin"
    show "\<forall>k \<ge> t. \<not> data_ready dev u k"
    proof (rule ccontr)
      assume "\<not> (\<forall>k \<ge> t. \<not> data_ready dev u k)"
      then obtain k where "t \<le> k \<and> data_ready dev u k"
        "\<forall>i < k. \<not> (t \<le> i \<and> data_ready dev u i)"
        using exists_least_iff [of "\<lambda>k. t \<le> k \<and> data_ready dev u k"] by blast
      with found [of k] spin show False by simp
    qed
  next
    assume "\<forall>k \<ge> t. \<not> data_ready dev u k"
    then show "uart_receive dev u t = Halt Spin"
      using receive_loop_SomeD [of dev u t]
      by (cases "receive_loop dev u t") (auto simp: uart_receive_def)
  qed
qed

theorem uart_receive_first_ready_witness:
  "uart_receive (\<lambda>t a. if a = 0x10000005 \<and> t = 2 then 0x21 else 0x41) (uart_at 0x10000000) 2 =
     Done (0x41, 4) \<and>
   uart_receive (\<lambda>t a. 0) (uart_at 0x10000000) 0 = Halt Spin"
  using uart_receive_first_ready [of 2 "\<lambda>t a. if a = 0x10000005 \<and> t = 2 then 0x21 else 0x41"
      "uart_at 0x10000000"]
    uart_receive_first_ready [of 0 "\<lambda>t a. 0" "uart_at 0x10000000"]
  by (auto simp: data_ready_def uart_at_def)

text \<open>
  Platform information. Parsing succeeds exactly when the loader supports the base
  revision and answered all five requests; the result then holds the answers. The two
  conversions of the direct map are inverse to each other.
\<close>

theorem platform_info_complete:
  "((\<exists>p. parse_platform_info m q = Done p) \<longleftrightarrow>
     base_revision q = 0 \<and> framebuffer_req q \<noteq> None \<and> paging_mode_req q \<noteq> None \<and>
     memmap_req q \<noteq> None \<and> dtb_req q \<noteq> None \<and> hhdm_req q \<noteq> None) \<and>
   (\<forall>p. parse_platform_info m q = Done p \<longrightarrow>
     framebuffer_req q = Some (framebuffer_count p, framebuffers p) \<and>
     paging_mode_req q = Some (mode p) \<and>
     (\<exists>entries. memmap_req q = Some (memmap_count p, entries) \<and> memmap p = load64 m entries) \<and>
     dtb_req q = Some (device_tree_blob p) \<and> hhdm_req q = Some (hhdm_base p) \<and>
     (\<forall>pa. hhdm_virt_to_phys p (hhdm_phys_to_virt p pa) = pa) \<and>
     (\<forall>v. hhdm_phys_to_virt p (hhdm_virt_to_phys p v) = v))"
  by (auto simp: parse_platform_info_def split: option.splits if_splits prod.splits)

theorem platform_info_complete_witness:
  "let q = requests_boot\<lparr>framebuffer_req := Some (1, 0x900), paging_mode_req := Some 0,
       memmap_req := Some (2, 0x800), dtb_req := Some 0xA00, hhdm_req := Some 0xFFFF800000000000\<rparr>
   in \<exists>p. parse_platform_info (\<lambda>_. 0) q = Done p \<and> dtb_req q = Some (device_tree_blob p)"
proof -
  let ?q = "requests_boot\<lparr>framebuffer_req := Some (1, 0x900), paging_mode_req := Some 0,
     memmap_req := Some (2, 0x800), dtb_req := Some 0xA00, hhdm_req := Some 0xFFFF800000000000\<rparr>"
  have "\<exists>p. parse_platform_info (\<lambda>_. 0) ?q = Done p"
    using platform_info_complete [of "\<lambda>_. 0" ?q] by (simp add: requests_boot_def)
  then show ?thesis
    using platform_info_complete [of "\<lambda>_. 0" ?q] unfolding Let_def by blast
qed

end
