(* ===== verification/Stack.thy ===== *)
theory Stack
  imports Page_Supply Platform Sv39
begin

text \<open>
  The growing stack of \<^verbatim>\<open>kernel/include/types/stack.h\<close> over any supply of pages. The
  objects live in a typed store, a partial function from addresses to objects; the
  template argument is the type \<open>'a\<close> of the objects and their size \<open>sz\<close>. Copying the
  bytes of the old buffer is copying its objects. A reference to an element is its address.

  The abstraction of a stack is the list of its elements. The theorem on \<open>emplace_back\<close>
  says more than that a list grows: it also says what happens to the objects that
  references obtained earlier still point to.
\<close>

section \<open>The stack\<close>

type_synonym 'a objs = "u64 \<Rightarrow> 'a option"

record stack =
  st_size :: size_t
  st_capacity :: size_t
  st_buffer :: u64

definition stack_empty :: stack where
  "stack_empty = \<lparr>st_size = 0, st_capacity = 0, st_buffer = 0\<rparr>"

text \<open>Move construction and assignment: the new stack, and what is left of the old one.\<close>

definition stack_move :: "stack \<Rightarrow> stack \<times> stack" where
  "stack_move other = (other, stack_empty)"

definition stack_move_assign :: "stack \<Rightarrow> stack \<Rightarrow> stack \<times> stack" where
  "stack_move_assign this other = (other, stack_empty)"

text \<open>
  A failed \<^verbatim>\<open>free\<close> is only reported on the console (\<^verbatim>\<open>assert_err\<close>), so that its error does
  not appear here.
\<close>

definition stack_destroy :: "'s page_ops \<Rightarrow> platform_info \<Rightarrow> stack \<Rightarrow> 's \<Rightarrow> 's" where
  "stack_destroy ops p st s = snd (po_free ops (hhdm_virt_to_phys p (st_buffer st)) s)"

definition stack_index :: "size_t \<Rightarrow> stack \<Rightarrow> size_t \<Rightarrow> u64" where
  "stack_index sz st i = st_buffer st + i * sz"

text \<open>\<^verbatim>\<open>pmm::alloc_noerr\<close> on the supply.\<close>

definition supply_noerr :: "'s page_ops \<Rightarrow> size_t \<Rightarrow> 's \<Rightarrow> (paddr_t \<times> 's) outcome" where
  "supply_noerr ops n s =
     bind_outcome (po_alloc ops n s) (\<lambda>(err, ret, s').
       case ret of
         None \<Rightarrow> Halt (Assertion ''err.is_ok()'')
       | Some pa \<Rightarrow> if is_ok err then Done (pa, s') else Halt (Assertion ''err.is_ok()''))"

text \<open>\<^verbatim>\<open>mem::copy\<close> of \<open>n\<close> objects, the first one first.\<close>

fun copy_objs :: "size_t \<Rightarrow> u64 \<Rightarrow> u64 \<Rightarrow> nat \<Rightarrow> 'a objs \<Rightarrow> 'a objs" where
  "copy_objs sz old new 0 objs = objs"
| "copy_objs sz old new (Suc n) objs = copy_objs sz (old + sz) (new + sz) n (objs(new := objs old))"

definition stack_grow ::
  "'s page_ops \<Rightarrow> platform_info \<Rightarrow> size_t \<Rightarrow> stack \<times> 'a objs \<times> 's \<Rightarrow> (stack \<times> 'a objs \<times> 's) outcome"
where
  "stack_grow ops p sz = (\<lambda>(st, objs, s).
     if st_size st = st_capacity st then
       let current_size = align_up (st_capacity st * sz) sv39_PAGE_SIZE;
           new_size = align_up (1 + (current_size * 3) div 2) sv39_PAGE_SIZE;
           new_capacity = new_size div sz;
           old_buffer = st_buffer st
       in bind_outcome (supply_noerr ops new_size s) (\<lambda>(new_pa, s1).
            if new_pa = 0 then Halt (Assertion ''new_pa != 0'')
            else
              let new_buffer = hhdm_phys_to_virt p new_pa;
                  objs1 = copy_objs sz old_buffer new_buffer (unat (st_capacity st)) objs;
                  s2 = snd (po_free ops (hhdm_virt_to_phys p old_buffer) s1)
              in Done (st\<lparr>st_capacity := new_capacity, st_buffer := new_buffer\<rparr>, objs1, s2))
     else Done (st, objs, s))"

text \<open>\<open>push_back\<close> copies a value into the next slot, \<open>emplace_back\<close> constructs it there.\<close>

definition stack_push_back ::
  "'s page_ops \<Rightarrow> platform_info \<Rightarrow> size_t \<Rightarrow> 'a \<Rightarrow> stack \<times> 'a objs \<times> 's \<Rightarrow>
   (u64 \<times> stack \<times> 'a objs \<times> 's) outcome" where
  "stack_push_back ops p sz v x =
     bind_outcome (stack_grow ops p sz x) (\<lambda>(st, objs, s).
       let objs1 = objs(stack_index sz st (st_size st) := Some v);
           st1 = st\<lparr>st_size := st_size st + 1\<rparr>
       in Done (stack_index sz st1 (st_size st1 - 1), st1, objs1, s))"

definition stack_emplace_back ::
  "'s page_ops \<Rightarrow> platform_info \<Rightarrow> size_t \<Rightarrow> 'a \<Rightarrow> stack \<times> 'a objs \<times> 's \<Rightarrow>
   (u64 \<times> stack \<times> 'a objs \<times> 's) outcome" where
  "stack_emplace_back ops p sz v x =
     bind_outcome (stack_grow ops p sz x) (\<lambda>(st, objs, s).
       let obj = stack_index sz st (st_size st)
       in Done (obj, st\<lparr>st_size := st_size st + 1\<rparr>, objs(obj := Some v), s))"

lemma push_back_emplace: "stack_push_back ops p sz v x = stack_emplace_back ops p sz v x"
  by (cases "stack_grow ops p sz x")
    (auto simp: stack_push_back_def stack_emplace_back_def stack_index_def Let_def)

section \<open>Abstraction\<close>

text \<open>
  A well-formed stack of objects of \<open>k\<close> bytes: the slots below its size hold the elements
  \<open>xs\<close>, the other slots are vacant, and neither the buffer nor any object lies in memory
  that the supply owns.
\<close>

definition slot :: "u64 \<Rightarrow> size_t \<Rightarrow> nat \<Rightarrow> u64" where
  "slot buf sz i = buf + of_nat i * sz"

definition stack_rep ::
  "platform_info \<Rightarrow> size_t \<Rightarrow> u64 set \<Rightarrow> stack \<Rightarrow> 'a objs \<Rightarrow> 'a list \<Rightarrow> bool" where
  "stack_rep p sz taken st objs xs \<longleftrightarrow>
     unat (st_size st) = length xs \<and> length xs \<le> unat (st_capacity st) \<and>
     unat (st_capacity st) * unat sz \<le> 2 ^ 56 \<and>
     (\<forall>i < unat (st_capacity st). hhdm_virt_to_phys p (slot (st_buffer st) sz i) \<notin> taken) \<and>
     (\<forall>i < length xs. objs (slot (st_buffer st) sz i) = Some (xs ! i)) \<and>
     (\<forall>i < unat (st_capacity st). length xs \<le> i \<longrightarrow> objs (slot (st_buffer st) sz i) = None) \<and>
     (\<forall>a. objs a \<noteq> None \<longrightarrow> hhdm_virt_to_phys p a \<notin> taken)"

lemma stack_rep_empty: "(\<forall>a. objs a \<noteq> None \<longrightarrow> hhdm_virt_to_phys p a \<notin> taken) \<Longrightarrow>
    stack_rep p sz taken stack_empty objs []"
  by (simp add: stack_rep_def stack_empty_def)

lemma slot_simps: "slot buf sz 0 = buf" "slot (buf + sz) sz i = slot buf sz (Suc i)"
  by (simp_all add: slot_def algebra_simps)

lemma stack_index_slot: "stack_index sz st i = slot (st_buffer st) sz (unat i)"
  by (simp add: stack_index_def slot_def)

lemma unat_offset:
  assumes "i * unat sz < 2 ^ 64"
  shows "unat (of_nat i * sz :: u64) = i * unat sz"
proof -
  have "of_nat i * sz = of_nat (i * unat sz)" by simp
  then show ?thesis using assms by (simp add: unat_of_nat_64 del: of_nat_mult)
qed

lemma slot_inject:
  assumes "i * unat sz < 2 ^ 64" and "j * unat sz < 2 ^ 64" and "0 < unat sz"
  shows "slot buf sz i = slot buf sz j \<longleftrightarrow> i = j"
proof -
  have "i = j" if "of_nat i * sz = of_nat j * sz"
    using arg_cong [OF that, of unat] unat_offset [OF assms(1)] unat_offset [OF assms(2)] assms(3)
    by simp
  then show ?thesis by (auto simp: slot_def)
qed

text \<open>What copying does.\<close>

lemma copy_objs_other:
  "\<forall>i < n. a \<noteq> slot new sz i \<Longrightarrow> copy_objs sz old new n objs a = objs a"
proof (induction n arbitrary: old new objs)
  case (Suc n)
  then have "a \<noteq> new" "\<forall>i < n. a \<noteq> slot (new + sz) sz i"
    using slot_simps [of new sz] by (metis zero_less_Suc, metis Suc_less_eq)
  then show ?case using Suc.IH by simp
qed simp

lemma copy_objs_slot:
  assumes "\<forall>i < n. \<forall>j < n. slot old sz i \<noteq> slot new sz j"
    and "\<forall>i < n. \<forall>j < n. slot new sz i = slot new sz j \<longrightarrow> i = j" and "i < n"
  shows "copy_objs sz old new n objs (slot new sz i) = objs (slot old sz i)"
  using assms
proof (induction n arbitrary: old new objs i)
  case (Suc n)
  let ?objs = "objs(new := objs old)"
  have old: "slot (old + sz) sz j \<noteq> new" if "j < n" for j
    using Suc.prems(1) [rule_format, of "Suc j" 0] that by (simp add: slot_simps)
  show ?case
  proof (cases i)
    case 0
    have "\<forall>j < n. new \<noteq> slot (new + sz) sz j"
      using Suc.prems(2) [rule_format, of 0 "Suc _"] by (force simp: slot_simps)
    then show ?thesis
      using copy_objs_other [of n new "new + sz" sz "old + sz" ?objs] 0 by (simp add: slot_simps)
  next
    case (Suc j)
    have "copy_objs sz (old + sz) (new + sz) n ?objs (slot (new + sz) sz j) =
        ?objs (slot (old + sz) sz j)"
    proof (rule Suc.IH)
      show "\<forall>i < n. \<forall>j < n. slot (old + sz) sz i \<noteq> slot (new + sz) sz j"
        using Suc.prems(1) by (simp add: slot_simps)
      show "\<forall>i < n. \<forall>j < n. slot (new + sz) sz i = slot (new + sz) sz j \<longrightarrow> i = j"
        using Suc.prems(2) by (metis Suc_inject Suc_mono slot_simps(2))
    qed (use Suc Suc.prems(3) in simp)
    then show ?thesis
      using Suc old [of j] Suc.prems(3) by (simp add: slot_simps)
  qed
qed simp

section \<open>Growth\<close>

lemma unat_align_page:
  assumes "unat v \<le> 2 ^ 60"
  shows "unat v \<le> unat (align_up v sv39_PAGE_SIZE)"
    and "unat (align_up v sv39_PAGE_SIZE) < unat v + 4096"
    and "4096 dvd unat (align_up v sv39_PAGE_SIZE)"
  using align_up_props(1-3) [of 12 v] assms by (simp_all add: sv39_PAGE_SIZE_def)

text \<open>The size of the old buffer, and half as much again; the objects that a longer buffer holds.\<close>

lemma three_halves:
  fixes cap sz :: u64
  assumes "unat cap * unat sz \<le> 2 ^ 56"
  defines "cs \<equiv> align_up (cap * sz) sv39_PAGE_SIZE"
  shows "unat cap * unat sz \<le> unat cs" and "unat cs \<le> 2 ^ 56 + 4096" and "4096 dvd unat cs"
    and "unat (cs * 3 div 2) = unat cs * 3 div 2"
proof -
  have m: "unat (cap * sz) = unat cap * unat sz"
    using assms(1) by (subst unat_mult_lem [THEN iffD1]) simp_all
  show cs: "unat cap * unat sz \<le> unat cs" "unat cs \<le> 2 ^ 56 + 4096" "4096 dvd unat cs"
    using unat_align_page [of "cap * sz"] assms(1) unfolding m cs_def by simp_all
  have "unat (cs * 3) = unat cs * 3"
    using cs(2) by (subst unat_mult_lem [THEN iffD1]) simp_all
  then show "unat (cs * 3 div 2) = unat cs * 3 div 2"
    by (simp add: unat_div)
qed

lemma capacity_grows:
  fixes ns sz :: u64
  assumes "c * unat sz \<le> n" and "n < unat ns" and "4096 dvd n" and "4096 dvd unat ns"
    and "0 < unat sz" and "unat sz \<le> 4096"
  shows "c < unat (ns div sz)"
proof -
  have "n + 4096 \<le> unat ns"
    using assms(2-4) by (auto elim!: dvdE)
  then have "(c + 1) * unat sz \<le> unat ns"
    using assms(1,6) by (simp add: algebra_simps)
  then show ?thesis
    using assms(5) by (simp add: unat_div less_eq_div_iff_mult_less_eq flip: Suc_le_eq)
qed

lemma align_up_page_id: "4096 dvd unat ns \<Longrightarrow> align_up ns 0x1000 = ns"
  using align_up_id [of 12 ns] by simp

text \<open>The new capacity holds at least one more object, and the buffer holds all of them.\<close>

lemma grow_sizes:
  fixes cap sz :: u64
  assumes "unat cap * unat sz \<le> 2 ^ 56" and "0 < unat sz" and "unat sz \<le> 4096"
  defines "cs \<equiv> align_up (cap * sz) sv39_PAGE_SIZE"
  defines "ns \<equiv> align_up (1 + (cs * 3) div 2) sv39_PAGE_SIZE"
  shows "unat cap < unat (ns div sz)" and "unat (ns div sz) * unat sz \<le> unat ns"
    and "align_up ns 0x1000 = ns" and "4096 \<le> unat ns"
proof -
  note cs = three_halves [OF assms(1), folded cs_def]
  have g: "unat (1 + cs * 3 div 2) = 1 + unat cs * 3 div 2"
    using cs(2,4) by (subst unat_add_nowrap) simp_all
  have ns: "1 + unat cs * 3 div 2 \<le> unat ns" "4096 dvd unat ns"
    using unat_align_page [of "1 + cs * 3 div 2"] cs(2) unfolding g ns_def by simp_all
  then have "unat cs < unat ns" by linarith
  then show "unat cap < unat (ns div sz)"
    using capacity_grows [OF cs(1) _ cs(3) ns(2) assms(2,3)] by simp
  show "unat (ns div sz) * unat sz \<le> unat ns"
    by (simp add: unat_div)
  show "align_up ns 0x1000 = ns"
    by (rule align_up_page_id [OF ns(2)])
  show "4096 \<le> unat ns"
    using \<open>unat cs < unat ns\<close> cs(3) ns(2) by (auto elim!: dvdE)
qed

text \<open>The capacity after a move.\<close>

definition grown_capacity :: "size_t \<Rightarrow> size_t \<Rightarrow> size_t" where
  "grown_capacity sz cap =
     align_up (1 + (align_up (cap * sz) sv39_PAGE_SIZE * 3) div 2) sv39_PAGE_SIZE div sz"

text \<open>The slots of \<open>k\<close> objects in a new area of \<open>n\<close> bytes at the physical address \<open>w\<close>.\<close>

lemma fresh_slots:
  assumes "unat w + n \<le> 2 ^ 56" and "k * unat sz \<le> n" and "0 < unat sz"
  shows "i < k \<Longrightarrow> in_range (hhdm_virt_to_phys p (slot (hhdm_phys_to_virt p w) sz i)) (w, n)"
    and "i \<le> k \<Longrightarrow> j \<le> k \<Longrightarrow> slot buf sz i = slot buf sz j \<longleftrightarrow> i = j"
proof -
  have small: "i * unat sz < 2 ^ 64" if "i \<le> k" for i
  proof -
    have "i * unat sz \<le> k * unat sz" using that by (rule mult_le_mono1)
    also have "\<dots> \<le> 2 ^ 56" using assms(1,2) by linarith
    also have "(2 :: nat) ^ 56 < 2 ^ 64" by simp
    finally show ?thesis .
  qed
  show "in_range (hhdm_virt_to_phys p (slot (hhdm_phys_to_virt p w) sz i)) (w, n)" if i: "i < k"
  proof -
    have "Suc i * unat sz \<le> n"
      using mult_le_mono1 [of "Suc i" k "unat sz"] i assms(2) by simp
    moreover have "unat (of_nat i * sz) = i * unat sz"
      using small [of i] i by (intro unat_offset) simp
    moreover have "hhdm_virt_to_phys p (slot (hhdm_phys_to_virt p w) sz i) = w + of_nat i * sz"
      by (simp add: slot_def hhdm_virt_to_phys_def hhdm_phys_to_virt_def)
    ultimately show ?thesis
      using assms(3) by (simp add: in_range_def)
  qed
  show "i \<le> k \<Longrightarrow> j \<le> k \<Longrightarrow> slot buf sz i = slot buf sz j \<longleftrightarrow> i = j"
    using slot_inject [OF small small assms(3)] .
qed

text \<open>
  Copying \<open>n\<close> objects into \<open>k\<close> slots in which no object lives yet: the first slots get the
  objects, the others stay vacant, and every object stays where it was.
\<close>

lemma copy_objs_fresh:
  assumes inj: "\<forall>i < k. \<forall>j < k. slot new sz i = slot new sz j \<longrightarrow> i = j" and n: "n \<le> k"
    and vacant: "\<forall>i < k. objs (slot new sz i) = None"
    and apart: "\<forall>i < n. \<forall>j < k. slot old sz i \<noteq> slot new sz j"
  defines "objs' \<equiv> copy_objs sz old new n objs"
  shows "i < n \<Longrightarrow> objs' (slot new sz i) = objs (slot old sz i)"
    and "n \<le> i \<Longrightarrow> i < k \<Longrightarrow> objs' (slot new sz i) = None"
    and "objs a = Some y \<Longrightarrow> objs' a = Some y"
    and "objs' a \<noteq> None \<Longrightarrow> objs a \<noteq> None \<or> (\<exists>i < n. a = slot new sz i)"
proof -
  have rest: "objs' a = objs a" if "\<forall>i < n. a \<noteq> slot new sz i" for a
    using copy_objs_other that unfolding objs'_def by blast
  show "objs' (slot new sz i) = objs (slot old sz i)" if "i < n"
    unfolding objs'_def by (rule copy_objs_slot [OF _ _ that]) (use apart inj n in auto)
  show "objs' (slot new sz i) = None" if "n \<le> i" "i < k"
  proof -
    have "\<forall>j < n. slot new sz i \<noteq> slot new sz j"
      using inj n that by (metis leD order_less_le_trans)
    then show ?thesis using rest vacant that(2) by simp
  qed
  show "objs' a = Some y" if "objs a = Some y"
    using rest [of a] vacant n that by force
  show "objs' a \<noteq> None \<Longrightarrow> objs a \<noteq> None \<or> (\<exists>i < n. a = slot new sz i)"
    using rest by metis
qed

text \<open>A physical address that a supply can hand out.\<close>

definition page_address :: "u64 set \<Rightarrow> paddr_t \<Rightarrow> bool" where
  "page_address S x \<longleftrightarrow> x \<in> S \<and> x \<noteq> 0 \<and> unat x < 2 ^ 56"

section \<open>Pushing onto a stack\<close>

lemma supply_noerr_cases:
  obtains (halt) h where "supply_noerr ops n s = Halt h"
  | (pages) pa s' where "supply_noerr ops n s = Done (pa, s')"
  by (cases "supply_noerr ops n s") auto

context page_supply
begin

lemma supply_noerr_ok:
  assumes "inv s" and "supply_noerr ops n s = Done (w, s')"
  shows "inv s'" and "w \<noteq> 0" and "4096 dvd unat w"
    and "unat w + unat (align_up n 0x1000) \<le> 2 ^ 56"
    and "area_bytes (request_area w n) \<subseteq> owned s"
    and "owned s' \<subseteq> owned s - area_bytes (request_area w n)"
    and "\<forall>x \<in> area_bytes (request_area w n). po_mem ops s' x = 0"
    and "\<forall>x. x \<notin> owned s \<longrightarrow> po_mem ops s' x = po_mem ops s x"
proof -
  obtain e r where al: "po_alloc ops n s = Done (e, r, s')" "r = Some w" "is_ok e"
    using assms(2)
    by (auto simp: supply_noerr_def bind_outcome_Done_iff split: option.splits if_splits)
  have "e = error_of SUCCESS"
    using alloc_err [OF assms(1) al(1)] al(3) by auto
  then show "inv s'" "w \<noteq> 0" "4096 dvd unat w"
    "unat w + unat (align_up n 0x1000) \<le> 2 ^ 56"
    "area_bytes (request_area w n) \<subseteq> owned s"
    "owned s' \<subseteq> owned s - area_bytes (request_area w n)"
    "\<forall>x \<in> area_bytes (request_area w n). po_mem ops s' x = 0"
    "\<forall>x. x \<notin> owned s \<longrightarrow> po_mem ops s' x = po_mem ops s x"
    using alloc_ok [OF assms(1), of n r s'] al by auto
qed

text \<open>A full stack moves to a larger buffer; what the old buffer holds stays there.\<close>

lemma grow_full:
  assumes inv: "inv s" and rep: "stack_rep p sz (owned s) st objs xs"
    and sz: "0 < unat sz" "unat sz \<le> 4096" and full: "st_size st = st_capacity st"
    and run: "stack_grow ops p sz (st, objs, s) = Done (st', objs', s')"
  shows "inv s'" and "owned s' \<subseteq> owned s"
    and "stack_rep p sz (owned s') st' objs' xs" and "length xs < unat (st_capacity st')"
    and "\<forall>a y. objs a = Some y \<longrightarrow> objs' a = Some y" and "st_size st' = st_size st"
    and "\<forall>x. x \<notin> owned s \<longrightarrow> po_mem ops s' x = po_mem ops s x"
    and "st_capacity st' = grown_capacity sz (st_capacity st)"
    and "\<forall>i < unat (st_capacity st'). page_address (owned s) (hhdm_virt_to_phys p (slot (st_buffer st') sz i))"
proof -
  define cs where "cs = align_up (st_capacity st * sz) sv39_PAGE_SIZE"
  define ns where "ns = align_up (1 + (cs * 3) div 2) sv39_PAGE_SIZE"
  note R = rep [unfolded stack_rep_def]
  have sizes: "unat (st_capacity st) < unat (ns div sz)" "unat (ns div sz) * unat sz \<le> unat ns"
    "align_up ns 0x1000 = ns" "4096 \<le> unat ns"
    using grow_sizes [of "st_capacity st" sz] R sz unfolding ns_def cs_def by blast+
  obtain w s1 where al: "supply_noerr ops ns s = Done (w, s1)"
    and st': "st' = st\<lparr>st_capacity := ns div sz, st_buffer := hhdm_phys_to_virt p w\<rparr>"
    and objs': "objs' = copy_objs sz (st_buffer st) (hhdm_phys_to_virt p w) (unat (st_capacity st)) objs"
    and s': "s' = snd (po_free ops (hhdm_virt_to_phys p (st_buffer st)) s1)"
    using run full
    by (auto simp: stack_grow_def Let_def bind_outcome_Done_iff ns_def cs_def split: if_splits)
  note W = supply_noerr_ok [OF inv al]
  let ?buf = "hhdm_phys_to_virt p w"
  have n: "unat (st_capacity st) = length xs" "length xs < unat (ns div sz)"
    using R full sizes(1) by simp_all
  have free: "inv s'" "owned s' = owned s1" "po_mem ops s' = po_mem ops s1"
    using free_frame [OF W(1), of "hhdm_virt_to_phys p (st_buffer st)"] s'
    by (metis prod.collapse)+
  have lim: "unat w + unat ns \<le> 2 ^ 56" using W(4) unfolding sizes(3) .
  note fresh = fresh_slots [OF lim sizes(2) sz(1)]
  have area: "hhdm_virt_to_phys p (slot ?buf sz i) \<in> area_bytes (request_area w ns)"
    if "i < unat (ns div sz)" for i
    using fresh(1) that by (simp add: request_area_def sizes(3))
  then have new: "hhdm_virt_to_phys p (slot ?buf sz i) \<in> owned s" if "i < unat (ns div sz)" for i
    using W(5) that by blast
  have held: "objs (slot (st_buffer st) sz i) = Some (xs ! i)" if "i < length xs" for i
    using R that by blast
  have old: "hhdm_virt_to_phys p (slot (st_buffer st) sz i) \<notin> owned s" if "i < length xs" for i
    using R n(1) that by simp
  have vacant: "\<forall>i < unat (ns div sz). objs (slot ?buf sz i) = None"
    using R new by blast
  have inj: "\<forall>i < unat (ns div sz). \<forall>j < unat (ns div sz).
      slot ?buf sz i = slot ?buf sz j \<longrightarrow> i = j"
    using fresh(2) by simp
  have apart: "\<forall>i < length xs. \<forall>j < unat (ns div sz). slot (st_buffer st) sz i \<noteq> slot ?buf sz j"
    using old new by metis
  note copied = copy_objs_fresh [OF inj less_imp_le [OF n(2)] vacant apart, folded n(1),
      folded objs', unfolded n(1)]
  show kept: "\<forall>a y. objs a = Some y \<longrightarrow> objs' a = Some y"
    using copied(3) by blast
  show "inv s'" "owned s' \<subseteq> owned s" "length xs < unat (st_capacity st')"
    "st_size st' = st_size st" "\<forall>x. x \<notin> owned s \<longrightarrow> po_mem ops s' x = po_mem ops s x"
    using free W n st' by auto
  show "st_capacity st' = grown_capacity sz (st_capacity st)"
    by (simp add: st' grown_capacity_def ns_def cs_def)
  have "page_address (owned s) x" if x: "in_range x (w, unat ns)" for x
  proof -
    have "unat w \<le> unat x" "unat x < unat w + unat ns"
      using x lim by (simp_all add: in_range_nowrap)
    moreover have "unat w \<noteq> 0" using W(2) by (simp add: unat_eq_0)
    ultimately have "x \<noteq> 0" "unat x < 2 ^ 56" using lim by auto
    then show ?thesis using W(5) x by (auto simp: page_address_def request_area_def sizes(3))
  qed
  then show "\<forall>i < unat (st_capacity st'). page_address (owned s) (hhdm_virt_to_phys p (slot (st_buffer st') sz i))"
    using area by (simp add: st' request_area_def sizes(3))
  show "stack_rep p sz (owned s') st' objs' xs"
    unfolding stack_rep_def
  proof (intro conjI allI impI)
    fix a assume "objs' a \<noteq> None"
    then have "objs a \<noteq> None \<or> (\<exists>i < length xs. a = slot ?buf sz i)" by (rule copied(4))
    then show "hhdm_virt_to_phys p a \<notin> owned s'"
      using R area n(2) free(2) W(6) by force
  next
    fix i assume "i < unat (st_capacity st')" "length xs \<le> i"
    then show "objs' (slot (st_buffer st') sz i) = None"
      using copied(2) st' by simp
  next
    fix i assume "i < length xs"
    then show "objs' (slot (st_buffer st') sz i) = Some (xs ! i)"
      using copied(1) held st' by simp
  qed (use R n st' sizes(2) lim W(6) free(2) area in auto)
qed

text \<open>
  What a push does when it returns. The objects that existed before are still where they
  were: earlier references stay readable, also when the stack moved.
\<close>

definition emplaced ::
  "platform_info \<Rightarrow> size_t \<Rightarrow> 'b \<Rightarrow> stack \<times> 'b objs \<times> 's \<Rightarrow> 'b list \<Rightarrow> u64 \<times> stack \<times> 'b objs \<times> 's \<Rightarrow> bool"
where
  "emplaced p sz v = (\<lambda>(st, objs, s) xs (a, st', objs', s').
     inv s' \<and> owned s' \<subseteq> owned s \<and> stack_rep p sz (owned s') st' objs' (xs @ [v]) \<and>
     a = slot (st_buffer st') sz (length xs) \<and> objs a = None \<and> objs' a = Some v \<and>
     (\<forall>b y. objs b = Some y \<longrightarrow> objs' b = Some y) \<and>
     (\<forall>x. x \<notin> owned s \<longrightarrow> po_mem ops s' x = po_mem ops s x) \<and>
     (if st_size st = st_capacity st
      then st_capacity st' = grown_capacity sz (st_capacity st) \<and>
        (\<forall>i < unat (st_capacity st'). page_address (owned s) (hhdm_virt_to_phys p (slot (st_buffer st') sz i)))
      else st' = st\<lparr>st_size := st_size st + 1\<rparr> \<and> s' = s \<and> objs' = objs(a := Some v)))"

lemma emplace_with_room:
  assumes "inv s" and "stack_rep p sz (owned s) st objs xs" and "0 < unat sz"
    and room: "length xs < unat (st_capacity st)"
  shows "\<exists>r. stack_emplace_back ops p sz v (st, objs, s) = Done r \<and>
    emplaced p sz v (st, objs, s) xs r"
proof -
  note R = assms(2) [unfolded stack_rep_def]
  let ?a = "slot (st_buffer st) sz (length xs)"
  have size: "unat (st_size st) = length xs" and "st_size st \<noteq> st_capacity st"
    using R room by auto
  then have run: "stack_emplace_back ops p sz v (st, objs, s) =
      Done (?a, st\<lparr>st_size := st_size st + 1\<rparr>, objs(?a := Some v), s)"
    by (simp add: stack_emplace_back_def stack_grow_def stack_index_slot Let_def)
  have inc: "unat (st_size st + 1) = Suc (length xs)"
    using size room unat_less_64 [of "st_capacity st"] by (subst unat_add_nowrap) simp_all
  have other: "slot (st_buffer st) sz i \<noteq> ?a" if "i < unat (st_capacity st)" "i \<noteq> length xs" for i
  proof -
    have "k * unat sz < 2 ^ 64" if "k < unat (st_capacity st)" for k
    proof -
      have "k * unat sz \<le> unat (st_capacity st) * unat sz" using that by simp
      also have "\<dots> \<le> 2 ^ 56" using R by blast
      also have "(2 :: nat) ^ 56 < 2 ^ 64" by simp
      finally show ?thesis .
    qed
    from slot_inject [OF this [OF that(1)] this [OF room] assms(3)] that(2) show ?thesis by simp
  qed
  have "stack_rep p sz (owned s) (st\<lparr>st_size := st_size st + 1\<rparr>) (objs(?a := Some v)) (xs @ [v])"
    unfolding stack_rep_def
  proof (intro conjI allI impI)
    fix i assume "i < length (xs @ [v])"
    then show "(objs(?a := Some v)) (slot (st_buffer (st\<lparr>st_size := st_size st + 1\<rparr>)) sz i) =
        Some ((xs @ [v]) ! i)"
      using R other [of i] room by (auto simp: nth_append less_Suc_eq)
  next
    fix a assume "(objs(?a := Some v)) a \<noteq> None"
    then show "hhdm_virt_to_phys p a \<notin> owned s" using R room by (cases "a = ?a") auto
  qed (use R inc room other in auto)
  moreover have "objs ?a = None" using R room by simp
  ultimately show ?thesis
    using run assms(1) \<open>st_size st \<noteq> st_capacity st\<close> by (auto simp: emplaced_def)
qed

lemma stack_grow_halt:
  assumes "stack_grow ops p sz (st, objs, s) = Halt h" and "st_size st = st_capacity st"
  obtains (no_pages) n where "supply_noerr ops n s = Halt h"
  | (zero) n s1 where "supply_noerr ops n s = Done (0, s1)"
proof -
  define n where "n = align_up (1 + align_up (st_capacity st * sz) sv39_PAGE_SIZE * 3 div 2) sv39_PAGE_SIZE"
  show ?thesis
    using assms that(1) [of n] that(2) [of n]
    by (cases "supply_noerr ops n s") (auto simp: stack_grow_def Let_def n_def split: if_splits)
qed

lemma emplace_cases:
  assumes "inv s" and "stack_rep p sz (owned s) st objs xs" and "0 < unat sz" and "unat sz \<le> 4096"
  obtains (halt) n h where "supply_noerr ops n s = Halt h"
      "stack_emplace_back ops p sz v (st, objs, s) = Halt h" "st_size st = st_capacity st"
  | (ok) r where "stack_emplace_back ops p sz v (st, objs, s) = Done r"
      "emplaced p sz v (st, objs, s) xs r"
proof (cases "st_size st = st_capacity st")
  case False
  then have "length xs < unat (st_capacity st)"
    using assms(2) by (auto simp: stack_rep_def word_unat_eq_iff le_less)
  from emplace_with_room [OF assms(1-3) this] show ?thesis using ok by blast
next
  case full: True
  show ?thesis
  proof (cases "stack_grow ops p sz (st, objs, s)")
    case (Done r)
    obtain st1 objs1 s1 where r: "r = (st1, objs1, s1)" by (cases r)
    note G = grow_full [OF assms full Done [unfolded r]]
    have cap: "st_size st1 \<noteq> st_capacity st1" using G(3,4) by (auto simp: stack_rep_def)
    obtain q where q: "stack_emplace_back ops p sz v (st1, objs1, s1) = Done q"
      "emplaced p sz v (st1, objs1, s1) xs q"
      using emplace_with_room [OF G(1,3) assms(3) G(4)] by blast
    have "stack_emplace_back ops p sz v (st, objs, s) = Done q"
      using q(1) Done r cap by (simp add: stack_emplace_back_def stack_grow_def)
    moreover have "emplaced p sz v (st, objs, s) xs q"
      using q(2) G(1,2,5-9) full cap unfolding emplaced_def
      by (auto simp: subset_iff) (metis option.exhaust)+
    ultimately show ?thesis using ok by blast
  next
    case (Halt h)
    obtain n where n: "supply_noerr ops n s = Halt h"
      using Halt full
    proof (cases rule: stack_grow_halt)
      case (zero n s1)
      with supply_noerr_ok(2) [OF assms(1) zero] show thesis by simp
    qed
    show ?thesis
      using halt [OF n] full Halt by (simp add: stack_emplace_back_def)
  qed
qed

end

section \<open>Supplies with pages left\<close>

text \<open>A supply that serves requests of up to \<open>b\<close> pages in total, whatever the client frees meanwhile.\<close>

definition page_count :: "size_t \<Rightarrow> nat" where
  "page_count n = unat (align_up n 0x1000) div 4096"

inductive serves :: "'s page_ops \<Rightarrow> nat \<Rightarrow> 's \<Rightarrow> bool" for ops where
  serves: "(\<And>n. 0 < page_count n \<Longrightarrow> page_count n \<le> b \<Longrightarrow>
      \<exists>w s1. supply_noerr ops n s = Done (w, s1) \<and> (\<forall>pa. serves ops (b - page_count n) (snd (po_free ops pa s1)))) \<Longrightarrow>
    serves ops b s"

lemma servesD:
  assumes "serves ops b s" and "0 < page_count n" and "page_count n \<le> b"
  obtains w s1 where "supply_noerr ops n s = Done (w, s1)"
    and "\<And>pa. serves ops (b - page_count n) (snd (po_free ops pa s1))"
  using serves.cases [OF assms(1)] assms(2,3) that by (metis (no_types))

text \<open>The pages that \<open>k\<close> more elements need on a stack of \<open>n\<close> elements and capacity \<open>cap\<close>.\<close>

definition grow_request :: "size_t \<Rightarrow> size_t \<Rightarrow> size_t" where
  "grow_request sz cap = align_up (1 + (align_up (cap * sz) sv39_PAGE_SIZE * 3) div 2) sv39_PAGE_SIZE"

fun push_cost :: "size_t \<Rightarrow> size_t \<Rightarrow> size_t \<Rightarrow> nat \<Rightarrow> nat" where
  "push_cost sz n cap 0 = 0"
| "push_cost sz n cap (Suc k) =
     (if n = cap then page_count (grow_request sz cap) + push_cost sz (n + 1) (grow_request sz cap div sz) k
      else push_cost sz (n + 1) cap k)"

declare push_cost.simps(2) [simp del]

lemma push_cost_room: "unat n + k \<le> unat cap \<Longrightarrow> push_cost sz n cap k = 0"
proof (induction k arbitrary: n)
  case (Suc k)
  then have "n < cap" by (simp add: word_less_nat_alt)
  with Suc show ?case by (auto simp: push_cost.simps unat_Suc_less)
qed simp

context page_supply
begin

lemma emplace_served:
  assumes "inv s" and rep: "stack_rep p sz (owned s) st objs xs" and "0 < unat sz" and "unat sz \<le> 4096"
    and served: "serves ops (push_cost sz (st_size st) (st_capacity st) (Suc k) + j) s"
  obtains a st' objs' s' where "stack_emplace_back ops p sz v (st, objs, s) = Done (a, st', objs', s')"
    and "serves ops (push_cost sz (st_size st') (st_capacity st') k + j) s'"
proof (cases "st_size st = st_capacity st")
  case False
  then show ?thesis
    using that served by (simp add: stack_emplace_back_def stack_grow_def Let_def push_cost.simps)
next
  case True
  let ?n = "grow_request sz (st_capacity st)"
  note R = rep [unfolded stack_rep_def]
  have "4096 \<le> unat ?n" "align_up ?n 0x1000 = ?n"
    using grow_sizes [of "st_capacity st" sz] R assms(3,4) unfolding grow_request_def by blast+
  then have "0 < page_count ?n" by (simp add: page_count_def div_greater_zero_iff)
  then obtain w s1 where al: "supply_noerr ops ?n s = Done (w, s1)"
    and rest: "\<And>pa. serves ops (push_cost sz (st_size st + 1) (?n div sz) k + j) (snd (po_free ops pa s1))"
    using servesD [OF served, of ?n thesis] True by (auto simp: push_cost.simps add.assoc)
  have "w \<noteq> 0" using supply_noerr_ok(2) [OF assms(1) al] .
  then show ?thesis
    using that al rest True
    by (simp add: stack_emplace_back_def stack_grow_def Let_def flip: grow_request_def)
qed

end

end
