(* ===== verification/Bump.thy ===== *)
theory Bump
  imports Stack
begin

text \<open>
  The bump allocator of \<^verbatim>\<open>kernel/include/allocators/bump.h\<close> and
  \<^verbatim>\<open>kernel/src/allocators/bump.cpp\<close> over any supply of pages. A region starts with a header
  of three words, its end, its bump pointer and the next region; headers are in memory, at
  the cells to which the direct map of the boot loader maps their addresses.

  A block is safe as long as its size and alignment are small. The allocator is then an
  area source: the bytes from the bump pointer to the end of the current region are its
  own, and each block it hands out leaves them.
\<close>

section \<open>Regions\<close>

record bump_alloc =
  bm_region_list :: u64
  bm_current_region :: u64

definition bump_empty :: bump_alloc where
  "bump_empty = \<lparr>bm_region_list = 0, bm_current_region = 0\<rparr>"

definition sizeof_region :: size_t where
  "sizeof_region = 24"

definition br_end :: "platform_info \<Rightarrow> mem \<Rightarrow> u64 \<Rightarrow> u64" where
  "br_end p m r = load64 m (hhdm_virt_to_phys p r)"

definition br_curr :: "platform_info \<Rightarrow> mem \<Rightarrow> u64 \<Rightarrow> u64" where
  "br_curr p m r = load64 m (hhdm_virt_to_phys p (r + 8))"

definition br_next :: "platform_info \<Rightarrow> mem \<Rightarrow> u64 \<Rightarrow> u64" where
  "br_next p m r = load64 m (hhdm_virt_to_phys p (r + 16))"

definition set_curr :: "platform_info \<Rightarrow> u64 \<Rightarrow> u64 \<Rightarrow> mem \<Rightarrow> mem" where
  "set_curr p r v m = store64 m (hhdm_virt_to_phys p (r + 8)) v"

text \<open>The header of a new region of \<open>n\<close> bytes.\<close>

definition init_region :: "platform_info \<Rightarrow> u64 \<Rightarrow> size_t \<Rightarrow> mem \<Rightarrow> mem" where
  "init_region p r n m =
     store64 (store64 (store64 m (hhdm_virt_to_phys p r) (r + n))
       (hhdm_virt_to_phys p (r + 8)) (r + sizeof_region)) (hhdm_virt_to_phys p (r + 16)) 0"

section \<open>Operations\<close>

definition bump_grow ::
  "'s page_ops \<Rightarrow> platform_info \<Rightarrow> bump_alloc \<times> 's \<Rightarrow> (error \<times> bump_alloc \<times> 's) outcome" where
  "bump_grow ops p = (\<lambda>(b, s).
     bind_outcome (po_alloc ops sv39_PAGE_SIZE s) (\<lambda>(err, ret, s1).
       if is_err err then Done (err, b, s1)
       else case ret of
         None \<Rightarrow> Halt Unreachable
       | Some pa \<Rightarrow>
           let r = hhdm_phys_to_virt p pa
           in Done (err, b\<lparr>bm_region_list := r, bm_current_region := r\<rparr>,
                po_put ops (init_region p r sv39_PAGE_SIZE (po_mem ops s1)) s1)))"

text \<open>
  What \<^verbatim>\<open>alloc\<close> and \<^verbatim>\<open>alloc_aligned\<close> do when a request ends \<open>difference\<close> bytes behind the
  current region. A failed \<^verbatim>\<open>pmm::alloc\<close> is only reported (\<^verbatim>\<open>assert_err\<close>): the code goes on
  with the address that the call left in \<^verbatim>\<open>pa\<close>.
\<close>

definition bump_extend ::
  "'s page_ops \<Rightarrow> platform_info \<Rightarrow> size_t \<Rightarrow> bump_alloc \<times> 's \<Rightarrow> (bump_alloc \<times> 's) outcome" where
  "bump_extend ops p difference = (\<lambda>(b, s).
     let region_size = align_up difference sv39_PAGE_SIZE + sv39_PAGE_SIZE
     in bind_outcome (po_alloc ops region_size s) (\<lambda>(err, ret, s1).
       case ret of
         None \<Rightarrow> Halt Unreachable
       | Some pa \<Rightarrow>
           let new_region = hhdm_phys_to_virt p pa;
               m1 = store64 (po_mem ops s1) (hhdm_virt_to_phys p (bm_current_region b + 16)) new_region
           in Done (b\<lparr>bm_current_region := new_region\<rparr>,
                po_put ops (init_region p new_region region_size m1) s1)))"

text \<open>Without a region one is made; a failure is again only reported.\<close>

definition bump_ensure ::
  "'s page_ops \<Rightarrow> platform_info \<Rightarrow> bump_alloc \<times> 's \<Rightarrow> (bump_alloc \<times> 's) outcome" where
  "bump_ensure ops p = (\<lambda>(b, s).
     if bm_current_region b = 0 \<or> bm_region_list b = 0
     then bind_outcome (bump_grow ops p (b, s)) (\<lambda>(err, x). Done x)
     else Done (b, s))"

text \<open>The pointer is returned first; zero is the null pointer.\<close>

definition bump_alloc_bytes ::
  "'s page_ops \<Rightarrow> platform_info \<Rightarrow> size_t \<Rightarrow> bump_alloc \<times> 's \<Rightarrow> (u64 \<times> bump_alloc \<times> 's) outcome" where
  "bump_alloc_bytes ops p sz = (\<lambda>(b, s).
     if bm_current_region b = 0 \<or> sz = 0 then Done (0, b, s)
     else bind_outcome (bump_ensure ops p (b, s)) (\<lambda>(b1, s1).
       let r = bm_current_region b1;
           top = br_end p (po_mem ops s1) r;
           curr = br_curr p (po_mem ops s1) r
       in bind_outcome
         (if top < curr + sz then bump_extend ops p (curr + sz - top) (b1, s1) else Done (b1, s1))
         (\<lambda>(b2, s2).
           let r2 = bm_current_region b2;
               allocation = br_curr p (po_mem ops s2) r2
           in Done (allocation, b2, po_put ops (set_curr p r2 (allocation + sz) (po_mem ops s2)) s2))))"

definition bump_alloc_aligned ::
  "'s page_ops \<Rightarrow> platform_info \<Rightarrow> size_t \<Rightarrow> size_t \<Rightarrow> bump_alloc \<times> 's \<Rightarrow>
   (u64 \<times> bump_alloc \<times> 's) outcome" where
  "bump_alloc_aligned ops p sz alignment = (\<lambda>(b, s).
     if sz = 0 \<or> alignment = 0 then Done (0, b, s)
     else bind_outcome (bump_ensure ops p (b, s)) (\<lambda>(b1, s1).
       if bm_current_region b1 = 0 then Halt Null_deref
       else
         let r = bm_current_region b1;
             top = br_end p (po_mem ops s1) r;
             aligned_curr = align_up (br_curr p (po_mem ops s1) r) alignment
         in bind_outcome
           (if top < aligned_curr + sz then bump_extend ops p (aligned_curr + sz - top) (b1, s1)
            else Done (b1, s1))
           (\<lambda>(b2, s2).
             let r2 = bm_current_region b2;
                 allocation = align_up (br_curr p (po_mem ops s2) r2) alignment;
                 m3 = set_curr p r2 allocation (po_mem ops s2)
             in Done (allocation, b2, po_put ops (set_curr p r2 (allocation + sz) m3) s2))))"

text \<open>The destructor frees the regions from the first one on.\<close>

partial_function (option) free_regions ::
  "'s page_ops \<Rightarrow> platform_info \<Rightarrow> u64 \<Rightarrow> 's \<Rightarrow> 's option" where
  "free_regions ops p region s =
     (if region \<noteq> 0 then
        let s1 = snd (po_free ops (hhdm_virt_to_phys p region) s)
        in free_regions ops p (br_next p (po_mem ops s1) region) s1
      else Some s)"

definition bump_destroy ::
  "'s page_ops \<Rightarrow> platform_info \<Rightarrow> bump_alloc \<times> 's \<Rightarrow> (bump_alloc \<times> 's) outcome" where
  "bump_destroy ops p = (\<lambda>(b, s).
     bind_outcome (or_spin (free_regions ops p (bm_region_list b) s)) (\<lambda>s1. Done (bump_empty, s1)))"

text \<open>Moving is not implemented.\<close>

definition bump_move :: "bump_alloc \<Rightarrow> (bump_alloc \<times> bump_alloc) outcome" where
  "bump_move other = Halt Todo"

definition bump_move_assign :: "bump_alloc \<Rightarrow> bump_alloc \<Rightarrow> (bump_alloc \<times> bump_alloc) outcome" where
  "bump_move_assign this other = Halt Todo"

section \<open>Headers\<close>

lemma phys_add [simp]: "hhdm_virt_to_phys p (r + x) = hhdm_virt_to_phys p r + x"
  by (simp add: hhdm_virt_to_phys_def)

lemma in_header:
  "in_range x (c, 8) \<Longrightarrow> in_range x (c, 24)" "in_range x (c + 8, 8) \<Longrightarrow> in_range x (c, 24)"
  "in_range x (c + 16, 8) \<Longrightarrow> in_range x (c, 24)"
  using in_range_field [of x c 0 24] in_range_field [of x c 8 24] in_range_field [of x c 16 24]
  by simp_all

lemma init_region_fields:
  "br_end p (init_region p r n m) r = r + n"
  "br_curr p (init_region p r n m) r = r + sizeof_region"
  "\<not> in_range x (hhdm_virt_to_phys p r, 24) \<Longrightarrow> init_region p r n m x = m x"
  using in_header
  by (auto simp: br_end_def br_curr_def init_region_def load64_store64_other fields_disj
      intro!: store64_other [THEN trans])

lemma set_curr_fields:
  "br_end p (set_curr p r v m) r = br_end p m r" "br_curr p (set_curr p r v m) r = v"
  "\<not> in_range x (hhdm_virt_to_phys p r, 24) \<Longrightarrow> set_curr p r v m x = m x"
  using in_header(2)
  by (auto simp: br_end_def br_curr_def set_curr_def load64_store64_other fields_disj
      intro!: store64_other)

lemma set_next_fields:
  assumes "\<not> in_range x (hhdm_virt_to_phys p r, 24)"
  shows "store64 m (hhdm_virt_to_phys p (r + 16)) v x = m x"
  using in_header(3) assms by (auto intro!: store64_other)

lemma header_frame:
  assumes "\<And>x. in_range x (hhdm_virt_to_phys p r, 24) \<Longrightarrow> m' x = m x"
  shows "br_end p m' r = br_end p m r" "br_curr p m' r = br_curr p m r"
  unfolding br_end_def br_curr_def phys_add
  using assms in_header by (auto intro!: load64_frame)

section \<open>Regions that the allocator may use\<close>

text \<open>
  \<open>bump_region p taken m r k n\<close>: the region at \<open>r\<close> has \<open>n\<close> bytes of client memory, of which
  \<open>k\<close> are used. The direct map of physical memory ends before the last pages of the address space.
\<close>

definition bump_region :: "platform_info \<Rightarrow> u64 set \<Rightarrow> mem \<Rightarrow> u64 \<Rightarrow> nat \<Rightarrow> nat \<Rightarrow> bool" where
  "bump_region p taken m r k n \<longleftrightarrow> r \<noteq> 0 \<and> 24 \<le> k \<and> k \<le> n \<and>
     unat (hhdm_virt_to_phys p r) + n \<le> 2 ^ 56 \<and> unat r + n + 65536 \<le> 2 ^ 64 \<and>
     br_end p m r = r + of_nat n \<and> br_curr p m r = r + of_nat k \<and>
     (\<forall>x. in_range x (hhdm_virt_to_phys p r, n) \<longrightarrow> x \<notin> taken)"

definition direct_map :: "platform_info \<Rightarrow> u64 set \<Rightarrow> bool" where
  "direct_map p S \<longleftrightarrow>
     (\<forall>x \<in> S. unat x < 2 ^ 56 \<longrightarrow> unat (hhdm_base p) + unat x + 131072 \<le> 2 ^ 64)"

text \<open>The region that a successful allocation of pages becomes.\<close>

lemma fresh_region:
  assumes "area_bytes (w, n) \<subseteq> S" and "direct_map p S" and "w \<noteq> 0" and "24 \<le> n"
    and "unat w + n \<le> 2 ^ 56" and "n = unat sz" and "\<forall>x. in_range x (w, n) \<longrightarrow> x \<notin> taken"
  shows "bump_region p taken (init_region p (hhdm_phys_to_virt p w) sz m) (hhdm_phys_to_virt p w) 24 n"
proof -
  have last: "w + of_nat (n - 1) \<in> area_bytes (w, n)"
    using in_range_offset [of "n - 1" n w] assms(4,5) by simp
  have "unat (w + of_nat (n - 1)) = unat w + (n - 1)"
    using assms(4,5) by (subst unat_add_nowrap) (simp_all add: unat_of_nat_64 del: of_nat_diff)
  then have lim: "unat (hhdm_base p) + (unat w + (n - 1)) + 131072 \<le> 2 ^ 64"
    using bspec [OF assms(2) [unfolded direct_map_def] subsetD [OF assms(1) last]] assms(4,5)
    by simp
  then have r: "unat (hhdm_phys_to_virt p w) = unat w + unat (hhdm_base p)"
    by (simp add: hhdm_phys_to_virt_def unat_add_nowrap)
  moreover have "unat w \<noteq> 0" using assms(3) by (simp add: unat_eq_0)
  ultimately have "hhdm_phys_to_virt p w \<noteq> 0" by auto
  then show ?thesis
    using assms lim r
    by (simp add: bump_region_def init_region_fields sizeof_region_def)
qed

lemma unat_region_add:
  assumes "bump_region p taken m r k n" and "j \<le> n + 65535"
  shows "unat (r + of_nat j) = unat r + j"
proof -
  have "unat r + n + 65536 \<le> 2 ^ 64" using assms(1) by (simp add: bump_region_def)
  then show ?thesis using assms(2) by (subst unat_add_nowrap) (simp_all add: unat_of_nat_64)
qed

lemma bump_region_bounds:
  assumes "bump_region p taken m r k n"
  shows "24 \<le> k" "k \<le> n" "n \<le> 2 ^ 56" "unat r + n + 65536 \<le> 2 ^ 64" "n < 18446744073709551616"
  using assms by (simp_all add: bump_region_def)

lemma header_free:
  "bump_region p taken m r k n \<Longrightarrow> in_range x (hhdm_virt_to_phys p r, 24) \<Longrightarrow> x \<notin> taken"
  by (simp add: bump_region_def in_range_def)

lemma direct_map_mono: "direct_map p S \<Longrightarrow> T \<subseteq> S \<Longrightarrow> direct_map p T"
  by (auto simp: direct_map_def)

lemma bump_region_mono: "bump_region p S m r k n \<Longrightarrow> T \<subseteq> S \<Longrightarrow> bump_region p T m r k n"
  by (auto simp: bump_region_def)

lemma unat_extension:
  assumes "1 \<le> unat d" and "unat d \<le> 2 ^ 20"
  defines "g \<equiv> align_up d sv39_PAGE_SIZE + sv39_PAGE_SIZE"
  shows "8192 \<le> unat g" and "align_up g 0x1000 = g"
proof -
  have a: "unat d \<le> unat (align_up d sv39_PAGE_SIZE)"
    "unat (align_up d sv39_PAGE_SIZE) < unat d + 4096" "4096 dvd unat (align_up d sv39_PAGE_SIZE)"
    using unat_align_page [of d] assms(2) by simp_all
  then have "4096 \<le> unat (align_up d sv39_PAGE_SIZE)"
    using assms(1) by (auto elim!: dvdE)
  moreover have g: "unat g = unat (align_up d sv39_PAGE_SIZE) + 4096"
    using a(2) assms(2) unfolding g_def by (subst unat_add_nowrap) (simp_all add: sv39_PAGE_SIZE_def)
  ultimately show "8192 \<le> unat g" by simp
  show "align_up g 0x1000 = g"
    using align_up_id [of 12 g] a(3) g by simp
qed

context page_supply
begin

text \<open>The step that \<open>grow\<close> and the two allocation functions share.\<close>

lemma new_region:
  assumes inv: "inv s" and map: "direct_map p (owned s)" and g: "24 \<le> unat g" "align_up g 0x1000 = g"
    and al: "po_alloc ops g s = Done (error_of SUCCESS, Some w, s1)"
    and m: "\<forall>x. x \<in> owned s1 \<or> x \<notin> owned s \<and> \<not> in_range x (c, 24) \<longrightarrow> m x = po_mem ops s1 x"
  defines "s2 \<equiv> po_put ops (init_region p (hhdm_phys_to_virt p w) g m) s1"
  shows "inv s2" and "bump_region p (owned s2) (po_mem ops s2) (hhdm_phys_to_virt p w) 24 (unat g)"
    and "area_bytes (w, unat g) \<subseteq> owned s" and "owned s2 \<subseteq> owned s - area_bytes (w, unat g)"
    and "w \<noteq> 0"
    and "\<And>x. x \<notin> owned s \<Longrightarrow> \<not> in_range x (c, 24) \<Longrightarrow> po_mem ops s2 x = po_mem ops s x"
proof -
  obtain w: "inv s1" "w \<noteq> 0" "unat w + unat g \<le> 2 ^ 56"
    "area_bytes (w, unat g) \<subseteq> owned s" "owned s1 \<subseteq> owned s - area_bytes (w, unat g)"
    "\<forall>x. x \<notin> owned s \<longrightarrow> po_mem ops s1 x = po_mem ops s x"
    using alloc_ok [OF inv al] by (auto simp: request_area_def g(2))
  let ?m = "init_region p (hhdm_phys_to_virt p w) g m"
  have init: "?m x = m x" if "x \<notin> area_bytes (w, unat g)" for x
    using that g(1) by (intro init_region_fields(3)) (auto simp: in_range_def)
  then have "?m x = po_mem ops s1 x" if "x \<in> owned s1" for x
    using that w(5) m by auto
  note put = put_inv [OF w(1) this] put_owned [OF w(1) this]
  show "inv s2" "w \<noteq> 0" "area_bytes (w, unat g) \<subseteq> owned s"
    "owned s2 \<subseteq> owned s - area_bytes (w, unat g)"
    using put w by (simp_all add: s2_def)
  show "bump_region p (owned s2) (po_mem ops s2) (hhdm_phys_to_virt p w) 24 (unat g)"
    unfolding s2_def put_mem
    by (rule fresh_region [OF w(4) map w(2) g(1) w(3) refl]) (use put(2) w(5) in auto)
  show "po_mem ops s2 x = po_mem ops s x" if "x \<notin> owned s" "\<not> in_range x (c, 24)" for x
  proof -
    have "x \<notin> area_bytes (w, unat g)" using that(1) w(4) by blast
    then show ?thesis using that m w(6) init by (simp add: s2_def put_mem)
  qed
qed

lemma grow_region:
  assumes "inv s" and "direct_map p (owned s)" and "bump_grow ops p (b, s) = Done (e, b', s')"
  obtains (none) "e = error_of PMM_OUT_OF_MEM" "b' = b" "s' = s"
  | (region) w where "e = error_of SUCCESS" "inv s'" "w \<noteq> 0"
      "b' = \<lparr>bm_region_list = hhdm_phys_to_virt p w, bm_current_region = hhdm_phys_to_virt p w\<rparr>"
      "bump_region p (owned s') (po_mem ops s') (hhdm_phys_to_virt p w) 24 4096"
      "area_bytes (w, 4096) \<subseteq> owned s" "owned s' \<subseteq> owned s - area_bytes (w, 4096)"
      "\<And>x. x \<notin> owned s \<Longrightarrow> po_mem ops s' x = po_mem ops s x"
proof -
  obtain e0 r s1 where al: "po_alloc ops sv39_PAGE_SIZE s = Done (e0, r, s1)"
    using assms(3) by (auto simp: bump_grow_def bind_outcome_Done_iff)
  consider "e0 = error_of PMM_OUT_OF_MEM" "s1 = s" | w where "e0 = error_of SUCCESS" "r = Some w"
    using alloc_err [OF assms(1) al] alloc_ok [OF assms(1)] al by blast
  then show ?thesis
  proof cases
    case 1
    then show ?thesis using none assms(3) al by (simp add: bump_grow_def)
  next
    case (2 w)
    have g: "24 \<le> unat sv39_PAGE_SIZE" "align_up sv39_PAGE_SIZE 0x1000 = sv39_PAGE_SIZE"
      "unat sv39_PAGE_SIZE = 4096"
      by (simp_all add: sv39_PAGE_SIZE_def align_up_def)
    note N = new_region [OF assms(1,2) g(1,2) al [unfolded 2], where m = "po_mem ops s1" and c = 0,
        simplified]
    have frame: "po_mem ops s1 x = po_mem ops s x" if "x \<notin> owned s" for x
      using alloc_ok [OF assms(1) al [unfolded 2]] that by blast
    have "init_region p (hhdm_phys_to_virt p w) sv39_PAGE_SIZE (po_mem ops s1) x = po_mem ops s x"
      if "x \<notin> owned s" for x
      using that N(3) frame g(3)
      by (subst init_region_fields(3)) (auto simp: in_range_def subset_iff)
    then show ?thesis
      using region [of w] 2 N assms(3) al by (auto simp: bump_grow_def g(3) put_mem Let_def)
  qed
qed

lemma extend_region:
  assumes inv: "inv s" and map: "direct_map p (owned s)"
    and reg: "bump_region p (owned s) (po_mem ops s) (bm_current_region b) k n"
    and d: "1 \<le> unat d" "unat d \<le> 2 ^ 20"
    and run: "bump_extend ops p d (b, s) = Done (b', s')"
    and up: "bm_current_region b' \<noteq> hhdm_phys_to_virt p 0"
  obtains w n' where "inv s'" "w \<noteq> 0" "8192 \<le> n'"
    "b' = b\<lparr>bm_current_region := hhdm_phys_to_virt p w\<rparr>"
    "bump_region p (owned s') (po_mem ops s') (hhdm_phys_to_virt p w) 24 n'"
    "area_bytes (w, n') \<subseteq> owned s" "owned s' \<subseteq> owned s - area_bytes (w, n')"
    "\<And>x. x \<notin> owned s \<Longrightarrow> \<not> in_range x (hhdm_virt_to_phys p (bm_current_region b), 24) \<Longrightarrow>
      po_mem ops s' x = po_mem ops s x"
proof -
  let ?g = "align_up d sv39_PAGE_SIZE + sv39_PAGE_SIZE"
  note g = unat_extension [OF d]
  obtain e r s1 where al: "po_alloc ops ?g s = Done (e, r, s1)"
    using run by (auto simp: bump_extend_def Let_def bind_outcome_Done_iff)
  obtain pa where pa: "r = Some pa" "b' = b\<lparr>bm_current_region := hhdm_phys_to_virt p pa\<rparr>"
    "s' = po_put ops (init_region p (hhdm_phys_to_virt p pa) ?g
       (store64 (po_mem ops s1) (hhdm_virt_to_phys p (bm_current_region b + 16))
         (hhdm_phys_to_virt p pa))) s1"
    using run al by (auto simp: bump_extend_def Let_def split: option.splits)
  have e: "e = error_of SUCCESS"
    using alloc_err [OF inv al] up pa(1,2) by auto
  note hdr = header_free [OF reg]
  have sub: "owned s1 \<subseteq> owned s"
    using alloc_ok [OF inv al [unfolded e]] by blast
  let ?m = "store64 (po_mem ops s1) (hhdm_virt_to_phys p (bm_current_region b + 16))
      (hhdm_phys_to_virt p pa)"
  have "\<forall>x. x \<in> owned s1 \<or> x \<notin> owned s \<and>
      \<not> in_range x (hhdm_virt_to_phys p (bm_current_region b), 24) \<longrightarrow> ?m x = po_mem ops s1 x"
    using hdr sub set_next_fields by blast
  note N = new_region [OF inv map _ g(2) al [unfolded e pa(1)] this]
  show ?thesis
  proof (rule that [of pa "unat ?g"])
  qed (use N g(1) hdr sub pa in \<open>auto simp: set_next_fields\<close>)
qed

text \<open>Moving the bump pointer over a block that fits.\<close>

lemma take_from_region:
  assumes inv: "inv s" and reg: "bump_region p (owned s) (po_mem ops s) r k n" and j: "j \<le> 12"
    and al: "al = align_up (r + of_nat k) (2 ^ j)" and fits: "unat al + unat sz \<le> unat r + n"
  defines "s' \<equiv> po_put ops (set_curr p r (al + sz) (set_curr p r al (po_mem ops s))) s"
  shows "inv s'" and "owned s' = owned s"
    and "bump_region p (owned s') (po_mem ops s') r (unat al - unat r + unat sz) n"
    and "unat r + k \<le> unat al" and "2 ^ j dvd unat al"
    and "\<And>x. \<not> in_range x (hhdm_virt_to_phys p r, 24) \<Longrightarrow> po_mem ops s' x = po_mem ops s x"
proof -
  note R = reg [unfolded bump_region_def]
  let ?m = "set_curr p r (al + sz) (set_curr p r al (po_mem ops s))"
  have frame: "?m x = po_mem ops s x" if "\<not> in_range x (hhdm_virt_to_phys p r, 24)" for x
    using that by (simp add: set_curr_fields(3))
  then have keep: "\<And>x. x \<in> owned s \<Longrightarrow> ?m x = po_mem ops s x"
    using header_free [OF reg] by blast
  note put = put_inv [OF inv keep] put_owned [OF inv keep]
  show "inv s'" "owned s' = owned s" using put by (simp_all add: s'_def)
  have k: "unat (r + of_nat k) = unat r + k"
    using R by (intro unat_region_add [OF reg]) simp
  have "(2 :: nat) ^ j \<le> 2 ^ 12" using j by (rule power_increasing) simp
  then have "unat (r + of_nat k) + 2 ^ j \<le> 2 ^ 64" using R k by simp
  note A = align_up_props(1,3) [OF _ this, folded al]
  show up: "unat r + k \<le> unat al" and "2 ^ j dvd unat al" using A j k by simp_all
  have "al + sz = r + of_nat (unat al - unat r + unat sz)"
    using up by (simp add: of_nat_diff)
  then show "bump_region p (owned s') (po_mem ops s') r (unat al - unat r + unat sz) n"
    using R up fits bump_region_bounds(1,2) [OF reg] put(2)
    by (auto simp: bump_region_def s'_def put_mem set_curr_fields)
  show "po_mem ops s' x = po_mem ops s x" if "\<not> in_range x (hhdm_virt_to_phys p r, 24)" for x
    using frame [OF that] by (simp add: s'_def put_mem)
qed

end

section \<open>The allocator as an area source\<close>

definition bump_inv ::
  "'s page_ops \<Rightarrow> ('s \<Rightarrow> bool) \<Rightarrow> ('s \<Rightarrow> u64 set) \<Rightarrow> platform_info \<Rightarrow> bump_alloc \<times> 's \<Rightarrow> bool" where
  "bump_inv ops ok owned p = (\<lambda>(b, s). ok s \<and> direct_map p (owned s) \<and>
     (b = bump_empty \<or> bm_region_list b \<noteq> 0 \<and>
       (\<exists>k n. bump_region p (owned s) (po_mem ops s) (bm_current_region b) k n)))"

text \<open>Its own bytes: the pages left in the supply, the current header, and the unused bytes.\<close>

definition bump_owned ::
  "'s page_ops \<Rightarrow> ('s \<Rightarrow> u64 set) \<Rightarrow> platform_info \<Rightarrow> bump_alloc \<times> 's \<Rightarrow> u64 set" where
  "bump_owned ops owned p = (\<lambda>(b, s). owned s \<union>
     (if b = bump_empty then {}
      else let r = bm_current_region b;
               curr = br_curr p (po_mem ops s) r;
               top = br_end p (po_mem ops s) r
           in area_bytes (hhdm_virt_to_phys p r, 24) \<union>
              area_bytes (hhdm_virt_to_phys p curr, unat (top - curr))))"

text \<open>
  A request is small if it fits in a region of two pages whatever its alignment, which is
  a power of two of at most a page. A block in physical page zero is what a client gets when
  the supply has no pages left.
\<close>

definition small_request :: "size_t \<Rightarrow> nat \<Rightarrow> bool" where
  "small_request sz j \<longleftrightarrow> 0 < unat sz \<and> j \<le> 12 \<and> unat sz + 2 ^ j + 24 \<le> 8192"

definition bump_acquire ::
  "'s page_ops \<Rightarrow> platform_info \<Rightarrow> bump_alloc \<times> 's \<Rightarrow> area \<Rightarrow> bump_alloc \<times> 's \<Rightarrow> bool" where
  "bump_acquire ops p x a x' \<longleftrightarrow> (\<exists>sz j ptr. small_request sz j \<and>
     bump_alloc_aligned ops p sz (2 ^ j) x = Done (ptr, x') \<and>
     bm_current_region (fst x') \<noteq> hhdm_phys_to_virt p 0 \<and>
     a = (hhdm_virt_to_phys p ptr, unat sz))"

text \<open>Between two calls the clients write to their own memory.\<close>

definition bump_write ::
  "'s page_ops \<Rightarrow> ('s \<Rightarrow> u64 set) \<Rightarrow> platform_info \<Rightarrow> bump_alloc \<times> 's \<Rightarrow> u64 set \<Rightarrow>
   bump_alloc \<times> 's \<Rightarrow> bool" where
  "bump_write ops owned p x F x' \<longleftrightarrow> F = {} \<and> (\<exists>m. x' = (fst x, po_put ops m (snd x)) \<and>
     (\<forall>y \<in> bump_owned ops owned p x. m y = po_mem ops (snd x) y))"

lemma bump_owned_region:
  assumes "bump_region p (owned s) (po_mem ops s) (bm_current_region b) k n"
  shows "bump_owned ops owned p (b, s) = owned s \<union>
     area_bytes (hhdm_virt_to_phys p (bm_current_region b), 24) \<union>
     area_bytes (hhdm_virt_to_phys p (bm_current_region b) + of_nat k, n - k)"
proof -
  note R = assms [unfolded bump_region_def]
  have "(bm_current_region b + of_nat n) - (bm_current_region b + of_nat k) = of_nat (n - k)"
    using R by (simp add: of_nat_diff)
  moreover have "unat (of_nat (n - k) :: u64) = n - k"
    using bump_region_bounds(5) [OF assms] by (intro unat_of_nat_64) linarith
  ultimately have "unat ((bm_current_region b + of_nat n) - (bm_current_region b + of_nat k)) = n - k"
    by simp
  moreover have "b \<noteq> bump_empty" using R by (auto simp: bump_empty_def)
  ultimately show ?thesis using R by (simp add: bump_owned_def Let_def Un_assoc)
qed

lemma region_part:
  assumes "d + l \<le> n" and "n \<le> 2 ^ 56" and "in_range x (c + of_nat d, l)"
  shows "in_range x (c, n)"
proof -
  have "unat (x - c) = unat (x - (c + of_nat d) + of_nat d)" by simp
  also have "\<dots> = unat (x - (c + of_nat d)) + d"
    using assms by (intro unat_add_of_nat) (simp add: in_range_def)
  finally show ?thesis using assms by (simp add: in_range_def)
qed

lemma region_bytes:
  assumes "bump_region p taken m r k n"
  shows "area_bytes (hhdm_virt_to_phys p r, 24) \<union> area_bytes (hhdm_virt_to_phys p r + of_nat k, n - k)
      \<subseteq> area_bytes (hhdm_virt_to_phys p r, n)"
proof -
  have "k + (n - k) \<le> n" "n \<le> 2 ^ 56" "24 \<le> n"
    using assms by (simp_all add: bump_region_def)
  then show ?thesis
    using region_part [of k "n - k" n] by (auto simp: in_range_def)
qed

context page_supply
begin

lemma bump_invD:
  assumes "bump_inv ops inv owned p (b, s)"
  shows "inv s" and "direct_map p (owned s)"
    and "b = bump_empty \<or> bm_region_list b \<noteq> 0 \<and>
      (\<exists>k n. bump_region p (owned s) (po_mem ops s) (bm_current_region b) k n)"
  using assms by (auto simp: bump_inv_def)

text \<open>The first step of an allocation: there is a region.\<close>

lemma bump_ready:
  assumes "bump_inv ops inv owned p (b, s)" and "b1 \<noteq> bump_empty"
    and run: "bump_ensure ops p (b, s) = Done (b1, s1)"
  shows "bump_inv ops inv owned p (b1, s1)"
    and "bump_owned ops owned p (b1, s1) \<subseteq> bump_owned ops owned p (b, s)"
    and "\<forall>y. y \<notin> bump_owned ops owned p (b, s) \<longrightarrow> po_mem ops s1 y = po_mem ops s y"
proof -
  note I = bump_invD [OF assms(1)]
  have "bump_inv ops inv owned p (b1, s1) \<and>
    bump_owned ops owned p (b1, s1) \<subseteq> bump_owned ops owned p (b, s) \<and>
    (\<forall>y. y \<notin> bump_owned ops owned p (b, s) \<longrightarrow> po_mem ops s1 y = po_mem ops s y)"
  proof (cases "b = bump_empty")
    case False
    then have "bm_region_list b \<noteq> 0" "bm_current_region b \<noteq> 0"
      using I(3) by (auto simp: bump_region_def)
    then show ?thesis using assms by (simp add: bump_ensure_def)
  next
    case True
    then obtain e where "bump_grow ops p (b, s) = Done (e, b1, s1)"
      using run by (auto simp: bump_ensure_def bump_empty_def bind_outcome_Done_iff)
    then show ?thesis
    proof (rule grow_region [OF I(1,2)])
      assume "b1 = b"
      then show ?thesis using True assms(2) by simp
    next
      fix w
      assume g: "inv s1" "b1 = \<lparr>bm_region_list = hhdm_phys_to_virt p w,
          bm_current_region = hhdm_phys_to_virt p w\<rparr>"
        "bump_region p (owned s1) (po_mem ops s1) (hhdm_phys_to_virt p w) 24 4096"
        "area_bytes (w, 4096) \<subseteq> owned s" "owned s1 \<subseteq> owned s - area_bytes (w, 4096)"
        "\<And>x. x \<notin> owned s \<Longrightarrow> po_mem ops s1 x = po_mem ops s x"
      have "bm_region_list b1 \<noteq> 0"
        using g(2,3) by (simp add: bump_region_def)
      moreover have "bump_owned ops owned p (b1, s1) \<subseteq> owned s"
        using bump_owned_region [of p owned s1 ops b1 24 4096] region_bytes [OF g(3)] g(2-5)
        by (auto simp: area_bytes_def)
      ultimately show ?thesis
        using g I(2) direct_map_mono [of p "owned s" "owned s1"]
        by (auto simp: bump_inv_def bump_owned_def)
    qed
  qed
  then show "bump_inv ops inv owned p (b1, s1)"
    "bump_owned ops owned p (b1, s1) \<subseteq> bump_owned ops owned p (b, s)"
    "\<forall>y. y \<notin> bump_owned ops owned p (b, s) \<longrightarrow> po_mem ops s1 y = po_mem ops s y" by simp_all
qed

lemma unat_align_small:
  assumes "bump_region p taken m r k n" and "j \<le> 12"
  shows "unat r + k \<le> unat (align_up (r + of_nat k) (2 ^ j))"
    and "unat (align_up (r + of_nat k) (2 ^ j)) < unat r + k + 2 ^ j"
    and "2 ^ j dvd unat (align_up (r + of_nat k) (2 ^ j))"
    and "(2 :: nat) ^ j \<le> 4096"
proof -
  note B = bump_region_bounds [OF assms(1)]
  have "(2 :: nat) ^ j \<le> 2 ^ 12" using assms(2) by (rule power_increasing) simp
  then show pow: "(2 :: nat) ^ j \<le> 4096" by simp
  have v: "unat (r + of_nat k) = unat r + k"
    using B by (intro unat_region_add [OF assms(1)]) simp
  then have "unat (r + of_nat k) + 2 ^ j \<le> 2 ^ 64" using B pow by simp
  from align_up_props(1-3) [OF _ this] assms(2) v
  show "unat r + k \<le> unat (align_up (r + of_nat k) (2 ^ j))"
    "unat (align_up (r + of_nat k) (2 ^ j)) < unat r + k + 2 ^ j"
    "2 ^ j dvd unat (align_up (r + of_nat k) (2 ^ j))" by simp_all
qed

text \<open>A block between the bump pointer and the end of a region.\<close>

lemma block_in_region:
  assumes "bump_region p taken m r k n" and "k \<le> k'" and "k' + l \<le> n"
  defines "c \<equiv> hhdm_virt_to_phys p r"
  shows "area_bytes (c + of_nat k', l) \<subseteq> area_bytes (c + of_nat k, n - k)"
    and "area_bytes (c + of_nat (k' + l), n - (k' + l)) \<subseteq> area_bytes (c + of_nat k, n - k)"
    and "area_bytes (c + of_nat k', l) \<inter> area_bytes (c + of_nat (k' + l), n - (k' + l)) = {}"
    and "area_bytes (c + of_nat k', l) \<inter> area_bytes (c, 24) = {}"
    and "area_bytes (c + of_nat k', l) \<inter> taken = {}"
proof -
  note R = assms(1) [unfolded bump_region_def, folded c_def]
  have lim: "unat c + n \<le> 2 ^ 56" "24 \<le> k" "k \<le> n" using R by simp_all
  have off: "unat (c + of_nat i) = unat c + i" if "i \<le> n" for i
    using lim that by (subst unat_add_nowrap) (simp_all add: unat_of_nat_64)
  have mem: "x \<in> area_bytes (c + of_nat i, d) \<longleftrightarrow> unat c + i \<le> unat x \<and> unat x < unat c + i + d"
    if "i + d \<le> n" for i d x
    using off [of i] lim that by (simp add: in_range_nowrap)
  have hd: "x \<in> area_bytes (c, d) \<longleftrightarrow> unat c \<le> unat x \<and> unat x < unat c + d" if "d \<le> n" for d x
    using lim that by (simp add: in_range_nowrap)
  have nk: "k + (n - k) \<le> n" "k' + l + (n - (k' + l)) \<le> n" "24 \<le> n" using lim assms(3) by simp_all
  show "area_bytes (c + of_nat k', l) \<subseteq> area_bytes (c + of_nat k, n - k)"
    "area_bytes (c + of_nat (k' + l), n - (k' + l)) \<subseteq> area_bytes (c + of_nat k, n - k)"
    "area_bytes (c + of_nat k', l) \<inter> area_bytes (c + of_nat (k' + l), n - (k' + l)) = {}"
    "area_bytes (c + of_nat k', l) \<inter> area_bytes (c, 24) = {}"
    using assms(2,3) lim(2)
    by (auto simp only: mem [OF assms(3)] mem [OF nk(1)] mem [OF nk(2)] hd [OF nk(3)] subset_iff
        disjoint_iff)
  show "area_bytes (c + of_nat k', l) \<inter> taken = {}"
    using R assms(3) hd [OF order_refl] mem [OF assms(3)] by (auto simp: disjoint_iff)
qed

text \<open>The second step: the current region has room for the request.\<close>

lemma bump_room:
  assumes I: "bump_inv ops inv owned p (b1, s1)" and "b1 \<noteq> bump_empty" and "small_request sz j"
    and "al = align_up (br_curr p (po_mem ops s1) (bm_current_region b1)) (2 ^ j)"
    and "lim = br_end p (po_mem ops s1) (bm_current_region b1)"
    and run: "(if lim < al + sz then bump_extend ops p (al + sz - lim) (b1, s1) else Done (b1, s1)) =
      Done (b2, s2)"
    and up: "bm_current_region b2 \<noteq> hhdm_phys_to_virt p 0"
  shows "bump_inv ops inv owned p (b2, s2) \<and> b2 \<noteq> bump_empty \<and>
    bump_owned ops owned p (b2, s2) \<subseteq> bump_owned ops owned p (b1, s1) \<and>
    (\<forall>y. y \<notin> bump_owned ops owned p (b1, s1) \<longrightarrow> po_mem ops s2 y = po_mem ops s1 y) \<and>
    (\<exists>k n. bump_region p (owned s2) (po_mem ops s2) (bm_current_region b2) k n \<and>
      unat (align_up (bm_current_region b2 + of_nat k) (2 ^ j)) + unat sz
        \<le> unat (bm_current_region b2) + n)"
proof -
  note J = bump_invD [OF I]
  obtain k n where reg: "bump_region p (owned s1) (po_mem ops s1) (bm_current_region b1) k n"
    and list: "bm_region_list b1 \<noteq> 0"
    using J(3) assms(2) by blast
  note B = bump_region_bounds [OF reg]
  have al: "al = align_up (bm_current_region b1 + of_nat k) (2 ^ j)"
    "lim = bm_current_region b1 + of_nat n"
    using reg assms(4,5) by (simp_all add: bump_region_def)
  have sr: "j \<le> 12" "0 < unat sz" "unat sz + 2 ^ j + 24 \<le> 8192"
    using assms(3) by (simp_all add: small_request_def)
  note A = unat_align_small [OF reg sr(1), folded al(1)]
  have lim: "unat lim = unat (bm_current_region b1) + n"
    unfolding al(2) by (rule unat_region_add [OF reg]) simp
  have sum: "unat (al + sz) = unat al + unat sz"
    using A B sr by (subst unat_add_nowrap) simp_all
  show ?thesis
  proof (cases "lim < al + sz")
    case False
    then have "unat al + unat sz \<le> unat (bm_current_region b1) + n"
      using lim sum by (simp add: word_less_nat_alt)
    moreover have "b2 = b1" "s2 = s1" using run False by simp_all
    ultimately show ?thesis using I assms(2) reg al(1) by blast
  next
    case True
    then have "unat (al + sz - lim) = unat al + unat sz - unat lim"
      using sum by (subst unat_sub_nowrap) (simp_all add: less_imp_le)
    then have d: "1 \<le> unat (al + sz - lim)" "unat (al + sz - lim) \<le> 2 ^ 20"
      using True A B sr lim sum by (simp_all add: word_less_nat_alt)
    obtain w n' where E: "inv s2" "w \<noteq> 0" "8192 \<le> n'"
      "b2 = b1\<lparr>bm_current_region := hhdm_phys_to_virt p w\<rparr>"
      "bump_region p (owned s2) (po_mem ops s2) (hhdm_phys_to_virt p w) 24 n'"
      "area_bytes (w, n') \<subseteq> owned s1" "owned s2 \<subseteq> owned s1 - area_bytes (w, n')"
      "\<And>x. x \<notin> owned s1 \<Longrightarrow> \<not> in_range x (hhdm_virt_to_phys p (bm_current_region b1), 24) \<Longrightarrow>
        po_mem ops s2 x = po_mem ops s1 x"
      by (rule extend_region [OF J(1,2) reg d _ up, of s2]) (use run True in auto)
    have "unat (align_up (hhdm_phys_to_virt p w + of_nat 24) (2 ^ j)) + unat sz
        \<le> unat (hhdm_phys_to_virt p w) + n'"
      using unat_align_small [OF E(5) sr(1)] sr(3) E(3) by linarith
    moreover have "bump_owned ops owned p (b2, s2) \<subseteq> bump_owned ops owned p (b1, s1)"
      using bump_owned_region [of p owned s2 ops b2 24 n'] region_bytes [OF E(5)] E(4-7)
      by (auto simp: bump_owned_def [of ops owned p] area_bytes_def split: if_splits)
    moreover have "bump_inv ops inv owned p (b2, s2)"
      using E J(2) list direct_map_mono [of p "owned s1" "owned s2"] by (auto simp: bump_inv_def)
    moreover have "b2 \<noteq> bump_empty"
      using E(4) list by (cases b1) (auto simp: bump_empty_def)
    moreover have "\<forall>y. y \<notin> bump_owned ops owned p (b1, s1) \<longrightarrow> po_mem ops s2 y = po_mem ops s1 y"
      using E(8) by (simp add: bump_owned_region [of p owned s1 ops b1 k n] reg)
    ultimately show ?thesis using E(4,5) by (intro conjI exI [of _ 24] exI [of _ n']) simp_all
  qed
qed

text \<open>The steps of a request that returns.\<close>

lemma bump_alloc_steps:
  assumes run: "bump_alloc_aligned ops p sz a (b, s) = Done (ptr, b', s')" and "sz \<noteq> 0" and "a \<noteq> 0"
  obtains b1 s1 b2 s2 where "bump_ensure ops p (b, s) = Done (b1, s1)"
    and "bm_current_region b1 \<noteq> 0"
    and "(let e = align_up (br_curr p (po_mem ops s1) (bm_current_region b1)) a + sz;
        lim = br_end p (po_mem ops s1) (bm_current_region b1)
      in if lim < e then bump_extend ops p (e - lim) (b1, s1) else Done (b1, s1)) = Done (b2, s2)"
    and "ptr = align_up (br_curr p (po_mem ops s2) (bm_current_region b2)) a"
    and "b' = b2" and "s' = po_put ops (set_curr p (bm_current_region b2) (ptr + sz)
        (set_curr p (bm_current_region b2) ptr (po_mem ops s2))) s2"
proof -
  obtain b1 s1 where one: "bump_ensure ops p (b, s) = Done (b1, s1)" and cur: "bm_current_region b1 \<noteq> 0"
    using run assms(2,3) unfolding bump_alloc_aligned_def
    by (auto simp: bind_outcome_Done_iff split: if_splits)
  have req: "\<not> (sz = 0 \<or> a = 0)" using assms(2,3) by blast
  let ?e = "align_up (br_curr p (po_mem ops s1) (bm_current_region b1)) a + sz"
  let ?lim = "br_end p (po_mem ops s1) (bm_current_region b1)"
  have "bind_outcome (if ?lim < ?e then bump_extend ops p (?e - ?lim) (b1, s1)
      else Done (b1, s1)) (\<lambda>(b2, s2).
        let q = align_up (br_curr p (po_mem ops s2) (bm_current_region b2)) a
        in Done (q, b2, po_put ops (set_curr p (bm_current_region b2) (q + sz)
             (set_curr p (bm_current_region b2) q (po_mem ops s2))) s2)) = Done (ptr, b', s')"
    using run by (simp only: bump_alloc_aligned_def prod.case if_not_P [OF req] one bind_outcome.simps
        if_not_P [OF cur] Let_def)
  then show thesis
    using that [OF one cur] by (auto simp: bind_outcome_Done_iff Let_def simp del: if_split)
qed

lemma bump_acquire_cases:
  assumes I: "bump_inv ops inv owned p x" and "small_request sz j"
    and run: "bump_alloc_aligned ops p sz (2 ^ j) x = Done (ptr, x')"
    and up: "bm_current_region (fst x') \<noteq> hhdm_phys_to_virt p 0"
  shows "bump_inv ops inv owned p x'"
    and "area_bytes (hhdm_virt_to_phys p ptr, unat sz) \<subseteq> bump_owned ops owned p x"
    and "bump_owned ops owned p x' \<subseteq>
      bump_owned ops owned p x - area_bytes (hhdm_virt_to_phys p ptr, unat sz)"
    and "2 ^ j dvd unat ptr" and "ptr \<noteq> 0"
    and "\<forall>y. y \<notin> bump_owned ops owned p x \<longrightarrow> po_mem ops (snd x') y = po_mem ops (snd x) y"
    and "unat ptr + unat sz \<le> 2 ^ 64"
proof -
  obtain b s b' s' where x: "x = (b, s)" "x' = (b', s')" by (cases x, cases x')
  have sr: "sz \<noteq> 0" "(2 :: u64) ^ j \<noteq> 0" "j \<le> 12"
    using assms(2) unat_pow_64 [of j] by (auto simp: small_request_def simp flip: unat_eq_0)
  obtain b1 s1 b2 s2 where one: "bump_ensure ops p (b, s) = Done (b1, s1)"
    and cur: "bm_current_region b1 \<noteq> 0"
    and two: "(let e = align_up (br_curr p (po_mem ops s1) (bm_current_region b1)) (2 ^ j) + sz;
        lim = br_end p (po_mem ops s1) (bm_current_region b1)
      in if lim < e then bump_extend ops p (e - lim) (b1, s1) else Done (b1, s1)) = Done (b2, s2)"
    and ptr: "ptr = align_up (br_curr p (po_mem ops s2) (bm_current_region b2)) (2 ^ j)"
    and x': "b' = b2" "s' = po_put ops (set_curr p (bm_current_region b2) (ptr + sz)
        (set_curr p (bm_current_region b2) ptr (po_mem ops s2))) s2"
    using bump_alloc_steps [OF run [unfolded x] sr(1,2)] by metis
  define al lim where "al = align_up (br_curr p (po_mem ops s1) (bm_current_region b1)) (2 ^ j)"
    and "lim = br_end p (po_mem ops s1) (bm_current_region b1)"
  note two = two [unfolded Let_def, folded al_def lim_def]
  have b1: "b1 \<noteq> bump_empty" using cur by (auto simp: bump_empty_def)
  note R1 = bump_ready [OF I [unfolded x(1)] b1 one]
  have R2: "bump_inv ops inv owned p (b2, s2)" "b2 \<noteq> bump_empty"
    "bump_owned ops owned p (b2, s2) \<subseteq> bump_owned ops owned p (b1, s1)"
    "\<forall>y. y \<notin> bump_owned ops owned p (b1, s1) \<longrightarrow> po_mem ops s2 y = po_mem ops s1 y"
    "\<exists>k n. bump_region p (owned s2) (po_mem ops s2) (bm_current_region b2) k n \<and>
      unat (align_up (bm_current_region b2 + of_nat k) (2 ^ j)) + unat sz
        \<le> unat (bm_current_region b2) + n"
    using bump_room [OF R1(1) b1 assms(2) al_def lim_def two] up x x' by auto
  then obtain k n where reg: "bump_region p (owned s2) (po_mem ops s2) (bm_current_region b2) k n"
    and fits: "unat (align_up (bm_current_region b2 + of_nat k) (2 ^ j)) + unat sz
        \<le> unat (bm_current_region b2) + n" by blast
  have al2: "ptr = align_up (bm_current_region b2 + of_nat k) (2 ^ j)"
    using reg ptr by (simp add: bump_region_def)
  note T = take_from_region [OF bump_invD(1) [OF R2(1)] reg sr(3) al2 fits [folded al2],
      folded x'(2)]
  show "2 ^ j dvd unat ptr" by (rule T(5))
  show "ptr \<noteq> 0" using T(4) bump_region_bounds(1) [OF reg] by (auto simp: unat_eq_0)
  show "bump_inv ops inv owned p x'"
    using T(1-3) bump_invD [OF R2(1)] R2(2) x x'(1) by (auto simp: bump_inv_def)
  let ?r = "bm_current_region b2"
  define k' where "k' = unat ptr - unat ?r"
  have k': "k \<le> k'" "k' + unat sz \<le> n" "ptr = ?r + of_nat k'"
    using T(4) fits al2 by (auto simp: k'_def of_nat_diff)
  have before: "bump_owned ops owned p (b2, s2) = owned s2 \<union> area_bytes (hhdm_virt_to_phys p ?r, 24) \<union>
      area_bytes (hhdm_virt_to_phys p ?r + of_nat k, n - k)"
    by (rule bump_owned_region) (rule reg)
  have after: "bump_owned ops owned p x' = owned s2 \<union> area_bytes (hhdm_virt_to_phys p ?r, 24) \<union>
      area_bytes (hhdm_virt_to_phys p ?r + of_nat (k' + unat sz), n - (k' + unat sz))"
    using bump_owned_region [of p owned s' ops b2 "k' + unat sz" n] T(2,3) x x' by (simp add: k'_def)
  have phys: "hhdm_virt_to_phys p ptr = hhdm_virt_to_phys p ?r + of_nat k'"
    by (simp add: k'(3))
  have sets: "S \<union> H \<union> T \<subseteq> S \<union> H \<union> K - A"
    if "A \<subseteq> K" "T \<subseteq> K" "A \<inter> T = {}" "A \<inter> H = {}" "A \<inter> S = {}" for A K S H T :: "u64 set"
    using that by blast
  note blk = block_in_region [OF reg k'(1,2)]
  have up: "bump_owned ops owned p (b2, s2) \<subseteq> bump_owned ops owned p x"
    using R1(2) R2(3) x by simp
  show "area_bytes (hhdm_virt_to_phys p ptr, unat sz) \<subseteq> bump_owned ops owned p x"
    using subset_trans [OF blk(1)] up unfolding before phys by simp
  show "bump_owned ops owned p x' \<subseteq>
      bump_owned ops owned p x - area_bytes (hhdm_virt_to_phys p ptr, unat sz)"
    using up sets [OF blk] unfolding before after phys by blast
  have "po_mem ops s' y = po_mem ops s y" if "y \<notin> bump_owned ops owned p (b, s)" for y
  proof -
    have "y \<notin> bump_owned ops owned p (b1, s1)" "y \<notin> bump_owned ops owned p (b2, s2)"
      using that R1(2) R2(3) by auto
    then have "po_mem ops s' y = po_mem ops s2 y" "po_mem ops s2 y = po_mem ops s1 y"
      using T(6) [of y] R2(4) unfolding before by auto
    then show ?thesis using R1(3) that by simp
  qed
  then show "\<forall>y. y \<notin> bump_owned ops owned p x \<longrightarrow> po_mem ops (snd x') y = po_mem ops (snd x) y"
    by (simp add: x)
  show "unat ptr + unat sz \<le> 2 ^ 64"
    using fits [folded al2] reg by (simp add: bump_region_def)
qed

lemma bump_write_laws:
  assumes "bump_inv ops inv owned p x" and "bump_write ops owned p x F x'"
  shows "bump_inv ops inv owned p x'" and "bump_owned ops owned p x' = bump_owned ops owned p x"
proof -
  obtain b s m where x: "x = (b, s)" "x' = (b, po_put ops m s)"
    and m: "\<forall>y \<in> bump_owned ops owned p (b, s). m y = po_mem ops s y"
    using assms(2) by (cases x) (auto simp: bump_write_def)
  note I = bump_invD [OF assms(1) [unfolded x(1)]]
  have "owned s \<subseteq> bump_owned ops owned p (b, s)" by (auto simp: bump_owned_def)
  then have keep: "\<And>y. y \<in> owned s \<Longrightarrow> m y = po_mem ops s y" using m by blast
  note put = put_inv [OF I(1) keep] put_owned [OF I(1) keep]
  have hdr: "br_end p m (bm_current_region b) = br_end p (po_mem ops s) (bm_current_region b) \<and>
      br_curr p m (bm_current_region b) = br_curr p (po_mem ops s) (bm_current_region b)"
    if "b \<noteq> bump_empty"
    using header_frame [of p "bm_current_region b" m "po_mem ops s"] m that
    by (simp add: bump_owned_def Let_def)
  then have "bump_region p (owned s) m (bm_current_region b) k n"
    if "bump_region p (owned s) (po_mem ops s) (bm_current_region b) k n" "b \<noteq> bump_empty" for k n
    using that by (simp add: bump_region_def)
  then show "bump_inv ops inv owned p x'"
    using I put x by (auto simp: bump_inv_def put_mem)
  show "bump_owned ops owned p x' = bump_owned ops owned p x"
    using put hdr x by (simp add: bump_owned_def put_mem)
qed

end

text \<open>Over any supply of pages the bump allocator is an area source.\<close>

sublocale page_supply \<subseteq> bump: area_source "bump_inv ops inv owned p" "bump_owned ops owned p"
  "bump_acquire ops p" "bump_write ops owned p" for p
proof
  fix x x' a
  assume I: "bump_inv ops inv owned p x" and "bump_acquire ops p x a x'"
  then obtain sz j ptr where a: "small_request sz j"
    "bump_alloc_aligned ops p sz (2 ^ j) x = Done (ptr, x')"
    "bm_current_region (fst x') \<noteq> hhdm_phys_to_virt p 0" "a = (hhdm_virt_to_phys p ptr, unat sz)"
    by (auto simp: bump_acquire_def)
  note C = bump_acquire_cases [OF I a(1-3)]
  show "bump_inv ops inv owned p x'" "area_bytes a \<subseteq> bump_owned ops owned p x"
    "bump_owned ops owned p x' \<subseteq> bump_owned ops owned p x - area_bytes a"
    using C a(4) by simp_all
next
  fix x x' F
  assume "bump_inv ops inv owned p x" and "bump_write ops owned p x F x'"
  from bump_write_laws [OF this] show "bump_inv ops inv owned p x'"
    "bump_owned ops owned p x' \<subseteq> bump_owned ops owned p x \<union> F" by auto
qed

end
