(* ===== verification/Client_Properties.thy ===== *)
theory Client_Properties
  imports Bump Sv39_Properties
begin

text \<open>
  The clients of the physical memory manager that keep growing: the stack and the bump
  allocator. Their lemmas are proved for any supply of pages; here they are stated for
  the memory manager, with the cases in which the code does not do what it should.
\<close>

section \<open>A small machine with a direct map\<close>

definition demo_platform :: platform_info where
  "demo_platform = \<lparr>framebuffer_count = 0, framebuffers = 0, mode = 0, memmap_count = 0, memmap = 0,
     device_tree_blob = 0, hhdm_base = 0xFFFFFFC000000000\<rparr>"

lemma demo_direct_map:
  assumes "pmm_view s = [fresh_view 0x80000000 0x10000]"
  shows "direct_map demo_platform (pmm_reserved demo_buf s)"
proof -
  have "unat x < 0x80010000" if "x \<in> pmm_reserved demo_buf s" "unat x < 2 ^ 56" for x
    using that assms
    by (auto simp: pmm_reserved_def pmm_owned_def view_bytes_def fresh_view_def demo_buf_def
        in_range_nowrap)
  then show ?thesis
    by (fastforce simp: direct_map_def demo_platform_def)
qed

lemma demo_serving:
  obtains s where "serving demo_buf 16 s" and "pmm_view s = [fresh_view 0x80000000 0x10000]"
    and "pmm_sound demo_buf s" and "direct_map demo_platform (pmm_reserved demo_buf s)"
    and "alloc_ready demo_buf s" and "pmm_whole s"
proof -
  obtain s where s: "alloc_ready demo_buf s" "pmm_whole s"
    "pmm_view s = [fresh_view 0x80000000 0x10000]"
    by (rule demo_state [of "\<lambda>_. 0"]) blast
  then have "serving demo_buf 16 s"
    by (simp add: serving_def pages_left_def fresh_view_def)
  then show ?thesis
    using that s serving_sound demo_direct_map by blast
qed

section \<open>The stack\<close>

text \<open>The allocation that a client makes is the memory manager's \<^verbatim>\<open>alloc_noerr\<close>.\<close>

lemma supply_noerr_pmm: "supply_noerr pmm_ops n s = alloc_noerr n s"
  by (simp add: supply_noerr_def alloc_noerr_def alloc_aligned_noerr_def pmm_alloc_def)

text \<open>A memory manager with \<open>k\<close> pages in a region serves requests of up to \<open>k\<close> pages.\<close>

lemma page_count_request: "unat (align_up n PAGE_SIZE) = page_count n * 4096"
proof -
  have "4096 dvd unat (align_up n (0x1000 :: u64))"
    using align_up_eq_mask [of n 12] unat_and_not_mask [of "n + mask 12" 12] by simp
  then show ?thesis by (simp add: page_count_def PAGE_SIZE_def)
qed

lemma serving_serves: "serving buf k s \<Longrightarrow> serves pmm_ops k s"
proof (induction k arbitrary: s rule: less_induct)
  case (less k)
  show ?case
  proof (rule serves)
    fix n assume n: "0 < page_count n" "page_count n \<le> k"
    then obtain w s' where "pmm_alloc n False s = Done (error_of SUCCESS, Some w, s')"
      and "serving buf (k - page_count n) s'"
      by (rule_tac alloc_serving_pages [OF _ page_count_request n(1), of buf "k - page_count n" s]) (use less.prems in auto)
    then show "\<exists>w s1. supply_noerr pmm_ops n s = Done (w, s1) \<and>
        (\<forall>pa. serves pmm_ops (k - page_count n) (snd (po_free pmm_ops pa s1)))"
      using less.IH [of "k - page_count n"] n
      by (auto simp: supply_noerr_def pmm_free_def pmm_println_def)
  qed
qed

text \<open>
  C34. Refinement of \<open>stack::push_back\<close> and \<open>emplace_back\<close>. A push appends one element to
  the list that the stack represents and returns the address of its slot. Objects that
  earlier references point to keep their value, also when the stack moved to a larger
  buffer. A push fails only if the stack is full and the memory manager stops the kernel.
\<close>

theorem stack_push_refines:
  assumes "pmm_sound buf s" and "stack_rep p sz (pmm_reserved buf s) st objs xs"
    and "0 < unat sz" and "unat sz \<le> 4096"
  shows "stack_push_back pmm_ops p sz v (st, objs, s) = stack_emplace_back pmm_ops p sz v (st, objs, s) \<and>
    (case stack_push_back pmm_ops p sz v (st, objs, s) of
       Done (a, st', objs', s') \<Rightarrow>
         pmm_sound buf s' \<and> stack_rep p sz (pmm_reserved buf s') st' objs' (xs @ [v]) \<and>
         a = slot (st_buffer st') sz (length xs) \<and> objs a = None \<and> objs' a = Some v \<and>
         (\<forall>b y. objs b = Some y \<longrightarrow> objs' b = Some y)
     | Halt h \<Rightarrow> st_size st = st_capacity st \<and> (\<exists>n. alloc_noerr n s = Halt h))"
proof (rule conjI [OF push_back_emplace])
  show "case stack_push_back pmm_ops p sz v (st, objs, s) of
       Done (a, st', objs', s') \<Rightarrow>
         pmm_sound buf s' \<and> stack_rep p sz (pmm_reserved buf s') st' objs' (xs @ [v]) \<and>
         a = slot (st_buffer st') sz (length xs) \<and> objs a = None \<and> objs' a = Some v \<and>
         (\<forall>b y. objs b = Some y \<longrightarrow> objs' b = Some y)
     | Halt h \<Rightarrow> st_size st = st_capacity st \<and> (\<exists>n. alloc_noerr n s = Halt h)"
    unfolding push_back_emplace
  proof (rule pmm_pages.emplace_cases [OF assms, of v])
  qed (auto simp: supply_noerr_pmm pmm_pages.emplaced_def split: outcome.splits)
qed

theorem stack_push_refines_witness:
  "\<exists>s a st objs s'. pmm_sound demo_buf s \<and>
     stack_push_back pmm_ops demo_platform 16 (5 :: nat) (stack_empty, \<lambda>_. None, s) =
       Done (a, st, objs, s') \<and>
     stack_rep demo_platform 16 (pmm_reserved demo_buf s') st objs [5]"
proof -
  obtain s where s: "serving demo_buf 16 s" "pmm_sound demo_buf s"
    by (rule demo_serving)
  have rep: "stack_rep demo_platform 16 (pmm_reserved demo_buf s) stack_empty (\<lambda>_. None :: nat option) []"
    by (rule stack_rep_empty) simp
  obtain w s1 where al: "pmm_alloc sv39_PAGE_SIZE False s = Done (error_of SUCCESS, Some w, s1)"
    by (rule alloc_serving [of demo_buf 15 s]) (use s(1) in simp)
  have w: "w \<noteq> 0"
    using pmm_alloc_law [OF s(2) al] by blast
  have size: "align_up (align_up 0 sv39_PAGE_SIZE * 3 div 2 + 1) sv39_PAGE_SIZE = sv39_PAGE_SIZE"
    by (simp add: align_up_def sv39_PAGE_SIZE_def)
  have "supply_noerr pmm_ops sv39_PAGE_SIZE s = Done (w, s1)"
    using al by (simp add: supply_noerr_def)
  then have "\<exists>r. stack_push_back pmm_ops demo_platform 16 (5 :: nat) (stack_empty, \<lambda>_. None, s) = Done r"
    using w size
    by (simp add: stack_push_back_def stack_grow_def stack_empty_def Let_def add.commute)
  then show ?thesis
    using stack_push_refines [OF s(2) rep, of 5] s(2) by auto
qed

section \<open>The bump allocator\<close>

lemma bump_start: "pmm_sound buf s \<Longrightarrow> direct_map p (pmm_reserved buf s) \<Longrightarrow>
    bump_inv pmm_ops (pmm_sound buf) (pmm_reserved buf) p (bump_empty, s)"
  by (simp add: bump_inv_def)

text \<open>The first small block of an allocator comes from a fresh page.\<close>

lemma bump_first_block:
  assumes "serving buf (Suc k) s" and "direct_map p (pmm_reserved buf s)"
    and "small_request sz j" and "unat sz + 2 ^ j + 24 \<le> 4096"
  obtains ptr x' where "bump_alloc_aligned pmm_ops p sz (2 ^ j) (bump_empty, s) = Done (ptr, x')"
    and "bm_current_region (fst x') \<noteq> hhdm_phys_to_virt p 0"
proof -
  have sound: "pmm_sound buf s" by (rule serving_sound [OF assms(1)])
  obtain w s1 where al: "pmm_alloc sv39_PAGE_SIZE False s = Done (error_of SUCCESS, Some w, s1)"
    by (rule alloc_serving [OF assms(1)])
  define r s2 where "r = hhdm_phys_to_virt p w"
    and "s2 = s1\<lparr>pm_mem := init_region p r sv39_PAGE_SIZE (pm_mem s1)\<rparr>"
  have grow: "bump_grow pmm_ops p (bump_empty, s) =
      Done (error_of SUCCESS, \<lparr>bm_region_list = r, bm_current_region = r\<rparr>, s2)"
    using al by (simp add: bump_grow_def bump_empty_def Let_def r_def s2_def)
  have reg: "bump_region p (pmm_reserved buf s2) (pm_mem s2) r 24 4096" and "w \<noteq> 0"
    by (rule pmm_pages.grow_region [OF sound assms(2) grow], auto simp: r_def hhdm_phys_to_virt_def)+
  have ensure: "bump_ensure pmm_ops p (bump_empty, s) =
      Done (\<lparr>bm_region_list = r, bm_current_region = r\<rparr>, s2)"
    using grow by (simp add: bump_ensure_def bump_empty_def)
  have j: "j \<le> 12" "sz \<noteq> 0" "(2 :: u64) ^ j \<noteq> 0"
    using assms(3) by (auto simp: small_request_def)
  note A = pmm_pages.unat_align_small [OF reg j(1)] and B = bump_region_bounds [OF reg]
  let ?al = "align_up (r + of_nat 24) (2 ^ j)"
  have "unat (?al + sz) = unat ?al + unat sz"
    using A B assms(4) by (subst unat_add_nowrap) simp_all
  then have room: "\<not> r + of_nat 4096 < ?al + sz"
    using unat_region_add [OF reg, of 4096] A(2) assms(4) by (simp add: word_less_nat_alt)
  have hdr: "br_end p (pm_mem s2) r = r + of_nat 4096" "br_curr p (pm_mem s2) r = r + of_nat 24"
    "r \<noteq> 0"
    using reg by (simp_all add: bump_region_def)
  have "r \<noteq> hhdm_phys_to_virt p 0"
    using \<open>w \<noteq> 0\<close> by (simp add: r_def hhdm_phys_to_virt_def)
  moreover have "\<exists>ptr s'. bump_alloc_aligned pmm_ops p sz (2 ^ j) (bump_empty, s) =
      Done (ptr, \<lparr>bm_region_list = r, bm_current_region = r\<rparr>, s')"
    using j(2,3) room hdr ensure by (simp add: bump_alloc_aligned_def Let_def)
  ultimately show ?thesis
    using that by fastforce
qed



text \<open>What a byte-aligned request does that the current region has no room for.\<close>

lemma bump_alloc_extending:
  assumes reg: "bump_region p taken (pm_mem s) (bm_current_region b) k n" and "bm_region_list b \<noteq> 0"
    and sz: "0 < unat sz" "unat sz \<le> 65535" "n < k + unat sz"
    and al: "pmm_alloc (align_up (of_nat (k + unat sz - n)) sv39_PAGE_SIZE + sv39_PAGE_SIZE) False s =
      Done (e, Some w, s1)"
  shows "\<exists>s'. bump_alloc_aligned pmm_ops p sz 1 (b, s) =
    Done (hhdm_phys_to_virt p (w + 24), b\<lparr>bm_current_region := hhdm_phys_to_virt p w\<rparr>, s')"
proof -
  note R = reg [unfolded bump_region_def] and B = bump_region_bounds [OF reg]
  let ?r = "bm_current_region b"
  have id: "align_up v 1 = v" for v :: u64
    using align_up_id [of 0 v] by simp
  have curr: "?r + of_nat k + sz = ?r + of_nat (k + unat sz)" by simp
  have "unat (?r + of_nat (k + unat sz)) = unat ?r + (k + unat sz)"
    "unat (?r + of_nat n) = unat ?r + n"
    using sz B by (intro unat_region_add [OF reg]; simp)+
  then have "?r + of_nat n < ?r + of_nat k + sz"
    unfolding curr word_less_nat_alt using sz(3) by simp
  moreover have "?r + of_nat k + sz - (?r + of_nat n) = of_nat (k + unat sz - n)"
    using sz(3) by (simp add: of_nat_diff)
  moreover have "sz \<noteq> 0" "?r \<noteq> 0" using sz(1) R by auto
  moreover have "hhdm_phys_to_virt p w + 24 = hhdm_phys_to_virt p (w + 24)"
    by (simp add: hhdm_phys_to_virt_def)
  ultimately show ?thesis
    using al R assms(2)
    by (simp add: bump_alloc_aligned_def bump_ensure_def bump_extend_def Let_def id
        init_region_fields sizeof_region_def)
qed

text \<open>A region header that a client of the small machine could have at \<^verbatim>\<open>0x200000\<close>.\<close>

lemma demo_region:
  assumes "24 \<le> k" and "k \<le> n" and "n \<le> 65536"
  obtains s and b :: bump_alloc where "alloc_ready demo_buf s" and "pmm_whole s"
    and "pmm_sound demo_buf s" and "pmm_view s = [fresh_view 0x80000000 0x10000]" and "bm_region_list b \<noteq> 0"
    and "bump_region demo_platform (pmm_reserved demo_buf s) (pm_mem s) (bm_current_region b) k n"
    and "bm_current_region b = hhdm_phys_to_virt demo_platform 0x200000"
proof -
  obtain s where s: "serving demo_buf 16 s" "pmm_view s = [fresh_view 0x80000000 0x10000]"
    "pmm_sound demo_buf s"
    by (rule demo_serving)
  define r where "r = hhdm_phys_to_virt demo_platform 0x200000"
  define m where "m = set_curr demo_platform r (r + of_nat k)
    (init_region demo_platform r (of_nat n) (pm_mem s))"
  have phys: "hhdm_virt_to_phys demo_platform r = 0x200000" by (simp add: r_def)
  have reserved: "\<not> in_range x (0x200000, 65536)" if "x \<in> pmm_reserved demo_buf s" for x
    using that s(2)
    by (auto simp: pmm_reserved_def pmm_owned_def view_bytes_def fresh_view_def demo_buf_def
        in_range_nowrap)
  have keep: "m x = pm_mem s x" if "x \<in> pmm_reserved demo_buf s" for x
    using reserved [OF that] unfolding m_def
    by (subst set_curr_fields(3), simp add: phys in_range_def)
      (rule init_region_fields(3), simp add: phys in_range_def)
  note put = put_serving [OF s(1) keep] and law = pmm_put_law [OF s(3) keep]
  have "pmm_inv demo_buf s" "buf_ok demo_buf" using s(3) by (simp_all add: pmm_sound_def)
  then have view: "pmm_view (s\<lparr>pm_mem := m\<rparr>) = pmm_view s"
    using pmm_write_inv [of demo_buf s m] keep by (auto simp: pmm_reserved_def)
  have r: "unat r = 0xFFFFFFC000200000"
    by (simp add: r_def hhdm_phys_to_virt_def demo_platform_def)
  have free: "\<not> in_range x (0x200000, n)" if "x \<in> pmm_reserved demo_buf s" for x
    using reserved [OF that] assms(3) by (simp add: in_range_def)
  have "bump_region demo_platform (pmm_reserved demo_buf s) m r k n"
    using assms r free by (auto simp: bump_region_def phys m_def set_curr_fields init_region_fields)
  then show ?thesis
    using that [of "s\<lparr>pm_mem := m\<rparr>" "\<lparr>bm_region_list = r, bm_current_region = r\<rparr>"] put law view s(2)
    by (auto simp: serving_def bump_region_def r_def)
qed

text \<open>
  C39. Running out of pages. Without a region, \<open>alloc\<close> returns null even though pages are
  left, and \<open>alloc_aligned\<close> dereferences null when no page is left. With a region that is
  full, \<open>alloc_aligned\<close> ignores the failure of the memory manager: it makes physical page
  zero its region and hands out the bytes after the header there.
\<close>

theorem bump_out_of_pages:
  assumes "pmm_alloc sv39_PAGE_SIZE False s0 = Done (error_of PMM_OUT_OF_MEM, Some 0, s0)"
    and "bump_region p taken (pm_mem s) (bm_current_region b) k n" and "bm_region_list b \<noteq> 0"
    and "0 < unat sz" "unat sz \<le> 65535" "n < k + unat sz"
    and "pmm_alloc (align_up (of_nat (k + unat sz - n)) sv39_PAGE_SIZE + sv39_PAGE_SIZE) False s =
      Done (error_of PMM_OUT_OF_MEM, Some 0, s)"
  shows "bump_alloc_bytes pmm_ops p sz (bump_empty, s) = Done (0, bump_empty, s) \<and>
    bump_alloc_aligned pmm_ops p sz 1 (bump_empty, s0) = Halt Null_deref \<and>
    (\<exists>s'. bump_alloc_aligned pmm_ops p sz 1 (b, s) =
      Done (hhdm_phys_to_virt p 24, b\<lparr>bm_current_region := hhdm_phys_to_virt p 0\<rparr>, s'))"
proof (intro conjI)
  have "sz \<noteq> 0" using assms(4) by auto
  then show "bump_alloc_bytes pmm_ops p sz (bump_empty, s) = Done (0, bump_empty, s)"
    "bump_alloc_aligned pmm_ops p sz 1 (bump_empty, s0) = Halt Null_deref"
    using assms(1)
    by (simp_all add: bump_alloc_bytes_def bump_alloc_aligned_def bump_ensure_def bump_grow_def
        bump_empty_def)
  show "\<exists>s'. bump_alloc_aligned pmm_ops p sz 1 (b, s) =
      Done (hhdm_phys_to_virt p 24, b\<lparr>bm_current_region := hhdm_phys_to_virt p 0\<rparr>, s')"
    using bump_alloc_extending [OF assms(2-7)] by simp
qed

theorem bump_out_of_pages_witness:
  "\<exists>s b s'. pmm_sound demo_buf s \<and> bm_region_list b \<noteq> 0 \<and>
     bump_alloc_aligned pmm_ops demo_platform 65000 1 (b, s) =
       Done (hhdm_phys_to_virt demo_platform 24,
         b\<lparr>bm_current_region := hhdm_phys_to_virt demo_platform 0\<rparr>, s')"
proof -
  obtain s0 where s0: "pmm_inv demo_buf s0" "pm_pol s0 = FIRST_FIT" "active_regions s0 = []"
    "m_free (pm_block_allocator s0) = 64"
    by (rule initialize_ok [OF demo_buf_ok, of FIRST_FIT "\<lambda>_. 0"]) blast
  have empty: "alloc_ready demo_buf s0" "pmm_whole s0" "pmm_view s0 = []"
    using s0 demo_buf_ok by (simp_all add: alloc_ready_def pmm_whole_def pmm_view_def)
  have none: "pmm_alloc sv39_PAGE_SIZE False s0 = Done (error_of PMM_OUT_OF_MEM, Some 0, s0)"
    by (rule pmm_alloc_page_cases [OF empty(1,2), of sv39_PAGE_SIZE])
      (simp_all add: empty(3) pick_def)
  obtain s and b :: bump_alloc where s: "alloc_ready demo_buf s" "pmm_whole s" "pmm_sound demo_buf s"
    "pmm_view s = [fresh_view 0x80000000 0x10000]" and b: "bm_region_list b \<noteq> 0"
    "bump_region demo_platform (pmm_reserved demo_buf s) (pm_mem s) (bm_current_region b) 4096 4096"
    by (rule demo_region [of 4096 4096]) auto
  have g: "align_up (of_nat (4096 + unat (65000 :: u64) - 4096)) sv39_PAGE_SIZE + sv39_PAGE_SIZE =
      (69632 :: u64)" "align_up 69632 PAGE_SIZE = 69632"
    by (simp_all add: align_up_def sv39_PAGE_SIZE_def PAGE_SIZE_def)
  have "pmm_alloc 69632 False s = Done (error_of PMM_OUT_OF_MEM, Some 0, s)"
    by (rule pmm_alloc_page_cases [OF s(1,2), of 69632])
      (auto simp: s(4) g(2) pick_single fresh_view_def split: if_splits)
  then show ?thesis
    using bump_out_of_pages [OF none b(2,1), of 65000] g(1) s(3) b(1) by auto
qed

text \<open>
  C40. An overrun. The size of a new region is computed from what the request lacks in the
  old region. With 4095 bytes left there, a request of 8191 bytes gets a new region of
  8192 bytes, whose header takes 24: the block ends 23 bytes behind the pages that the
  memory manager gave out for it.
\<close>

theorem bump_block_overruns:
  assumes "bump_region p taken (pm_mem s) (bm_current_region b) k (k + 4095)"
    and "bm_region_list b \<noteq> 0" and "pmm_sound buf s"
    and "pmm_alloc 8192 False s = Done (error_of SUCCESS, Some w, s1)"
  shows "(\<exists>s'. bump_alloc_aligned pmm_ops p 8191 1 (b, s) =
      Done (hhdm_phys_to_virt p (w + 24), b\<lparr>bm_current_region := hhdm_phys_to_virt p w\<rparr>, s')) \<and>
    (\<forall>i < 23. w + 8192 + of_nat i \<in> area_bytes (w + 24, 8191) \<and>
       w + 8192 + of_nat i \<notin> area_bytes (request_area w 8192))"
proof
  have g: "align_up (of_nat (k + unat (8191 :: u64) - (k + 4095))) sv39_PAGE_SIZE + sv39_PAGE_SIZE =
      (8192 :: u64)"
    by (simp add: align_up_def sv39_PAGE_SIZE_def)
  show "\<exists>s'. bump_alloc_aligned pmm_ops p 8191 1 (b, s) =
      Done (hhdm_phys_to_virt p (w + 24), b\<lparr>bm_current_region := hhdm_phys_to_virt p w\<rparr>, s')"
    by (rule bump_alloc_extending [OF assms(1,2), of 8191]) (use g assms(4) in simp_all)
  have area: "request_area w 8192 = (w, 8192)"
    by (simp add: request_area_def align_up_def)
  show "\<forall>i < 23. w + 8192 + of_nat i \<in> area_bytes (w + 24, 8191) \<and>
       w + 8192 + of_nat i \<notin> area_bytes (request_area w 8192)"
  proof (intro allI impI)
    fix i :: nat assume i: "i < 23"
    have "w + 8192 + of_nat i = w + of_nat (8192 + i)"
      "w + 8192 + of_nat i = w + 24 + of_nat (8168 + i)" by simp_all
    moreover have "unat (of_nat (8192 + i) :: u64) = 8192 + i"
      "unat (of_nat (8168 + i) :: u64) = 8168 + i"
      using i by (intro unat_of_nat_64; simp)+
    ultimately show "w + 8192 + of_nat i \<in> area_bytes (w + 24, 8191) \<and>
       w + 8192 + of_nat i \<notin> area_bytes (request_area w 8192)"
      using i unfolding area by (auto simp: in_range_def)
  qed
qed

theorem bump_block_overruns_witness:
  "\<exists>s b w s'. pmm_sound demo_buf s \<and> bm_region_list b \<noteq> 0 \<and>
     bump_alloc_aligned pmm_ops demo_platform 8191 1 (b, s) =
       Done (hhdm_phys_to_virt demo_platform (w + 24),
         b\<lparr>bm_current_region := hhdm_phys_to_virt demo_platform w\<rparr>, s')"
proof -
  obtain s and b :: bump_alloc where s: "alloc_ready demo_buf s" "pmm_whole s" "pmm_sound demo_buf s"
    "pmm_view s = [fresh_view 0x80000000 0x10000]" and b: "bm_region_list b \<noteq> 0"
    "bump_region demo_platform (pmm_reserved demo_buf s) (pm_mem s) (bm_current_region b) 4097 8192"
    by (rule demo_region [of 4097 8192]) auto
  have g: "align_up 8192 PAGE_SIZE = 8192" by (simp add: align_up_def PAGE_SIZE_def)
  obtain w s1 where "pmm_alloc 8192 False s = Done (error_of SUCCESS, Some w, s1)"
    by (rule pmm_alloc_page_cases [OF s(1,2), of 8192])
      (auto simp: s(4) g pick_single fresh_view_def split: if_splits)
  moreover have "bump_region demo_platform (pmm_reserved demo_buf s) (pm_mem s) (bm_current_region b)
      4097 (4097 + 4095)"
    using b(2) by simp
  ultimately have "\<exists>s'. bump_alloc_aligned pmm_ops demo_platform 8191 1 (b, s) =
      Done (hhdm_phys_to_virt demo_platform (w + 24),
        b\<lparr>bm_current_region := hhdm_phys_to_virt demo_platform w\<rparr>, s')"
    using bump_block_overruns b(1) s(3) by blast
  then show ?thesis using s(3) b(1) by blast
qed

end
