(* ===== verification/Device_Tree.thy ===== *)
theory Device_Tree
  imports Bump Printer
begin

text \<open>
  The device tree parser: \<^verbatim>\<open>kernel/src/devices/device_tree.cpp\<close>, from the blob to linked
  nodes with unevaluated properties. Nodes, properties and reserved regions are objects of
  typed stores, at the addresses that the three stacks give them; a pointer is an address,
  zero is null. The blob is read through the direct map.

  The globals of the file are the fields of one record. The rewriting of the properties
  and the printer of the tree are in their own theories.
\<close>

section \<open>Loops that may halt or run for ever\<close>

definition bind_loop :: "'a outcome \<Rightarrow> ('a \<Rightarrow> 'b outcome option) \<Rightarrow> 'b outcome option" where
  "bind_loop r f = (case r of Halt h \<Rightarrow> Some (Halt h) | Done x \<Rightarrow> f x)"

lemma bind_loop_simps [simp, outcome_simps]:
  "bind_loop (Done x) f = f x" "bind_loop (Halt h) f = Some (Halt h)"
  by (simp_all add: bind_loop_def)

lemma bind_loop_mono [partial_function_mono]:
  assumes "\<And>x. mono_option (\<lambda>g. B x g)"
  shows "mono_option (\<lambda>g. bind_loop r (\<lambda>x. B x g))"
  using assms by (cases r) (simp_all add: option.const_mono)

section \<open>The objects\<close>

datatype prop_type =
    RAW | COMPATIBLE | MODEL | PHANDLE | STATUS | ADDRESS_CELLS | SIZE_CELLS | REG | VIRTUAL_REG
  | DMA_COHERENCE | DEVICE_TYPE | RANGES | INTERRUPT_PARENT | INTERRUPT_CONTROLLER
  | INTERRUPT_CELLS | INTERRUPT_MAP

datatype device_status = OKAY | DISABLED | RESERVED | FAIL | FAIL_WITH_REASON

text \<open>The union of a property: which member was written last, with its value.\<close>

datatype prop_data =
    D_raw byte_view
  | D_compatible_array u64
  | D_model str_view
  | D_phandle u32
  | D_status device_status str_view
  | D_address_cells u32
  | D_size_cells u32
  | D_dma_coherence bool
  | D_device_type str_view
  | D_reg (n_pairs: size_t) u64 u64
  | D_range (n_trips: size_t) u64 u64 u64
  | D_virtual_reg u32
  | D_interrupt_parent u32
  | D_interrupt_cells u32
  | D_interrupt_map (n_entries: size_t) u64 u64 u64 u64 u64

record property =
  pr_name :: str_view
  pr_next :: u64
  pr_type :: prop_type
  pr_data :: prop_data

record node =
  nd_name :: str_view
  nd_address_cells :: u32
  nd_size_cells :: u32
  nd_properties :: u64
  nd_parent :: u64
  nd_children :: u64
  nd_next_sibling :: u64

record reserved_region =
  rr_address :: paddr_t
  rr_size :: size_t

definition sizeof_property :: size_t where "sizeof_property = 80"
definition sizeof_node :: size_t where "sizeof_node = 56"
definition sizeof_reserved_region :: size_t where "sizeof_reserved_region = 16"

text \<open>The header of a blob: ten words in big-endian order.\<close>

definition hdr_magic :: "mem \<Rightarrow> u64 \<Rightarrow> u32" where "hdr_magic m h = load32 m h"
definition hdr_offset_structs :: "mem \<Rightarrow> u64 \<Rightarrow> u32" where "hdr_offset_structs m h = load32 m (h + 8)"
definition hdr_offset_strings :: "mem \<Rightarrow> u64 \<Rightarrow> u32" where "hdr_offset_strings m h = load32 m (h + 12)"
definition hdr_offset_rsvmap :: "mem \<Rightarrow> u64 \<Rightarrow> u32" where "hdr_offset_rsvmap m h = load32 m (h + 16)"

section \<open>The state\<close>

record 's dt_state =
  dt_sup :: 's
  dt_nodes :: stack
  dt_node_objs :: "node objs"
  dt_properties :: stack
  dt_prop_objs :: "property objs"
  dt_reserved :: stack
  dt_reserved_objs :: "reserved_region objs"
  dt_bump :: bump_alloc
  dt_root :: u64
  dt_initialized :: bool
  dt_out :: out

definition dt_boot :: "'s \<Rightarrow> out \<Rightarrow> 's dt_state" where
  "dt_boot s o1 =
     \<lparr>dt_sup = s, dt_nodes = stack_empty, dt_node_objs = (\<lambda>_. None),
      dt_properties = stack_empty, dt_prop_objs = (\<lambda>_. None),
      dt_reserved = stack_empty, dt_reserved_objs = (\<lambda>_. None),
      dt_bump = bump_empty, dt_root = 0, dt_initialized = False, dt_out = o1\<rparr>"

text \<open>Memory as pointers of the direct map see it.\<close>

definition dt_mem :: "'s page_ops \<Rightarrow> platform_info \<Rightarrow> 's dt_state \<Rightarrow> mem" where
  "dt_mem ops p st = (\<lambda>v. po_mem ops (dt_sup st) (hhdm_virt_to_phys p v))"

text \<open>Reading an object through a pointer.\<close>

definition deref :: "'a objs \<Rightarrow> u64 \<Rightarrow> 'a outcome" where
  "deref objs a =
     (if a = 0 then Halt Null_deref
      else case objs a of None \<Rightarrow> Halt Out_of_bounds | Some x \<Rightarrow> Done x)"

definition upd_node :: "u64 \<Rightarrow> (node \<Rightarrow> node) \<Rightarrow> 's dt_state \<Rightarrow> 's dt_state outcome" where
  "upd_node a f st =
     bind_outcome (deref (dt_node_objs st) a) (\<lambda>n.
       Done (st\<lparr>dt_node_objs := (dt_node_objs st)(a := Some (f n))\<rparr>))"

definition upd_prop :: "u64 \<Rightarrow> (property \<Rightarrow> property) \<Rightarrow> 's dt_state \<Rightarrow> 's dt_state outcome" where
  "upd_prop a f st =
     bind_outcome (deref (dt_prop_objs st) a) (\<lambda>q.
       Done (st\<lparr>dt_prop_objs := (dt_prop_objs st)(a := Some (f q))\<rparr>))"

definition emplace_node ::
  "'s page_ops \<Rightarrow> platform_info \<Rightarrow> node \<Rightarrow> 's dt_state \<Rightarrow> (u64 \<times> 's dt_state) outcome" where
  "emplace_node ops p n st =
     bind_outcome (stack_emplace_back ops p sizeof_node n (dt_nodes st, dt_node_objs st, dt_sup st))
       (\<lambda>(a, ns, objs, s).
         Done (a, st\<lparr>dt_nodes := ns, dt_node_objs := objs, dt_sup := s\<rparr>))"

definition emplace_property ::
  "'s page_ops \<Rightarrow> platform_info \<Rightarrow> property \<Rightarrow> 's dt_state \<Rightarrow> (u64 \<times> 's dt_state) outcome" where
  "emplace_property ops p q st =
     bind_outcome
       (stack_emplace_back ops p sizeof_property q (dt_properties st, dt_prop_objs st, dt_sup st))
       (\<lambda>(a, ps, objs, s).
         Done (a, st\<lparr>dt_properties := ps, dt_prop_objs := objs, dt_sup := s\<rparr>))"

definition emplace_reserved ::
  "'s page_ops \<Rightarrow> platform_info \<Rightarrow> reserved_region \<Rightarrow> 's dt_state \<Rightarrow> 's dt_state outcome" where
  "emplace_reserved ops p r st =
     bind_outcome
       (stack_emplace_back ops p sizeof_reserved_region r
         (dt_reserved st, dt_reserved_objs st, dt_sup st))
       (\<lambda>(a, rs, objs, s).
         Done (st\<lparr>dt_reserved := rs, dt_reserved_objs := objs, dt_sup := s\<rparr>))"

section \<open>Parsing the structure block\<close>

text \<open>
  \<open>parse_node\<close> and \<open>pre_parse_property\<close> return the new offset. The current node is an
  argument and, where the code changes it through a pointer, also a result.
\<close>

definition parse_node ::
  "'s page_ops \<Rightarrow> platform_info \<Rightarrow> u64 \<Rightarrow> u64 \<Rightarrow> size_t \<Rightarrow> 's dt_state \<Rightarrow>
   (u64 \<times> size_t \<times> 's dt_state) outcome" where
  "parse_node ops p current structures offset st =
     bind_outcome (str_view_from_null_term (dt_mem ops p st) (structures + offset)) (\<lambda>name.
     bind_outcome (emplace_node ops p
         \<lparr>nd_name = name, nd_address_cells = 0, nd_size_cells = 0, nd_properties = 0,
          nd_parent = current, nd_children = 0, nd_next_sibling = 0\<rparr> st) (\<lambda>(new_node, st1).
     let offset' = offset + align_up (sv_size name + 1) 4 in
     if current = 0 then Done (new_node, offset', st1)
     else
       bind_outcome (deref (dt_node_objs st1) current) (\<lambda>c.
       bind_outcome (upd_node new_node (\<lambda>n. n\<lparr>nd_next_sibling := nd_children c\<rparr>) st1) (\<lambda>st2.
       bind_outcome (upd_node current (\<lambda>n. n\<lparr>nd_children := new_node\<rparr>) st2) (\<lambda>st3.
       Done (new_node, offset', st3))))))"

definition pre_parse_property ::
  "'s page_ops \<Rightarrow> platform_info \<Rightarrow> u64 \<Rightarrow> u64 \<Rightarrow> u64 \<Rightarrow> size_t \<Rightarrow> 's dt_state \<Rightarrow>
   (size_t \<times> 's dt_state) outcome" where
  "pre_parse_property ops p current structures strings offset st =
     (let m = dt_mem ops p st;
          property_length = read_big_endian32 m (structures + offset);
          offset1 = offset + 4;
          name_offset = read_big_endian32 m (structures + offset1);
          offset2 = offset1 + 4
      in bind_outcome (str_view_from_null_term m (strings + ucast name_offset)) (\<lambda>property_name.
         let property_value = \<lparr>bv_data = structures + offset2, bv_size = ucast property_length\<rparr>;
             offset3 = offset2 + align_up (ucast property_length) 4
         in bind_outcome (deref (dt_node_objs st) current) (\<lambda>c.
            bind_outcome (emplace_property ops p
              \<lparr>pr_name = property_name, pr_next = nd_properties c, pr_type = RAW,
               pr_data = D_raw property_value\<rparr> st) (\<lambda>(new_property, st1).
            bind_outcome (upd_node current (\<lambda>n. n\<lparr>nd_properties := new_property\<rparr>) st1) (\<lambda>st2.
            Done (offset3, st2))))))"

definition STRUCTURE_BEGIN_NODE :: u32 where "STRUCTURE_BEGIN_NODE = 0x01"
definition STRUCTURE_END_NODE :: u32 where "STRUCTURE_END_NODE = 0x02"
definition STRUCTURE_PROP :: u32 where "STRUCTURE_PROP = 0x03"
definition STRUCTURE_NOP :: u32 where "STRUCTURE_NOP = 0x04"
definition STRUCTURE_END :: u32 where "STRUCTURE_END = 0x09"

text \<open>The loop over the tokens.\<close>

partial_function (option) parse_loop ::
  "'s page_ops \<Rightarrow> platform_info \<Rightarrow> u64 \<Rightarrow> u64 \<Rightarrow> u64 \<Rightarrow> size_t \<Rightarrow> size_t \<Rightarrow> 's dt_state \<Rightarrow>
   's dt_state outcome option" where
  "parse_loop ops p structures strings current offset depth st =
     (if offset mod 4 \<noteq> 0 then Some (Halt (Assertion ''offset % 4 == 0''))
      else
        let token = read_big_endian32 (dt_mem ops p st) (structures + offset);
            offset1 = offset + 4
        in if token = STRUCTURE_BEGIN_NODE then
             bind_loop (parse_node ops p current structures offset1 st) (\<lambda>(current', offset', st').
               parse_loop ops p structures strings current' offset' (depth + 1) st')
           else if token = STRUCTURE_END_NODE then
             bind_loop (deref (dt_node_objs st) current) (\<lambda>c.
               parse_loop ops p structures strings (nd_parent c) offset1 (depth - 1) st)
           else if token = STRUCTURE_PROP then
             bind_loop (pre_parse_property ops p current structures strings offset1 st)
               (\<lambda>(offset', st'). parse_loop ops p structures strings current offset' depth st')
           else if token = STRUCTURE_NOP then
             parse_loop ops p structures strings current offset1 depth st
           else if token = STRUCTURE_END then
             (if current \<noteq> 0 then Some (Halt (Panic ''found a STRUCTURES_END token''))
              else Some (Done st))
           else Some (Halt (Panic ''found an unknown structure token type'')))"

end
