(* ===== verification/Device_Tree_Parse.thy ===== *)
theory Device_Tree_Parse
  imports Device_Tree
begin

text \<open>
  What parsing the structure block of a device tree promises. A well-formed block is
  described by a grammar over memory, independent of the parser; the trees it describes
  are a datatype; that linked nodes represent a tree is an inductive relation. The main
  lemma says that the parser goes from the start of the contents of a node to their end
  and has linked what they describe below the open node, or stops because the supply of
  pages does.
\<close>

section \<open>Blobs and trees\<close>

text \<open>\<open>U\<close> are the addresses whose contents do not change, since the supply does not own them.\<close>

definition word_at :: "mem \<Rightarrow> u64 set \<Rightarrow> u64 \<Rightarrow> u32 \<Rightarrow> bool" where
  "word_at m U a w \<longleftrightarrow> (\<forall>x. in_range x (a, 4) \<longrightarrow> x \<in> U) \<and> read_big_endian32 m a = w"

definition string_at :: "mem \<Rightarrow> u64 set \<Rightarrow> u64 \<Rightarrow> size_t \<Rightarrow> bool" where
  "string_at m U a n \<longleftrightarrow> (\<forall>k. k \<le> n \<longrightarrow> a + k \<in> U) \<and> strlen m a = Some n"

definition agree :: "u64 set \<Rightarrow> mem \<Rightarrow> mem \<Rightarrow> bool" where
  "agree U m m' \<longleftrightarrow> (\<forall>x \<in> U. m' x = m x)"

lemma agree_word: "agree U m m' \<Longrightarrow> word_at m U a w \<Longrightarrow> read_big_endian32 m' a = w"
  unfolding word_at_def read_big_endian32_def load32_def agree_def
  by (subst load_bytes_frame [of a 4 m' m]) simp_all

lemma agree_string: "agree U m m' \<Longrightarrow> string_at m U a n \<Longrightarrow> strlen m' a = Some n"
  by (auto simp: string_at_def agree_def strlen_eq_Some_iff)

type_synonym raw_property = "str_view \<times> byte_view"

datatype dt_tree = Dt_node (tree_name: str_view) (tree_props: "raw_property list")
  (tree_children: "dt_tree list")

text \<open>
  The contents of a node from \<open>off\<close> to \<open>off'\<close>: properties \<open>ps\<close> and children \<open>ts\<close> in the order
  of the block, with words to be skipped between them.
\<close>

inductive dt_items ::
  "mem \<Rightarrow> u64 set \<Rightarrow> u64 \<Rightarrow> u64 \<Rightarrow> size_t \<Rightarrow> raw_property list \<Rightarrow> dt_tree list \<Rightarrow> size_t \<Rightarrow> bool"
  for m U structs strings where
  items_end: "dt_items m U structs strings off [] [] off"
| items_nop: "word_at m U (structs + off) STRUCTURE_NOP \<Longrightarrow>
    dt_items m U structs strings (off + 4) ps ts off' \<Longrightarrow>
    dt_items m U structs strings off ps ts off'"
| items_prop: "word_at m U (structs + off) STRUCTURE_PROP \<Longrightarrow>
    word_at m U (structs + (off + 4)) len \<Longrightarrow>
    word_at m U (structs + (off + 4 + 4)) name \<Longrightarrow>
    string_at m U (strings + ucast name) n \<Longrightarrow>
    dt_items m U structs strings (off + 4 + 4 + 4 + align_up (ucast len) 4) ps ts off' \<Longrightarrow>
    dt_items m U structs strings off
      ((\<lparr>sv_data = strings + ucast name, sv_size = n\<rparr>,
        \<lparr>bv_data = structs + (off + 4 + 4 + 4), bv_size = ucast len\<rparr>) # ps) ts off'"
| items_node: "word_at m U (structs + off) STRUCTURE_BEGIN_NODE \<Longrightarrow>
    string_at m U (structs + (off + 4)) n \<Longrightarrow>
    dt_items m U structs strings (off + 4 + align_up (n + 1) 4) qs us mid \<Longrightarrow>
    word_at m U (structs + mid) STRUCTURE_END_NODE \<Longrightarrow>
    dt_items m U structs strings (mid + 4) ps ts off' \<Longrightarrow>
    dt_items m U structs strings off ps
      (Dt_node \<lparr>sv_data = structs + (off + 4), sv_size = n\<rparr> qs us # ts) off'"

fun tree_size :: "dt_tree \<Rightarrow> nat" where
  "tree_size (Dt_node name ps ts) = Suc (sum_list (map tree_size ts))"

abbreviation trees_size :: "dt_tree list \<Rightarrow> nat" where
  "trees_size ts \<equiv> sum_list (map tree_size ts)"

fun tree_properties :: "dt_tree \<Rightarrow> nat" where
  "tree_properties (Dt_node name ps ts) = length ps + sum_list (map tree_properties ts)"

abbreviation trees_properties :: "dt_tree list \<Rightarrow> nat" where
  "trees_properties ts \<equiv> sum_list (map tree_properties ts)"

text \<open>Offsets stay multiples of four.\<close>

lemma aligned_iff: "z mod 4 = 0 \<longleftrightarrow> unat z mod 4 = 0" for z :: u64
  by (simp add: unat_mod flip: unat_eq_0)

lemma aligned_add: "unat (x + z) mod 4 = (unat x + unat z) mod 4" for x z :: u64
  by (simp add: unat_word_ariths mod_mod_cancel)

lemma aligned_up: "unat (align_up y 4) mod 4 = 0" for y :: u64
  using align_up_eq_mask [of y 2] unat_and_not_mask [of "y + mask 2" 2] by simp

lemma aligned_simps:
  fixes x y :: u64
  assumes "x mod 4 = 0"
  shows "(x + 4) mod 4 = 0" and "(x + align_up y 4) mod 4 = 0"
  using assms aligned_up [of y] unfolding aligned_iff aligned_add by (simp_all add: mod_add_eq [symmetric])

lemma items_aligned: "dt_items m U structs strings off ps ts off' \<Longrightarrow> off mod 4 = 0 \<Longrightarrow> off' mod 4 = 0"
  by (induction rule: dt_items.induct) (simp_all only: aligned_simps simp_thms)

section \<open>Linked trees\<close>

fun props_at :: "property objs \<Rightarrow> u64 \<Rightarrow> raw_property list \<Rightarrow> u64 \<Rightarrow> bool" where
  "props_at P a [] b \<longleftrightarrow> a = b"
| "props_at P a (q # qs) b \<longleftrightarrow> a \<noteq> 0 \<and> (\<exists>next. P a = Some
     \<lparr>pr_name = fst q, pr_next = next, pr_type = RAW, pr_data = D_raw (snd q)\<rparr> \<and>
     props_at P next qs b)"

text \<open>
  The lists are linked from the last element of the block to the first. The node has no
  cells yet.
\<close>

inductive tree_at :: "node objs \<Rightarrow> property objs \<Rightarrow> u64 \<Rightarrow> u64 \<Rightarrow> u64 \<Rightarrow> dt_tree \<Rightarrow> bool"
  and trees_at :: "node objs \<Rightarrow> property objs \<Rightarrow> u64 \<Rightarrow> u64 \<Rightarrow> dt_tree list \<Rightarrow> u64 \<Rightarrow> bool"
  for N P where
  tree_at: "a \<noteq> 0 \<Longrightarrow> N a = Some \<lparr>nd_name = name, nd_address_cells = 0, nd_size_cells = 0,
      nd_properties = h, nd_parent = parent, nd_children = c, nd_next_sibling = sib\<rparr> \<Longrightarrow>
    props_at P h (rev ps) 0 \<Longrightarrow> trees_at N P c a (rev ts) 0 \<Longrightarrow>
    tree_at N P a parent sib (Dt_node name ps ts)"
| trees_end: "trees_at N P a parent [] a"
| trees_link: "tree_at N P a parent sib t \<Longrightarrow> trees_at N P sib parent ts b \<Longrightarrow>
    trees_at N P a parent (t # ts) b"

inductive_cases tree_atE: "tree_at N P a parent sib t"

lemma props_at_append:
  "props_at P a (qs @ rs) b \<longleftrightarrow> (\<exists>c. props_at P a qs c \<and> props_at P c rs b)"
  by (induction qs arbitrary: a) auto

lemma props_at_mono: "props_at P a qs b \<Longrightarrow> P \<subseteq>\<^sub>m P' \<Longrightarrow> props_at P' a qs b"
  by (induction qs arbitrary: a) (auto simp: map_le_def dom_def)

lemma trees_at_append:
  "trees_at N P a parent ts b \<Longrightarrow> trees_at N P b parent us c \<Longrightarrow> trees_at N P a parent (ts @ us) c"
proof (induction ts arbitrary: a)
  case Nil
  then show ?case by (auto elim: trees_at.cases)
next
  case (Cons t ts)
  from Cons.prems(1) obtain sib where "tree_at N P a parent sib t" "trees_at N P sib parent ts b"
    by (auto elim: trees_at.cases)
  with Cons show ?case by (auto intro: trees_link)
qed

lemma map_le_Some: "N \<subseteq>\<^sub>m N' \<Longrightarrow> N a = Some x \<Longrightarrow> N' a = Some x"
  by (auto simp: map_le_def dom_def)

lemma map_leI: "(\<And>b z. N b = Some z \<Longrightarrow> N' b = Some z) \<Longrightarrow> N \<subseteq>\<^sub>m N'"
  by (auto simp: map_le_def dom_def)

lemma tree_at_mono:
  assumes "N \<subseteq>\<^sub>m N'" and "P \<subseteq>\<^sub>m P'"
  shows "tree_at N P a parent sib t \<Longrightarrow> tree_at N' P' a parent sib t"
    and "trees_at N P a parent ts b \<Longrightarrow> trees_at N' P' a parent ts b"
proof (induction rule: tree_at_trees_at.inducts)
  case (tree_at a name h parent c sib ps ts)
  then show ?case
    using map_le_Some [OF assms(1)] props_at_mono [OF _ assms(2)]
    by (intro tree_at_trees_at.tree_at) auto
qed (auto intro: trees_end trees_link)

section \<open>The state between two tokens\<close>

definition no_null_slot :: "size_t \<Rightarrow> stack \<Rightarrow> bool" where
  "no_null_slot sz k \<longleftrightarrow> (\<forall>i < unat (st_capacity k). slot (st_buffer k) sz i \<noteq> 0)"

definition stack_ok :: "platform_info \<Rightarrow> size_t \<Rightarrow> u64 set \<Rightarrow> stack \<Rightarrow> 'a objs \<Rightarrow> bool" where
  "stack_ok p sz taken k objs \<longleftrightarrow> no_null_slot sz k \<and> (\<exists>xs. stack_rep p sz taken k objs xs)"

definition dt_ok ::
  "('s \<Rightarrow> bool) \<Rightarrow> ('s \<Rightarrow> u64 set) \<Rightarrow> platform_info \<Rightarrow> 's dt_state \<Rightarrow> bool" where
  "dt_ok ok taken p st \<longleftrightarrow> ok (dt_sup st) \<and> direct_map p (taken (dt_sup st)) \<and>
     stack_ok p sizeof_node (taken (dt_sup st)) (dt_nodes st) (dt_node_objs st) \<and>
     stack_ok p sizeof_property (taken (dt_sup st)) (dt_properties st) (dt_prop_objs st)"

text \<open>
  How \<open>n\<close> pushes change a stack: it has room and stays, or it moves to a buffer where no
  object was before.
\<close>

definition pushes :: "'a objs \<Rightarrow> nat \<Rightarrow> stack \<Rightarrow> stack \<Rightarrow> bool" where
  "pushes objs n k k' \<longleftrightarrow> unat (st_size k') = unat (st_size k) + n \<and>
     (if unat (st_size k) + n \<le> unat (st_capacity k)
      then st_buffer k' = st_buffer k \<and> st_capacity k' = st_capacity k
      else objs (st_buffer k') = None)"

lemma pushes_refl: "stack_ok p sz S k objs \<Longrightarrow> pushes F 0 k k"
  by (auto simp: pushes_def stack_ok_def stack_rep_def)

lemma pushes_trans:
  assumes "pushes objs n k k1" and "pushes objs1 l k1 k2"
    and "\<And>a. objs1 a = None \<Longrightarrow> objs a = None"
  shows "pushes objs (n + l) k k2"
  using assms unfolding pushes_def by (auto simp: add.assoc split: if_splits)

lemma stack_rep_taken_mono:
  "stack_rep p sz S k objs xs \<Longrightarrow> T \<subseteq> S \<Longrightarrow> stack_rep p sz T k objs xs"
  by (fastforce simp: stack_rep_def)

lemma stack_ok_mono: "stack_ok p sz S k objs \<Longrightarrow> T \<subseteq> S \<Longrightarrow> stack_ok p sz T k objs"
  by (auto simp: stack_ok_def dest: stack_rep_taken_mono)

text \<open>Writing to an object keeps a stack well-formed.\<close>

lemma stack_rep_update:
  assumes "stack_rep p sz S k objs xs" and "objs a = Some x"
  shows "\<exists>ys. stack_rep p sz S k (objs(a := Some y)) ys"
proof -
  let ?s = "slot (st_buffer k) sz"
  define ys where "ys = map (\<lambda>i. if ?s i = a then y else xs ! i) [0..<length xs]"
  have "length ys = length xs" "\<And>i. i < length xs \<Longrightarrow> ys ! i = (if ?s i = a then y else xs ! i)"
    by (simp_all add: ys_def)
  then have "stack_rep p sz S k (objs(a := Some y)) ys"
    using assms unfolding stack_rep_def by auto
  then show ?thesis ..
qed

lemma stack_ok_update: "stack_ok p sz S k objs \<Longrightarrow> objs a = Some x \<Longrightarrow> stack_ok p sz S k (objs(a := Some y))"
  by (auto simp: stack_ok_def intro: stack_rep_update)

lemma direct_map_not_null: "direct_map p S \<Longrightarrow> page_address S (hhdm_virt_to_phys p v) \<Longrightarrow> v \<noteq> 0"
  by (auto simp: direct_map_def page_address_def hhdm_virt_to_phys_def unat_sub_cases
      unat_eq_0 [symmetric] split: if_splits)

lemma direct_map_subset: "direct_map p S \<Longrightarrow> T \<subseteq> S \<Longrightarrow> direct_map p T"
  by (auto simp: direct_map_def)

context page_supply
begin

lemma emplace_fresh:
  assumes "inv s" and "direct_map p (owned s)" and "stack_ok p sz (owned s) k objs"
    and "0 < unat sz" and "unat sz \<le> 4096"
  obtains (halt) n h where "supply_noerr ops n s = Halt h"
      "stack_emplace_back ops p sz v (k, objs, s) = Halt h"
      "\<forall>i j. \<not> serves ops (push_cost sz (st_size k) (st_capacity k) (Suc i) + j) s"
  | (ok) a k' objs' s' where "stack_emplace_back ops p sz v (k, objs, s) = Done (a, k', objs', s')"
      "inv s'" "owned s' \<subseteq> owned s" "\<forall>x. x \<notin> owned s \<longrightarrow> po_mem ops s' x = po_mem ops s x"
      "stack_ok p sz (owned s') k' objs'" "a \<noteq> 0" "objs a = None" "objs' a = Some v"
      "objs \<subseteq>\<^sub>m objs'" "pushes objs 1 k k'" "unat (st_size k) = 0 \<longrightarrow> a = st_buffer k'"
      "st_size k = st_capacity k \<longrightarrow> st_capacity k' = grown_capacity sz (st_capacity k)"
      "\<forall>i j. serves ops (push_cost sz (st_size k) (st_capacity k) (Suc i) + j) s \<longrightarrow>
        serves ops (push_cost sz (st_size k') (st_capacity k') i + j) s'"
proof -
  obtain xs where xs: "stack_rep p sz (owned s) k objs xs"
    using assms(3) by (auto simp: stack_ok_def)
  note served = emplace_served [OF assms(1) xs assms(4,5), where v = v]
  show ?thesis
  proof (rule emplace_cases [OF assms(1) xs assms(4,5), of v])
    fix n h
    assume h: "supply_noerr ops n s = Halt h" "stack_emplace_back ops p sz v (k, objs, s) = Halt h"
    show thesis by (rule halt [OF h]) (use served h(2) in fastforce)
  next
    fix r assume run: "stack_emplace_back ops p sz v (k, objs, s) = Done r"
      and emp: "emplaced p sz v (k, objs, s) xs r"
    obtain a k' objs' s' where r: "r = (a, k', objs', s')" by (cases r)
    have E: "inv s'" "owned s' \<subseteq> owned s" "stack_rep p sz (owned s') k' objs' (xs @ [v])"
      "a = slot (st_buffer k') sz (length xs)" "objs a = None" "objs' a = Some v"
      "\<forall>b y. objs b = Some y \<longrightarrow> objs' b = Some y"
      "\<forall>x. x \<notin> owned s \<longrightarrow> po_mem ops s' x = po_mem ops s x"
      using emp unfolding emplaced_def r split_conv by blast+
    have size: "unat (st_size k') = Suc (length xs)" "length xs < unat (st_capacity k')"
      using E(3) by (simp_all add: stack_rep_def)
    have sz: "unat (st_size k') = unat (st_size k) + 1"
      using size xs by (simp add: stack_rep_def)
    have null: "no_null_slot sz k'"
    proof (cases "st_size k = st_capacity k")
      case True
      then show ?thesis
        using emp direct_map_not_null [OF assms(2)]
        unfolding emplaced_def r no_null_slot_def by simp
    next
      case False
      then show ?thesis
        using emp assms(3) unfolding emplaced_def r stack_ok_def by (simp add: no_null_slot_def)
    qed
    have step: "pushes objs 1 k k'"
    proof (cases "st_size k = st_capacity k")
      case True
      have "objs (slot (st_buffer k') sz 0) = None"
      proof (rule ccontr)
        assume "objs (slot (st_buffer k') sz 0) \<noteq> None"
        then have "hhdm_virt_to_phys p (slot (st_buffer k') sz 0) \<notin> owned s"
          using xs by (simp add: stack_rep_def)
        moreover have "page_address (owned s) (hhdm_virt_to_phys p (slot (st_buffer k') sz 0))"
          using emp True size(2) unfolding emplaced_def r by simp
        ultimately show False by (simp add: page_address_def)
      qed
      then show ?thesis using sz True by (simp add: pushes_def slot_simps)
    next
      case False
      then have "unat (st_size k) < unat (st_capacity k)"
        using xs by (auto simp: stack_rep_def word_unat_eq_iff le_less)
      then show ?thesis using False emp sz unfolding emplaced_def r by (simp add: pushes_def)
    qed
    have cap: "st_size k = st_capacity k \<longrightarrow> st_capacity k' = grown_capacity sz (st_capacity k)"
      using emp unfolding emplaced_def r by simp
    have "a \<noteq> 0" using null E(4) size(2) by (simp add: no_null_slot_def)
    moreover have "unat (st_size k) = 0 \<longrightarrow> a = st_buffer k'"
      using E(4) xs by (simp add: stack_rep_def slot_simps)
    moreover have "stack_ok p sz (owned s') k' objs'"
      using null E(3) by (auto simp: stack_ok_def)
    moreover have "objs \<subseteq>\<^sub>m objs'"
      using E(7) by (auto simp: map_le_def dom_def)
    moreover have "\<forall>i j. serves ops (push_cost sz (st_size k) (st_capacity k) (Suc i) + j) s \<longrightarrow>
        serves ops (push_cost sz (st_size k') (st_capacity k') i + j) s'"
      using served run [unfolded r] by fastforce
    ultimately show thesis
      by (intro ok [OF run [unfolded r] E(1,2,8) _ _ E(5,6) _ step _ cap])
  qed
qed

end

section \<open>Steps of the parser\<close>

definition dt_step ::
  "('s \<Rightarrow> bool) \<Rightarrow> ('s \<Rightarrow> u64 set) \<Rightarrow> 's page_ops \<Rightarrow> platform_info \<Rightarrow> 's dt_state \<Rightarrow> 's dt_state \<Rightarrow> bool"
where
  "dt_step ok taken ops p st st' \<longleftrightarrow>
     dt_ok ok taken p st' \<and> taken (dt_sup st') \<subseteq> taken (dt_sup st) \<and>
     (\<forall>x. x \<notin> taken (dt_sup st) \<longrightarrow> po_mem ops (dt_sup st') x = po_mem ops (dt_sup st) x) \<and>
     dt_prop_objs st \<subseteq>\<^sub>m dt_prop_objs st' \<and> dom (dt_node_objs st) \<subseteq> dom (dt_node_objs st') \<and>
     dt_reserved st' = dt_reserved st \<and> dt_reserved_objs st' = dt_reserved_objs st \<and>
     dt_bump st' = dt_bump st \<and> dt_root st' = dt_root st \<and>
     dt_initialized st' = dt_initialized st \<and> dt_out st' = dt_out st"

lemma dt_step_refl: "dt_ok ok taken p st \<Longrightarrow> dt_step ok taken ops p st st"
  by (simp add: dt_step_def)

lemma dt_step_trans:
  assumes "dt_step ok taken ops p st st1" and "dt_step ok taken ops p st1 st2"
  shows "dt_step ok taken ops p st st2"
proof -
  have "po_mem ops (dt_sup st2) x = po_mem ops (dt_sup st) x" if "x \<notin> taken (dt_sup st)" for x
    using assms that unfolding dt_step_def by (metis subsetD)
  then show ?thesis
    using assms map_le_trans [of "dt_prop_objs st" "dt_prop_objs st1" "dt_prop_objs st2"]
      subset_trans [of "taken (dt_sup st2)" "taken (dt_sup st1)" "taken (dt_sup st)"]
      subset_trans [of "dom (dt_node_objs st)" "dom (dt_node_objs st1)" "dom (dt_node_objs st2)"]
    unfolding dt_step_def by simp
qed

text \<open>The blob is where the supply does not write.\<close>

definition blob_in ::
  "('s \<Rightarrow> u64 set) \<Rightarrow> 's page_ops \<Rightarrow> platform_info \<Rightarrow> mem \<Rightarrow> u64 set \<Rightarrow> 's dt_state \<Rightarrow> bool" where
  "blob_in taken ops p m U st \<longleftrightarrow>
     (\<forall>v \<in> U. hhdm_virt_to_phys p v \<notin> taken (dt_sup st)) \<and> agree U m (dt_mem ops p st)"

lemma blob_in_step: "blob_in taken ops p m U st \<Longrightarrow> dt_step ok taken ops p st st' \<Longrightarrow>
    blob_in taken ops p m U st'"
  by (auto simp: blob_in_def dt_step_def agree_def dt_mem_def)

lemma blob_in_word: "blob_in taken ops p m U st \<Longrightarrow> word_at m U a w \<Longrightarrow>
    read_big_endian32 (dt_mem ops p st) a = w"
  by (auto simp: blob_in_def intro: agree_word)

lemma blob_in_string: "blob_in taken ops p m U st \<Longrightarrow> string_at m U a n \<Longrightarrow>
    str_view_from_null_term (dt_mem ops p st) a = Done \<lparr>sv_data = a, sv_size = n\<rparr>"
  by (simp add: blob_in_def str_view_from_null_term_def agree_string [of U m])

text \<open>
  The supply has the pages for \<open>n\<close> more nodes and \<open>m\<close> more properties, and a step uses up
  what it had for some of them.
\<close>

definition room_for :: "'s page_ops \<Rightarrow> nat \<Rightarrow> nat \<Rightarrow> 's dt_state \<Rightarrow> bool" where
  "room_for ops n m st \<longleftrightarrow> serves ops
     (push_cost sizeof_node (st_size (dt_nodes st)) (st_capacity (dt_nodes st)) n +
      push_cost sizeof_property (st_size (dt_properties st)) (st_capacity (dt_properties st)) m) (dt_sup st)"

definition uses_room :: "'s page_ops \<Rightarrow> nat \<Rightarrow> nat \<Rightarrow> 's dt_state \<Rightarrow> 's dt_state \<Rightarrow> bool" where
  "uses_room ops n m st st' \<longleftrightarrow> (\<forall>i j. room_for ops (n + i) (m + j) st \<longrightarrow> room_for ops i j st')"

lemma uses_room_refl: "uses_room ops 0 0 st st"
  by (simp add: uses_room_def)

lemma uses_room_trans: "uses_room ops n m st st1 \<Longrightarrow> uses_room ops n' m' st1 st2 \<Longrightarrow>
    n + n' = k \<Longrightarrow> m + m' = l \<Longrightarrow> uses_room ops k l st st2"
  unfolding uses_room_def by (metis add.assoc)

text \<open>The node that its first token makes: a child of \<open>c\<close> in front of the children of \<open>x\<close>, if \<open>c\<close> is a node.\<close>

definition opened_node :: "u64 \<Rightarrow> size_t \<Rightarrow> u64 \<Rightarrow> node \<Rightarrow> node" where
  "opened_node s n c x = \<lparr>nd_name = \<lparr>sv_data = s, sv_size = n\<rparr>, nd_address_cells = 0, nd_size_cells = 0,
     nd_properties = 0, nd_parent = c, nd_children = 0, nd_next_sibling = (if c = 0 then 0 else nd_children x)\<rparr>"

context page_supply
begin

definition stops :: "halt \<Rightarrow> bool" where
  "stops h \<longleftrightarrow> (\<exists>s n. inv s \<and> supply_noerr ops n s = Halt h)"

definition starved :: "halt \<Rightarrow> nat \<Rightarrow> nat \<Rightarrow> 's dt_state \<Rightarrow> bool" where
  "starved h n m st \<longleftrightarrow> stops h \<and> (\<forall>i j. \<not> room_for ops (n + i) (m + j) st)"

lemma starved_later: "uses_room ops n m st st1 \<Longrightarrow> starved h n' m' st1 \<Longrightarrow>
    n + n' \<le> k \<Longrightarrow> m + m' \<le> l \<Longrightarrow> starved h k l st"
  unfolding starved_def uses_room_def by (auto dest!: le_Suc_ex simp: add.assoc) blast

lemmas starved_more = starved_later [OF uses_room_refl]

lemma parse_node_step:
  assumes wf: "dt_ok inv owned p st" and blob: "blob_in owned ops p m U st"
    and str: "string_at m U (structs + off) n" and c: "c \<noteq> 0 \<longrightarrow> dt_node_objs st c = Some x"
  obtains (halt) h where "starved h 1 0 st" "parse_node ops p c structs off st = Halt h"
  | (ok) a st' where
      "parse_node ops p c structs off st = Done (a, off + align_up (n + 1) 4, st')"
      "dt_step inv owned ops p st st'" "a \<noteq> 0" "dt_node_objs st a = None"
      "dt_node_objs st' a = Some (opened_node (structs + off) n c x)"
      "c \<noteq> 0 \<longrightarrow> dt_node_objs st' c = Some (x\<lparr>nd_children := a\<rparr>)"
      "\<forall>b y. b \<noteq> c \<longrightarrow> dt_node_objs st b = Some y \<longrightarrow> dt_node_objs st' b = Some y"
      "pushes (dt_node_objs st) 1 (dt_nodes st) (dt_nodes st')"
      "unat (st_size (dt_nodes st)) = 0 \<longrightarrow> a = st_buffer (dt_nodes st')"
      "st_size (dt_nodes st) = st_capacity (dt_nodes st) \<longrightarrow>
         st_capacity (dt_nodes st') = grown_capacity sizeof_node (st_capacity (dt_nodes st))"
      "uses_room ops 1 0 st st'"
proof -
  define v where "v = \<lparr>nd_name = \<lparr>sv_data = structs + off, sv_size = n\<rparr>, nd_address_cells = 0 :: u32,
    nd_size_cells = 0 :: u32, nd_properties = 0 :: u64, nd_parent = c, nd_children = 0 :: u64,
    nd_next_sibling = 0 :: u64\<rparr>"
  note O = wf [unfolded dt_ok_def]
  have sz: "0 < unat sizeof_node" "unat sizeof_node \<le> 4096" by (simp_all add: sizeof_node_def)
  show thesis
  proof (rule emplace_fresh [of "dt_sup st" p sizeof_node "dt_nodes st" "dt_node_objs st", where v = v])
    fix k h assume "supply_noerr ops k (dt_sup st) = Halt h"
      and "stack_emplace_back ops p sizeof_node v (dt_nodes st, dt_node_objs st, dt_sup st) = Halt h"
      and "\<forall>i j. \<not> serves ops (push_cost sizeof_node (st_size (dt_nodes st)) (st_capacity (dt_nodes st)) (Suc i) + j)
        (dt_sup st)"
    moreover from this have "starved h 1 0 st"
      using O by (auto simp: starved_def stops_def room_for_def)
    ultimately show thesis
      using blob_in_string [OF blob str]
      by (intro halt [of h]) (simp_all add: parse_node_def emplace_node_def v_def)
  next
    fix a ns objs s
    assume run: "stack_emplace_back ops p sizeof_node v (dt_nodes st, dt_node_objs st, dt_sup st) =
        Done (a, ns, objs, s)"
      and E: "inv s" "owned s \<subseteq> owned (dt_sup st)"
        "\<forall>x. x \<notin> owned (dt_sup st) \<longrightarrow> po_mem ops s x = po_mem ops (dt_sup st) x"
        "stack_ok p sizeof_node (owned s) ns objs" "a \<noteq> 0" "dt_node_objs st a = None"
        "objs a = Some v" "dt_node_objs st \<subseteq>\<^sub>m objs" "pushes (dt_node_objs st) 1 (dt_nodes st) ns"
        "unat (st_size (dt_nodes st)) = 0 \<longrightarrow> a = st_buffer ns"
        "st_size (dt_nodes st) = st_capacity (dt_nodes st) \<longrightarrow>
           st_capacity ns = grown_capacity sizeof_node (st_capacity (dt_nodes st))"
        "\<forall>i j. serves ops (push_cost sizeof_node (st_size (dt_nodes st)) (st_capacity (dt_nodes st)) (Suc i) + j)
            (dt_sup st) \<longrightarrow> serves ops (push_cost sizeof_node (st_size ns) (st_capacity ns) i + j) s"
    have kept: "objs b = Some y" if "dt_node_objs st b = Some y" for b y
      using E(8) that by (rule map_le_Some)
    define st1 where "st1 = st\<lparr>dt_nodes := ns, dt_node_objs := objs, dt_sup := s\<rparr>"
    define objs' where "objs' = (if c = 0 then objs
      else objs(a := Some (v\<lparr>nd_next_sibling := nd_children x\<rparr>), c := Some (x\<lparr>nd_children := a\<rparr>)))"
    have ca: "c \<noteq> 0 \<longrightarrow> objs c = Some x \<and> c \<noteq> a" using c kept E(6) by auto
    have "parse_node ops p c structs off st =
        Done (a, off + align_up (n + 1) 4, st1\<lparr>dt_node_objs := objs'\<rparr>)"
      using run ca E(5,7) blob_in_string [OF blob str]
      by (simp add: parse_node_def emplace_node_def upd_node_def deref_def v_def st1_def objs'_def)
    moreover have "stack_ok p sizeof_node (owned s) ns objs'"
      using ca E(4,7) unfolding objs'_def by (auto intro!: stack_ok_update)
    then have "dt_ok inv owned p (st1\<lparr>dt_node_objs := objs'\<rparr>)"
      using O E(1) direct_map_subset [OF _ E(2)]
        stack_ok_mono [OF _ E(2), of p sizeof_property "dt_properties st" "dt_prop_objs st"]
      by (simp add: dt_ok_def st1_def)
    then have "dt_step inv owned ops p st (st1\<lparr>dt_node_objs := objs'\<rparr>)"
      using E(2,3) kept by (auto simp: dt_step_def st1_def objs'_def)
    moreover have "\<forall>b y. b \<noteq> c \<longrightarrow> dt_node_objs st b = Some y \<longrightarrow> objs' b = Some y"
      using kept E(6) by (auto simp: objs'_def)
    moreover have "objs' a = Some (v\<lparr>nd_next_sibling := if c = 0 then 0 else nd_children x\<rparr>)"
      using ca E(7) by (auto simp: objs'_def v_def)
    ultimately show thesis
      using ca E(5,6,9,10,11,12)
      by (intro ok [of a "st1\<lparr>dt_node_objs := objs'\<rparr>"])
        (simp_all add: st1_def v_def opened_node_def uses_room_def room_for_def, simp add: objs'_def)
  qed (use O sz in auto)
qed

lemma pre_parse_property_step:
  assumes wf: "dt_ok inv owned p st" and blob: "blob_in owned ops p m U st"
    and len: "word_at m U (structs + off) len" and name: "word_at m U (structs + (off + 4)) name"
    and str: "string_at m U (strings + ucast name) n"
    and c: "c \<noteq> 0" "dt_node_objs st c = Some x"
  obtains (halt) h where "starved h 0 1 st" "pre_parse_property ops p c structs strings off st = Halt h"
  | (ok) a st' where
      "pre_parse_property ops p c structs strings off st =
         Done (off + 4 + 4 + align_up (ucast len) 4, st')"
      "dt_step inv owned ops p st st'" "a \<noteq> 0"
      "dt_prop_objs st' a = Some \<lparr>pr_name = \<lparr>sv_data = strings + ucast name, sv_size = n\<rparr>,
         pr_next = nd_properties x, pr_type = RAW,
         pr_data = D_raw \<lparr>bv_data = structs + (off + 4 + 4), bv_size = ucast len\<rparr>\<rparr>"
      "dt_node_objs st' = (dt_node_objs st)(c := Some (x\<lparr>nd_properties := a\<rparr>))"
      "dt_nodes st' = dt_nodes st" "uses_room ops 0 1 st st'"
proof -
  define v where "v = \<lparr>pr_name = \<lparr>sv_data = strings + ucast name, sv_size = n\<rparr>,
    pr_next = nd_properties x, pr_type = RAW,
    pr_data = D_raw \<lparr>bv_data = structs + (off + 4 + 4), bv_size = ucast len\<rparr>\<rparr>"
  note O = wf [unfolded dt_ok_def]
  note R = blob_in_word [OF blob len] blob_in_word [OF blob name] blob_in_string [OF blob str]
  have sz: "0 < unat sizeof_property" "unat sizeof_property \<le> 4096"
    by (simp_all add: sizeof_property_def)
  show thesis
  proof (rule emplace_fresh [of "dt_sup st" p sizeof_property "dt_properties st" "dt_prop_objs st", where v = v])
    fix k h assume "supply_noerr ops k (dt_sup st) = Halt h"
      and "stack_emplace_back ops p sizeof_property v (dt_properties st, dt_prop_objs st, dt_sup st) = Halt h"
      and "\<forall>i j. \<not> serves ops (push_cost sizeof_property (st_size (dt_properties st))
        (st_capacity (dt_properties st)) (Suc i) + j) (dt_sup st)"
    moreover from this have "starved h 0 1 st"
      using O by (auto simp: starved_def stops_def room_for_def add.commute)
    ultimately show thesis
      using R c by (intro halt [of h]) (simp_all add: pre_parse_property_def emplace_property_def v_def deref_def)
  next
    fix a ps objs s
    assume run: "stack_emplace_back ops p sizeof_property v (dt_properties st, dt_prop_objs st, dt_sup st) =
        Done (a, ps, objs, s)"
      and E: "inv s" "owned s \<subseteq> owned (dt_sup st)"
        "\<forall>x. x \<notin> owned (dt_sup st) \<longrightarrow> po_mem ops s x = po_mem ops (dt_sup st) x"
        "stack_ok p sizeof_property (owned s) ps objs" "a \<noteq> 0" "dt_prop_objs st a = None"
        "objs a = Some v" "dt_prop_objs st \<subseteq>\<^sub>m objs"
      and rest: "\<forall>i j. serves ops (push_cost sizeof_property (st_size (dt_properties st))
          (st_capacity (dt_properties st)) (Suc i) + j) (dt_sup st) \<longrightarrow>
        serves ops (push_cost sizeof_property (st_size ps) (st_capacity ps) i + j) s"
    define st' where "st' = st\<lparr>dt_properties := ps, dt_prop_objs := objs, dt_sup := s,
      dt_node_objs := (dt_node_objs st)(c := Some (x\<lparr>nd_properties := a\<rparr>))\<rparr>"
    have "pre_parse_property ops p c structs strings off st =
        Done (off + 4 + 4 + align_up (ucast len) 4, st')"
      using run c R
      by (simp add: pre_parse_property_def emplace_property_def upd_node_def deref_def v_def st'_def)
    moreover have "stack_ok p sizeof_node (owned s) (dt_nodes st) (dt_node_objs st')"
      using O stack_ok_mono [OF _ E(2), of p sizeof_node "dt_nodes st" "dt_node_objs st"] c
      by (simp add: st'_def stack_ok_update)
    then have "dt_ok inv owned p st'"
      using O E(1,4) direct_map_subset [OF _ E(2)] by (simp add: dt_ok_def st'_def)
    then have "dt_step inv owned ops p st st'"
      using E(2,3,8) by (auto simp: dt_step_def st'_def)
    moreover have "uses_room ops 0 1 st st'"
      using rest by (simp add: uses_room_def room_for_def st'_def) (metis add.commute)
    ultimately show thesis
      using E(5,7) by (intro ok [of st' a]) (simp_all add: st'_def v_def)
  qed (use O sz in auto)
qed

end

section \<open>The contents of a node\<close>

context page_supply
begin

definition built ::
  "platform_info \<Rightarrow> u64 \<Rightarrow> node \<Rightarrow> raw_property list \<Rightarrow> dt_tree list \<Rightarrow> 's dt_state \<Rightarrow> 's dt_state \<Rightarrow> bool" where
  "built p c x ps ts st st' \<longleftrightarrow>
     dt_step inv owned ops p st st' \<and>
     uses_room ops (trees_size ts) (length ps + trees_properties ts) st st' \<and>
     pushes (dt_node_objs st) (trees_size ts) (dt_nodes st) (dt_nodes st') \<and>
     (\<forall>b y. b \<noteq> c \<longrightarrow> dt_node_objs st b = Some y \<longrightarrow> dt_node_objs st' b = Some y) \<and>
     (\<exists>h k N. dt_node_objs st' c = Some (x\<lparr>nd_properties := h, nd_children := k\<rparr>) \<and>
       props_at (dt_prop_objs st') h (rev ps) (nd_properties x) \<and>
       trees_at N (dt_prop_objs st') k c (rev ts) (nd_children x) \<and>
       N \<subseteq>\<^sub>m dt_node_objs st' \<and> dom N \<inter> dom (dt_node_objs st) = {})"

lemma disjoint_None: "dom N \<inter> dom F = {} \<Longrightarrow> b \<in> dom F \<Longrightarrow> N b = None"
  by auto

lemma disjoint_insert_Un:
  "A \<inter> F1 = {} \<Longrightarrow> B \<inter> F2 = {} \<Longrightarrow> F \<subseteq> F1 \<Longrightarrow> F1 \<subseteq> F2 \<Longrightarrow> a \<notin> F \<Longrightarrow>
    insert a (A \<union> B) \<inter> F = {}"
  by blast

lemma built_refl:
  assumes "dt_ok inv owned p st" and "dt_node_objs st c = Some x"
  shows "built p c x [] [] st st"
proof -
  have "dt_node_objs st c = Some (x\<lparr>nd_properties := nd_properties x, nd_children := nd_children x\<rparr>)"
    and "trees_at (\<lambda>_. None) (dt_prop_objs st) (nd_children x) c (rev []) (nd_children x)"
    using assms by (simp_all add: trees_end)
  moreover have "(\<lambda>_. None) \<subseteq>\<^sub>m dt_node_objs st" "dom (\<lambda>_. None) \<inter> dom (dt_node_objs st) = {}"
    by simp_all
  moreover have "props_at (dt_prop_objs st) (nd_properties x) (rev []) (nd_properties x)" by simp
  moreover have "pushes (dt_node_objs st) (trees_size []) (dt_nodes st) (dt_nodes st)"
    using assms(1) pushes_refl by (fastforce simp: dt_ok_def)
  moreover have "uses_room ops (trees_size []) (length [] + trees_properties []) st st"
    by (simp add: uses_room_refl)
  ultimately show ?thesis
    unfolding built_def
    by (intro conjI dt_step_refl [OF assms(1)]) (assumption | simp only: simp_thms | blast)+
qed

lemma built_prop:
  assumes step: "dt_step inv owned ops p st st1" "a \<noteq> 0" "uses_room ops 0 1 st st1"
    and new: "dt_prop_objs st1 a = Some
      \<lparr>pr_name = fst q, pr_next = nd_properties x, pr_type = RAW, pr_data = D_raw (snd q)\<rparr>"
    and nodes: "dt_node_objs st1 = (dt_node_objs st)(c := Some (x\<lparr>nd_properties := a\<rparr>))"
      "dt_nodes st1 = dt_nodes st" "dt_node_objs st c = Some x"
    and rest: "built p c (x\<lparr>nd_properties := a\<rparr>) ps ts st1 st'"
  shows "built p c x (q # ps) ts st st'"
proof -
  obtain h k N where r: "dt_node_objs st' c = Some (x\<lparr>nd_properties := h, nd_children := k\<rparr>)"
    "props_at (dt_prop_objs st') h (rev ps) a"
    "trees_at N (dt_prop_objs st') k c (rev ts) (nd_children x)"
    "N \<subseteq>\<^sub>m dt_node_objs st'" "dom N \<inter> dom (dt_node_objs st1) = {}"
    using rest by (auto simp: built_def)
  have st': "dt_step inv owned ops p st1 st'"
    "pushes (dt_node_objs st1) (trees_size ts) (dt_nodes st1) (dt_nodes st')"
    "\<forall>b y. b \<noteq> c \<longrightarrow> dt_node_objs st1 b = Some y \<longrightarrow> dt_node_objs st' b = Some y"
    and room: "uses_room ops (trees_size ts) (length ps + trees_properties ts) st1 st'"
    using rest by (auto simp: built_def)
  have "dt_prop_objs st' a = dt_prop_objs st1 a"
    using st'(1) new map_le_Some by (fastforce simp: dt_step_def)
  then have "props_at (dt_prop_objs st') h (rev (q # ps)) (nd_properties x)"
    using r(2) new step(2) by (auto simp: props_at_append)
  moreover have "pushes (dt_node_objs st) (trees_size ts) (dt_nodes st) (dt_nodes st')"
    using st'(2) nodes by (auto simp: pushes_def split: if_splits)
  moreover have "dom N \<inter> dom (dt_node_objs st) = {}"
    using r(5) nodes by auto
  moreover have "\<forall>b y. b \<noteq> c \<longrightarrow> dt_node_objs st b = Some y \<longrightarrow> dt_node_objs st' b = Some y"
    using st'(3) nodes(1) by auto
  moreover have "uses_room ops (trees_size ts) (length (q # ps) + trees_properties ts) st st'"
    by (rule uses_room_trans [OF step(3) room]) simp_all
  ultimately show ?thesis
    unfolding built_def using r(1,3,4) dt_step_trans [OF step(1) st'(1)] by blast
qed

lemma built_node:
  assumes step: "dt_step inv owned ops p st st1" "a \<noteq> 0" "dt_node_objs st a = None"
      "uses_room ops 1 0 st st1"
    and a: "dt_node_objs st1 a \<noteq> None"
    and c: "dt_node_objs st c = Some x"
      "dt_node_objs st1 c = Some (x\<lparr>nd_children := a\<rparr>)"
    and kept: "\<forall>b y. b \<noteq> c \<longrightarrow> dt_node_objs st b = Some y \<longrightarrow> dt_node_objs st1 b = Some y"
    and push: "pushes (dt_node_objs st) 1 (dt_nodes st) (dt_nodes st1)"
    and inner: "built p a \<lparr>nd_name = name, nd_address_cells = 0, nd_size_cells = 0,
      nd_properties = 0, nd_parent = c, nd_children = 0, nd_next_sibling = nd_children x\<rparr> qs us st1 st2"
    and rest: "built p c (x\<lparr>nd_children := a\<rparr>) ps ts st2 st3"
  shows "built p c x ps (Dt_node name qs us # ts) st st3"
proof -
  have st2: "dt_step inv owned ops p st1 st2"
    "pushes (dt_node_objs st1) (trees_size us) (dt_nodes st1) (dt_nodes st2)"
    "\<forall>b y. b \<noteq> a \<longrightarrow> dt_node_objs st1 b = Some y \<longrightarrow> dt_node_objs st2 b = Some y"
    and room2: "uses_room ops (trees_size us) (length qs + trees_properties us) st1 st2"
    using inner by (auto simp: built_def)
  have st3: "dt_step inv owned ops p st2 st3"
    "pushes (dt_node_objs st2) (trees_size ts) (dt_nodes st2) (dt_nodes st3)"
    "\<forall>b y. b \<noteq> c \<longrightarrow> dt_node_objs st2 b = Some y \<longrightarrow> dt_node_objs st3 b = Some y"
    and room3: "uses_room ops (trees_size ts) (length ps + trees_properties ts) st2 st3"
    using rest by (auto simp: built_def)
  obtain h1 k1 M where m: "dt_node_objs st2 a = Some \<lparr>nd_name = name, nd_address_cells = 0,
      nd_size_cells = 0, nd_properties = h1, nd_parent = c, nd_children = k1,
      nd_next_sibling = nd_children x\<rparr>"
    "props_at (dt_prop_objs st2) h1 (rev qs) 0" "trees_at M (dt_prop_objs st2) k1 a (rev us) 0"
    "M \<subseteq>\<^sub>m dt_node_objs st2" "dom M \<inter> dom (dt_node_objs st1) = {}"
    using inner by (auto simp: built_def)
  obtain h k N where n: "dt_node_objs st3 c = Some (x\<lparr>nd_properties := h, nd_children := k\<rparr>)"
    "props_at (dt_prop_objs st3) h (rev ps) (nd_properties x)"
    "trees_at N (dt_prop_objs st3) k c (rev ts) a" "N \<subseteq>\<^sub>m dt_node_objs st3"
    "dom N \<inter> dom (dt_node_objs st2) = {}"
    using rest by (auto simp: built_def)
  have props: "dt_prop_objs st2 \<subseteq>\<^sub>m dt_prop_objs st3"
    using st3(1) by (simp add: dt_step_def)
  have dom: "dom (dt_node_objs st) \<subseteq> dom (dt_node_objs st1)"
    "dom (dt_node_objs st1) \<subseteq> dom (dt_node_objs st2)"
    using step(1) st2(1) by (simp_all add: dt_step_def)
  have ca: "c \<noteq> a" "M c = None" "M a = None" "N a = None" "N c = None"
    using c step(3) a m(1) disjoint_None [OF m(5)] disjoint_None [OF n(5)] dom by (auto simp: dom_def)
  define L where "L = N ++ M ++ [a \<mapsto> \<lparr>nd_name = name, nd_address_cells = 0,
      nd_size_cells = 0, nd_properties = h1, nd_parent = c, nd_children = k1,
      nd_next_sibling = nd_children x\<rparr>]"
  have sub: "N \<subseteq>\<^sub>m L" "M \<subseteq>\<^sub>m L"
    using m(4) n(5) ca unfolding L_def map_le_def by (auto simp: map_add_def dom_def split: option.split)
  have "tree_at L (dt_prop_objs st3) a c (nd_children x) (Dt_node name qs us)"
  proof (rule tree_at [OF step(2)])
    show "trees_at L (dt_prop_objs st3) k1 a (rev us) 0"
      using tree_at_mono(2) [OF sub(2) props m(3)] .
    show "props_at (dt_prop_objs st3) h1 (rev qs) 0"
      using props_at_mono [OF m(2) props] .
  qed (simp add: L_def)
  moreover have "trees_at L (dt_prop_objs st3) k c (rev ts) a"
    using tree_at_mono(2) [OF sub(1) map_le_refl n(3)] .
  ultimately have "trees_at L (dt_prop_objs st3) k c (rev (Dt_node name qs us # ts)) (nd_children x)"
    by (simp add: trees_at_append [OF _ trees_link [OF _ trees_end]])
  moreover have "L \<subseteq>\<^sub>m dt_node_objs st3"
  proof (rule map_leI)
    fix b z assume "L b = Some z"
    then consider "N b = Some z" | "M b = Some z" | "b = a" "dt_node_objs st2 a = Some z"
      using m(1) by (auto simp: L_def map_add_Some_iff split: if_splits)
    then show "dt_node_objs st3 b = Some z"
      using map_le_Some [OF n(4)] map_le_Some [OF m(4)] st3(3) ca by cases (auto, metis option.distinct(1))
  qed
  moreover have "dom L \<inter> dom (dt_node_objs st) = {}"
  proof -
    have "dom L = insert a (dom M \<union> dom N)" by (auto simp: L_def)
    moreover have "a \<notin> dom (dt_node_objs st)" using step(3) by auto
    ultimately show ?thesis
      using disjoint_insert_Un [OF m(5) n(5) dom] by simp
  qed
  moreover have "pushes (dt_node_objs st) (trees_size (Dt_node name qs us # ts)) (dt_nodes st) (dt_nodes st3)"
  proof -
    have "pushes (dt_node_objs st) (1 + (trees_size us + trees_size ts)) (dt_nodes st) (dt_nodes st3)"
      using dom by (intro pushes_trans [OF push pushes_trans [OF st2(2) st3(2)]]) (auto simp: dom_def)
    then show ?thesis by simp
  qed
  moreover have "\<forall>b y. b \<noteq> c \<longrightarrow> dt_node_objs st b = Some y \<longrightarrow> dt_node_objs st3 b = Some y"
    using kept st2(3) st3(3) step(3) by (metis option.distinct(1))
  moreover have "uses_room ops (trees_size (Dt_node name qs us # ts))
      (length ps + trees_properties (Dt_node name qs us # ts)) st st3"
    by (rule uses_room_trans [OF step(4) uses_room_trans [OF room2 room3 refl refl]]) simp_all
  ultimately show ?thesis
    unfolding built_def using n(1,2)
    by (intro conjI dt_step_trans [OF step(1) dt_step_trans [OF st2(1) st3(1)]]) (assumption | blast)+
qed

end

text \<open>One round of the loop for each token.\<close>

lemma parse_loop_token:
  assumes "off mod 4 = 0" and "read_big_endian32 (dt_mem ops p st) (structs + off) = w"
  shows
    "w = STRUCTURE_NOP \<Longrightarrow> parse_loop ops p structs strings c off d st =
       parse_loop ops p structs strings c (off + 4) d st"
    "w = STRUCTURE_PROP \<Longrightarrow> parse_loop ops p structs strings c off d st =
       bind_loop (pre_parse_property ops p c structs strings (off + 4) st)
         (\<lambda>(off', st'). parse_loop ops p structs strings c off' d st')"
    "w = STRUCTURE_BEGIN_NODE \<Longrightarrow> parse_loop ops p structs strings c off d st =
       bind_loop (parse_node ops p c structs (off + 4) st)
         (\<lambda>(c', off', st'). parse_loop ops p structs strings c' off' (d + 1) st')"
    "w = STRUCTURE_END_NODE \<Longrightarrow> parse_loop ops p structs strings c off d st =
       bind_loop (deref (dt_node_objs st) c)
         (\<lambda>n. parse_loop ops p structs strings (nd_parent n) (off + 4) (d - 1) st)"
    "w = STRUCTURE_END \<Longrightarrow> parse_loop ops p structs strings c off d st =
       (if c \<noteq> 0 then Some (Halt (Panic ''found a STRUCTURES_END token'')) else Some (Done st))"
  using assms
  by (subst parse_loop.simps; simp add: STRUCTURE_BEGIN_NODE_def STRUCTURE_END_NODE_def
      STRUCTURE_PROP_def STRUCTURE_NOP_def STRUCTURE_END_def)+

text \<open>Words to be skipped, also where no node is open.\<close>

lemma parse_loop_nops:
  assumes "dt_items m U structs strings off ps ts off'" and "ps = []" and "ts = []"
    and "off mod 4 = 0" and "blob_in taken ops p m U st"
  shows "parse_loop ops p structs strings c off d st = parse_loop ops p structs strings c off' d st"
  using assms
proof induction
  case (items_nop off ps ts off')
  then have "parse_loop ops p structs strings c off d st =
      parse_loop ops p structs strings c (off + 4) d st"
    by (intro parse_loop_token(1) [OF _ blob_in_word]) auto
  then show ?case using items_nop by (simp add: aligned_simps)
qed simp_all

context page_supply
begin

text \<open>
  One node: the contents between its tokens are the business of \<open>inner\<close>. Parsing starves, or it is back
  at the parent behind the node, which is built.
\<close>

lemma parse_subtree:
  fixes c :: u64
  assumes al: "off mod 4 = 0" and mid: "mid mod 4 = 0"
    and tokens: "word_at m U (structs + off) STRUCTURE_BEGIN_NODE" "string_at m U (structs + (off + 4)) n"
      "word_at m U (structs + mid) STRUCTURE_END_NODE"
    and c: "c \<noteq> 0 \<longrightarrow> dt_node_objs st c = Some x"
    and ok: "dt_ok inv owned p st" and blob: "blob_in owned ops p m U st"
    and inner: "\<And>a st1. a \<noteq> 0 \<Longrightarrow> dt_node_objs st1 a = Some (opened_node (structs + (off + 4)) n c x) \<Longrightarrow> dt_ok inv owned p st1 \<Longrightarrow>
      blob_in owned ops p m U st1 \<Longrightarrow>
      (\<exists>h. starved h (trees_size us) (length qs + trees_properties us) st1 \<and>
        parse_loop ops p structs strings a (off + 4 + align_up (n + 1) 4) (d + 1) st1 = Some (Halt h)) \<or>
      (\<exists>st2. parse_loop ops p structs strings a (off + 4 + align_up (n + 1) 4) (d + 1) st1 =
          parse_loop ops p structs strings a mid (d + 1) st2 \<and> built p a (opened_node (structs + (off + 4)) n c x) qs us st1 st2)"
  obtains (halt) h where "starved h (Suc (trees_size us)) (length qs + trees_properties us) st"
      "parse_loop ops p structs strings c off d st = Some (Halt h)"
  | (go) a st1 st2 where "parse_loop ops p structs strings c off d st = parse_loop ops p structs strings c (mid + 4) d st2"
      "built p a (opened_node (structs + (off + 4)) n c x) qs us st1 st2" "dt_step inv owned ops p st st1" "a \<noteq> 0" "dt_node_objs st a = None"
      "uses_room ops 1 0 st st1" "dt_node_objs st1 a = Some (opened_node (structs + (off + 4)) n c x)"
      "c \<noteq> 0 \<longrightarrow> dt_node_objs st1 c = Some (x\<lparr>nd_children := a\<rparr>)"
      "\<forall>b z. b \<noteq> c \<longrightarrow> dt_node_objs st b = Some z \<longrightarrow> dt_node_objs st1 b = Some z"
      "pushes (dt_node_objs st) 1 (dt_nodes st) (dt_nodes st1)"
      "unat (st_size (dt_nodes st)) = 0 \<longrightarrow> a = st_buffer (dt_nodes st1)"
      "st_size (dt_nodes st) = st_capacity (dt_nodes st) \<longrightarrow>
         st_capacity (dt_nodes st1) = grown_capacity sizeof_node (st_capacity (dt_nodes st))"
proof -
  note run = parse_loop_token(3) [OF al blob_in_word [OF blob tokens(1)] refl, of strings c d]
  show thesis
  proof (rule parse_node_step [OF ok blob tokens(2) c])
    fix h assume h: "starved h 1 0 st" "parse_node ops p c structs (off + 4) st = Halt h"
    show thesis by (rule halt [of h]) (simp_all add: run h(2) starved_more [OF h(1)])
  next
    fix a st1
    assume pre: "parse_node ops p c structs (off + 4) st = Done (a, off + 4 + align_up (n + 1) 4, st1)"
      and step: "dt_step inv owned ops p st st1" "a \<noteq> 0" "dt_node_objs st a = None"
      and new: "dt_node_objs st1 a = Some (opened_node (structs + (off + 4)) n c x)"
      and rest: "c \<noteq> 0 \<longrightarrow> dt_node_objs st1 c = Some (x\<lparr>nd_children := a\<rparr>)"
        "\<forall>b z. b \<noteq> c \<longrightarrow> dt_node_objs st b = Some z \<longrightarrow> dt_node_objs st1 b = Some z"
        "pushes (dt_node_objs st) 1 (dt_nodes st) (dt_nodes st1)"
        "unat (st_size (dt_nodes st)) = 0 \<longrightarrow> a = st_buffer (dt_nodes st1)"
        "st_size (dt_nodes st) = st_capacity (dt_nodes st) \<longrightarrow>
           st_capacity (dt_nodes st1) = grown_capacity sizeof_node (st_capacity (dt_nodes st))"
      and room: "uses_room ops 1 0 st st1"
    have ok1: "dt_ok inv owned p st1" using step(1) by (simp add: dt_step_def)
    note blob1 = blob_in_step [OF blob step(1)]
    from inner [OF step(2) new ok1 blob1] show thesis
    proof (elim disjE exE conjE)
      fix h assume h: "starved h (trees_size us) (length qs + trees_properties us) st1"
        "parse_loop ops p structs strings a (off + 4 + align_up (n + 1) 4) (d + 1) st1 = Some (Halt h)"
      show thesis by (rule halt [of h]) (simp_all add: run pre h(2) starved_later [OF room h(1)])
    next
      fix st2 assume go2: "parse_loop ops p structs strings a (off + 4 + align_up (n + 1) 4) (d + 1) st1 =
          parse_loop ops p structs strings a mid (d + 1) st2" "built p a (opened_node (structs + (off + 4)) n c x) qs us st1 st2"
      then have step2: "dt_step inv owned ops p st1 st2" by (simp add: built_def)
      obtain z where z: "dt_node_objs st2 a = Some z" "nd_parent z = c"
        using go2(2) by (auto simp: built_def opened_node_def)
      have "parse_loop ops p structs strings a mid (d + 1) st2 = parse_loop ops p structs strings c (mid + 4) d st2"
        using parse_loop_token(4) [OF mid blob_in_word [OF blob_in_step [OF blob1 step2] tokens(3)] refl,
            of strings a "d + 1"] z step(2) by (simp add: deref_def)
      then have "parse_loop ops p structs strings c off d st = parse_loop ops p structs strings c (mid + 4) d st2"
        by (simp add: run pre go2(1))
      then show thesis by (rule go [OF _ go2(2) step room new rest])
    qed
  qed
qed

text \<open>The main lemma: from the start of the contents of an open node to their end.\<close>

lemma parse_items:
  assumes "dt_items m U structs strings off ps ts off'" and "off mod 4 = 0"
    and "c \<noteq> 0" and "dt_node_objs st c = Some x"
    and "dt_ok inv owned p st" and "blob_in owned ops p m U st"
  shows "(\<exists>h. starved h (trees_size ts) (length ps + trees_properties ts) st \<and>
      parse_loop ops p structs strings c off d st = Some (Halt h)) \<or>
    (\<exists>st'. parse_loop ops p structs strings c off d st = parse_loop ops p structs strings c off' d st' \<and>
       built p c x ps ts st st')"
  using assms
proof (induction arbitrary: c x d st)
  case (items_end off)
  then show ?case using built_refl by blast
next
  case (items_nop off ps ts off')
  note run = parse_loop_token(1) [OF items_nop.prems(1) blob_in_word [OF items_nop.prems(5) items_nop.hyps(1)] refl,
      of strings c d]
  show ?case
    unfolding run using items_nop.prems by (intro items_nop.IH) (simp_all add: aligned_simps)
next
  case (items_prop off len name n ps ts off')
  note run = parse_loop_token(2) [OF items_prop.prems(1) blob_in_word [OF items_prop.prems(5) items_prop.hyps(1)] refl,
      of strings c d]
  show ?case
  proof (rule pre_parse_property_step [OF items_prop.prems(4,5) items_prop.hyps(2,3,4) items_prop.prems(2,3)])
    fix h assume h: "starved h 0 1 st" "pre_parse_property ops p c structs strings (off + 4) st = Halt h"
    show ?thesis
      unfolding run h(2) by (rule disjI1, rule exI [of _ h]) (simp add: starved_more [OF h(1)])
  next
    fix a st1
    assume pre: "pre_parse_property ops p c structs strings (off + 4) st =
        Done (off + 4 + 4 + 4 + align_up (ucast len) 4, st1)"
      and step: "dt_step inv owned ops p st st1" "a \<noteq> 0" and room: "uses_room ops 0 1 st st1"
      and new: "dt_prop_objs st1 a = Some \<lparr>pr_name = \<lparr>sv_data = strings + ucast name, sv_size = n\<rparr>,
         pr_next = nd_properties x, pr_type = RAW,
         pr_data = D_raw \<lparr>bv_data = structs + (off + 4 + 4 + 4), bv_size = ucast len\<rparr>\<rparr>"
      and nodes: "dt_node_objs st1 = (dt_node_objs st)(c := Some (x\<lparr>nd_properties := a\<rparr>))"
        "dt_nodes st1 = dt_nodes st"
    let ?q = "(\<lparr>sv_data = strings + ucast name, sv_size = n\<rparr>,
      \<lparr>bv_data = structs + (off + 4 + 4 + 4), bv_size = ucast len\<rparr>)"
    have ok1: "dt_ok inv owned p st1" using step(1) by (simp add: dt_step_def)
    have al: "(off + 4 + 4 + 4 + align_up (ucast len) 4) mod 4 = 0"
      using items_prop.prems(1) by (simp only: aligned_simps)
    have c1: "dt_node_objs st1 c = Some (x\<lparr>nd_properties := a\<rparr>)" using nodes by simp
    have go: "built p c x (?q # ps) ts st st'" if "built p c (x\<lparr>nd_properties := a\<rparr>) ps ts st1 st'" for st'
      using new by (intro built_prop [OF step room _ nodes items_prop.prems(3) that]) simp
    have more: "starved h (trees_size ts) (length (?q # ps) + trees_properties ts) st"
      if "starved h (trees_size ts) (length ps + trees_properties ts) st1" for h
      by (rule starved_later [OF room that]) simp_all
    show ?thesis
      unfolding run pre bind_loop_simps split_conv
      using items_prop.IH [OF al items_prop.prems(2) c1 ok1 blob_in_step [OF items_prop.prems(5) step(1)], of d]
        go more by blast
  qed
next
  case (items_node off n qs us off1 ps ts off')
  have al: "(off + 4 + align_up (n + 1) 4) mod 4 = 0" using items_node.prems(1) by (simp only: aligned_simps)
  have al1: "off1 mod 4 = 0" using items_aligned [OF items_node.hyps(3) al] .
  show ?case
  proof (rule parse_subtree [OF items_node.prems(1) al1 items_node.hyps(1,2,4) _ items_node.prems(4,5),
      where c = c and x = x and us = us and qs = qs and strings = strings and d = d])
    show "c \<noteq> 0 \<longrightarrow> dt_node_objs st c = Some x" using items_node.prems(3) by simp
  next
    fix a st1
    assume "a \<noteq> 0" "dt_node_objs st1 a = Some (opened_node (structs + (off + 4)) n c x)"
      and "dt_ok inv owned p st1" "blob_in owned ops p m U st1"
    from items_node.IH(1) [OF al this, of "d + 1"] show "(\<exists>h. starved h (trees_size us) (length qs + trees_properties us) st1 \<and>
        parse_loop ops p structs strings a (off + 4 + align_up (n + 1) 4) (d + 1) st1 = Some (Halt h)) \<or>
      (\<exists>st2. parse_loop ops p structs strings a (off + 4 + align_up (n + 1) 4) (d + 1) st1 =
          parse_loop ops p structs strings a off1 (d + 1) st2 \<and>
        built p a (opened_node (structs + (off + 4)) n c x) qs us st1 st2)" .
  next
    fix h assume h: "starved h (Suc (trees_size us)) (length qs + trees_properties us) st"
      "parse_loop ops p structs strings c off d st = Some (Halt h)"
    have "starved h (trees_size (Dt_node \<lparr>sv_data = structs + (off + 4), sv_size = n\<rparr> qs us # ts))
        (length ps + trees_properties (Dt_node \<lparr>sv_data = structs + (off + 4), sv_size = n\<rparr> qs us # ts)) st"
      by (rule starved_more [OF h(1)]) simp_all
    with h(2) show ?thesis by blast
  next
    fix a st1 st2
    let ?y = "\<lparr>nd_name = \<lparr>sv_data = structs + (off + 4), sv_size = n\<rparr>, nd_address_cells = 0, nd_size_cells = 0,
      nd_properties = 0, nd_parent = c, nd_children = 0, nd_next_sibling = nd_children x\<rparr>"
    let ?t = "Dt_node \<lparr>sv_data = structs + (off + 4), sv_size = n\<rparr> qs us"
    assume run: "parse_loop ops p structs strings c off d st = parse_loop ops p structs strings c (off1 + 4) d st2"
      and inner: "built p a (opened_node (structs + (off + 4)) n c x) qs us st1 st2"
      and step: "dt_step inv owned ops p st st1" "a \<noteq> 0" "dt_node_objs st a = None" and room: "uses_room ops 1 0 st st1"
      and new: "dt_node_objs st1 a = Some (opened_node (structs + (off + 4)) n c x)"
      and c: "c \<noteq> 0 \<longrightarrow> dt_node_objs st1 c = Some (x\<lparr>nd_children := a\<rparr>)"
      and kept: "\<forall>b z. b \<noteq> c \<longrightarrow> dt_node_objs st b = Some z \<longrightarrow> dt_node_objs st1 b = Some z"
      and push: "pushes (dt_node_objs st) 1 (dt_nodes st) (dt_nodes st1)"
    have y: "opened_node (structs + (off + 4)) n c x = ?y" using items_node.prems(2) by (simp add: opened_node_def)
    note inner = inner [unfolded y] and new = new [unfolded y]
    have "a \<noteq> c" using items_node.prems(3) step(3) by auto
    then have c2: "dt_node_objs st2 c = Some (x\<lparr>nd_children := a\<rparr>)"
      using c inner items_node.prems(2) by (auto simp: built_def)
    have step2: "dt_step inv owned ops p st1 st2" using inner by (simp add: built_def)
    then have ok2: "dt_ok inv owned p st2" by (simp add: dt_step_def)
    have more: "starved h (trees_size (?t # ts)) (length ps + trees_properties (?t # ts)) st"
      if "starved h (trees_size ts) (length ps + trees_properties ts) st2" for h
    proof -
      have "uses_room ops (trees_size us) (length qs + trees_properties us) st1 st2" using inner by (simp add: built_def)
      from starved_later [OF uses_room_trans [OF room this refl refl] that] show ?thesis by simp
    qed
    from items_node.IH(2) [OF aligned_simps(1) [OF al1] items_node.prems(2) c2 ok2
        blob_in_step [OF blob_in_step [OF items_node.prems(5) step(1)] step2], of d]
    show ?thesis
      unfolding run
      using built_node [OF step room _ items_node.prems(3) _ kept push inner] more new c items_node.prems(2) by blast
  qed
qed

end

section \<open>The whole block\<close>

definition dt_block ::
  "mem \<Rightarrow> u64 set \<Rightarrow> u64 \<Rightarrow> u64 \<Rightarrow> dt_tree \<Rightarrow> bool" where
  "dt_block m U structs strings t \<longleftrightarrow> (\<exists>off. dt_items m U structs strings 0 [] [t] off \<and>
     word_at m U (structs + off) STRUCTURE_END)"

text \<open>
  The state in which parsing starts, and what holds at the end: the nodes below \<open>a\<close>
  represent \<open>t\<close>, and \<open>a\<close> is the first element of the stack of nodes exactly if the stack
  had room for all of them in its first buffer.
\<close>

definition parsed ::
  "('s \<Rightarrow> bool) \<Rightarrow> ('s \<Rightarrow> u64 set) \<Rightarrow> 's page_ops \<Rightarrow> platform_info \<Rightarrow> u64 \<Rightarrow> dt_tree \<Rightarrow>
   's dt_state \<Rightarrow> 's dt_state \<Rightarrow> bool" where
  "parsed ok taken ops p a t st st' \<longleftrightarrow>
     dt_step ok taken ops p st st' \<and> tree_at (dt_node_objs st') (dt_prop_objs st') a 0 0 t \<and>
     st_size (dt_nodes st') \<noteq> 0 \<and> dt_node_objs st' (st_buffer (dt_nodes st')) \<noteq> None \<and>
     (stack_index sizeof_node (dt_nodes st') 0 = a \<longleftrightarrow> tree_size t \<le> 73)"

text \<open>The pages that the nodes and the properties of a tree need, the stacks being empty at first.\<close>

definition tree_pages :: "dt_tree \<Rightarrow> nat" where
  "tree_pages t = push_cost sizeof_node 0 0 (tree_size t) + push_cost sizeof_property 0 0 (tree_properties t)"

lemma first_capacity: "grown_capacity sizeof_node 0 = 73"
  by (simp add: grown_capacity_def sizeof_node_def align_up_def sv39_PAGE_SIZE_def)

lemma tree_pages_small: "tree_size t \<le> 73 \<Longrightarrow> tree_properties t \<le> 51 \<Longrightarrow> tree_pages t \<le> 2"
  by (cases "tree_size t"; cases "tree_properties t"; simp add: tree_pages_def push_cost.simps push_cost_room
      page_count_def grow_request_def align_up_def sv39_PAGE_SIZE_def sizeof_node_def sizeof_property_def)

lemma stack_ok_first:
  assumes "stack_ok p sz S k objs" and "unat (st_size k) \<noteq> 0"
  shows "objs (st_buffer k) \<noteq> None"
proof -
  obtain xs where "stack_rep p sz S k objs xs" using assms(1) by (auto simp: stack_ok_def)
  then have "objs (slot (st_buffer k) sz 0) \<noteq> None"
    using assms(2) unfolding stack_rep_def by fastforce
  then show ?thesis by (simp add: slot_simps)
qed

context page_supply
begin

lemma built_root:
  assumes "built p a \<lparr>nd_name = name, nd_address_cells = 0, nd_size_cells = 0, nd_properties = 0, nd_parent = 0,
      nd_children = 0, nd_next_sibling = sib\<rparr> qs us st1 st2" and "a \<noteq> 0"
  shows "tree_at (dt_node_objs st2) (dt_prop_objs st2) a 0 sib (Dt_node name qs us)"
proof -
  obtain h k N where z: "dt_node_objs st2 a = Some \<lparr>nd_name = name, nd_address_cells = 0, nd_size_cells = 0,
      nd_properties = h, nd_parent = 0, nd_children = k, nd_next_sibling = sib\<rparr>"
    "props_at (dt_prop_objs st2) h (rev qs) 0" "trees_at N (dt_prop_objs st2) k a (rev us) 0"
    "N \<subseteq>\<^sub>m dt_node_objs st2"
    using assms(1) by (auto simp: built_def)
  then show ?thesis
    using assms(2) tree_at_mono(2) [OF z(4) map_le_refl z(3)] by (intro tree_at) simp_all
qed

lemma parse_block:
  assumes "dt_items m U structs strings off ps ts off'" and "ps = []" and "ts = [t]"
    and "off mod 4 = 0" and "word_at m U (structs + off') STRUCTURE_END"
    and "dt_ok inv owned p st" and "blob_in owned ops p m U st" and "dt_nodes st = stack_empty"
  shows "(\<exists>h. starved h (tree_size t) (tree_properties t) st \<and>
      parse_loop ops p structs strings 0 off d st = Some (Halt h)) \<or>
    (\<exists>a st'. parse_loop ops p structs strings 0 off d st = Some (Done st') \<and>
       parsed inv owned ops p a t st st')"
  using assms
proof (induction arbitrary: d)
  case (items_nop off ps ts off')
  have "parse_loop ops p structs strings 0 off d st = parse_loop ops p structs strings 0 (off + 4) d st"
    using items_nop by (intro parse_loop_token(1) [OF _ blob_in_word]) auto
  then show ?case using items_nop by (simp add: aligned_simps)
next
  case (items_node off n qs us off1 ps ts off')
  have al: "(off + 4 + align_up (n + 1) 4) mod 4 = 0" using items_node.prems(3) by (simp only: aligned_simps)
  have al1: "off1 mod 4 = 0" using items_aligned [OF items_node.hyps(3) al] .
  have only: "ps = []" "ts = []" and t: "t = Dt_node \<lparr>sv_data = structs + (off + 4), sv_size = n\<rparr> qs us"
    using items_node.prems(1,2) by auto
  show ?case
  proof (rule parse_subtree [OF items_node.prems(3) al1 items_node.hyps(1,2,4) _ items_node.prems(5,6),
      where c = 0 and x = undefined and us = us and qs = qs and strings = strings and d = d])
    fix a st1
    assume "a \<noteq> 0" "dt_node_objs st1 a = Some (opened_node (structs + (off + 4)) n 0 undefined)"
      and "dt_ok inv owned p st1" "blob_in owned ops p m U st1"
    from parse_items [OF items_node.hyps(3) al this, of "d + 1"]
    show "(\<exists>h. starved h (trees_size us) (length qs + trees_properties us) st1 \<and>
        parse_loop ops p structs strings a (off + 4 + align_up (n + 1) 4) (d + 1) st1 = Some (Halt h)) \<or>
      (\<exists>st2. parse_loop ops p structs strings a (off + 4 + align_up (n + 1) 4) (d + 1) st1 =
          parse_loop ops p structs strings a off1 (d + 1) st2 \<and>
        built p a (opened_node (structs + (off + 4)) n 0 undefined) qs us st1 st2)" .
  next
    fix h assume "starved h (Suc (trees_size us)) (length qs + trees_properties us) st"
      "parse_loop ops p structs strings 0 off d st = Some (Halt h)"
    then show ?thesis by (auto simp: t)
  next
    fix a st1 st2
    assume run: "parse_loop ops p structs strings 0 off d st = parse_loop ops p structs strings 0 (off1 + 4) d st2"
      and inner: "built p a (opened_node (structs + (off + 4)) n 0 undefined) qs us st1 st2"
      and step: "dt_step inv owned ops p st st1" "a \<noteq> 0"
      and y: "dt_node_objs st1 a = Some (opened_node (structs + (off + 4)) n 0 undefined)"
      and push: "pushes (dt_node_objs st) 1 (dt_nodes st) (dt_nodes st1)"
      and first: "unat (st_size (dt_nodes st)) = 0 \<longrightarrow> a = st_buffer (dt_nodes st1)"
        "st_size (dt_nodes st) = st_capacity (dt_nodes st) \<longrightarrow>
           st_capacity (dt_nodes st1) = grown_capacity sizeof_node (st_capacity (dt_nodes st))"
    have opened_root: "opened_node (structs + (off + 4)) n 0 undefined = \<lparr>nd_name = \<lparr>sv_data = structs + (off + 4), sv_size = n\<rparr>,
        nd_address_cells = 0, nd_size_cells = 0, nd_properties = 0, nd_parent = 0, nd_children = 0, nd_next_sibling = 0\<rparr>"
      by (simp add: opened_node_def)
    have stack1: "unat (st_size (dt_nodes st1)) = 1" "st_capacity (dt_nodes st1) = 73" "st_buffer (dt_nodes st1) = a"
      using push first items_node.prems(7) first_capacity by (simp_all add: pushes_def stack_empty_def)
    have step2: "dt_step inv owned ops p st1 st2"
      and push2: "pushes (dt_node_objs st1) (trees_size us) (dt_nodes st1) (dt_nodes st2)"
      using inner by (simp_all add: built_def)
    note blob2 = blob_in_step [OF blob_in_step [OF items_node.prems(6) step(1)] step2]
    have "parse_loop ops p structs strings 0 (off1 + 4) d st2 = parse_loop ops p structs strings 0 off' d st2"
      by (rule parse_loop_nops [OF items_node.hyps(5) only aligned_simps(1) [OF al1] blob2])
    also have "\<dots> = Some (Done st2)"
      using parse_loop_token(5) [OF _ blob_in_word [OF blob2 items_node.prems(4)] refl, of strings 0 d]
        items_aligned [OF items_node.hyps(5) aligned_simps(1) [OF al1]] by simp
    finally have "parse_loop ops p structs strings 0 off d st = Some (Done st2)" unfolding run .
    moreover have "tree_at (dt_node_objs st2) (dt_prop_objs st2) a 0 0 t"
      unfolding t by (rule built_root [OF inner [unfolded opened_root] step(2)])
    moreover have "stack_index sizeof_node (dt_nodes st2) 0 = a \<longleftrightarrow> tree_size t \<le> 73"
      using push2 stack1 y unfolding t by (auto simp: pushes_def stack_index_def split: if_splits)
    moreover have "st_size (dt_nodes st2) \<noteq> 0"
      using push2 stack1(1) by (auto simp: pushes_def)
    moreover have "dt_node_objs st2 (st_buffer (dt_nodes st2)) \<noteq> None"
      using step2 push2 stack1(1)
      by (intro stack_ok_first [of p sizeof_node "owned (dt_sup st2)"])
        (simp_all add: dt_step_def dt_ok_def pushes_def)
    ultimately show ?thesis
      using dt_step_trans [OF step(1) step2] unfolding parsed_def by blast
  qed simp
qed simp_all

end

end
