(* ===== verification/Device_Tree_Rewrite.thy ===== *)
theory Device_Tree_Rewrite
  imports Device_Tree
begin

text \<open>
  The second pass of \<^verbatim>\<open>kernel/src/devices/device_tree.cpp\<close>: properties with a known name get
  their type and value, arrays are made in memory of the bump allocator. Also the entry
  point \<open>parse_from_blob\<close>.
\<close>

section \<open>Access to memory and objects\<close>

definition get_prop :: "u64 \<Rightarrow> 's dt_state \<Rightarrow> property outcome" where
  "get_prop a st = deref (dt_prop_objs st) a"

definition get_node :: "u64 \<Rightarrow> 's dt_state \<Rightarrow> node outcome" where
  "get_node a st = deref (dt_node_objs st) a"

text \<open>Reading a member of the union that is not the one written last is undefined.\<close>

definition raw_of :: "property \<Rightarrow> byte_view outcome" where
  "raw_of q = (case pr_data q of D_raw bv \<Rightarrow> Done bv | _ \<Rightarrow> Halt Inactive_member)"

text \<open>A store of bytes through a pointer.\<close>

definition dt_store :: "'s page_ops \<Rightarrow> platform_info \<Rightarrow> u64 \<Rightarrow> u8 list \<Rightarrow> 's dt_state \<Rightarrow> 's dt_state outcome"
where
  "dt_store ops p a bs st =
     (if a = 0 then Halt Null_deref
      else Done (st\<lparr>dt_sup := po_put ops
             (store_bytes (po_mem ops (dt_sup st)) (hhdm_virt_to_phys p a) bs) (dt_sup st)\<rparr>))"

definition dt_alloc ::
  "'s page_ops \<Rightarrow> platform_info \<Rightarrow> size_t \<Rightarrow> size_t \<Rightarrow> 's dt_state \<Rightarrow> (u64 \<times> 's dt_state) outcome" where
  "dt_alloc ops p n alignment st =
     bind_outcome (bump_alloc_aligned ops p n alignment (dt_bump st, dt_sup st)) (\<lambda>(ptr, b, s).
       Done (ptr, st\<lparr>dt_bump := b, dt_sup := s\<rparr>))"

text \<open>\<^verbatim>\<open>str_view::compare(literal, v) == 0\<close>.\<close>

definition is_named :: "string \<Rightarrow> mem \<Rightarrow> str_view \<Rightarrow> bool" where
  "is_named s m v \<longleftrightarrow> compare_bytes (ascii s) (sv_bytes m v) = 0"

section \<open>Arrays of cells\<close>

text \<open>
  Element \<open>i\<close> of an array, read from the property at \<open>src\<close>; \<open>cells\<close> is the number of 32-bit
  cells. \<open>zero_ok\<close> says whether the \<^verbatim>\<open>switch\<close> has a case for no cells, \<open>wide\<close> whether three
  cells are stored as 128 bits (\<^verbatim>\<open>reg\<close>) or cut to 64 (\<^verbatim>\<open>ranges\<close>).
\<close>

definition store_address ::
  "'s page_ops \<Rightarrow> platform_info \<Rightarrow> bool \<Rightarrow> bool \<Rightarrow> u32 \<Rightarrow> u64 \<Rightarrow> size_t \<Rightarrow> u64 \<Rightarrow> 's dt_state \<Rightarrow>
   's dt_state outcome" where
  "store_address ops p zero_ok wide cells arr i src st =
     (let m = dt_mem ops p st in
      if cells = 0 \<and> zero_ok then Done st
      else if cells = 1 then dt_store ops p (arr + 4 * i) (bytes_of 4 (read_big_endian32 m src)) st
      else if cells = 2 then dt_store ops p (arr + 8 * i) (bytes_of 8 (read_big_endian64 m src)) st
      else if cells = 3 then
        (if wide
         then dt_store ops p (arr + 16 * i) (bytes_of 16 (read_big_endian128 m src)) st
         else dt_store ops p (arr + 8 * i)
           (bytes_of 8 (ucast (read_big_endian128 m src) :: u64)) st)
      else Halt Unreachable)"

definition store_size ::
  "'s page_ops \<Rightarrow> platform_info \<Rightarrow> u32 \<Rightarrow> u64 \<Rightarrow> size_t \<Rightarrow> u64 \<Rightarrow> 's dt_state \<Rightarrow> 's dt_state outcome" where
  "store_size ops p cells arr i src st =
     (let m = dt_mem ops p st in
      if cells = 0 then Done st
      else if cells = 1 then dt_store ops p (arr + 4 * i) (bytes_of 4 (read_big_endian32 m src)) st
      else if cells = 2 then dt_store ops p (arr + 8 * i) (bytes_of 8 (read_big_endian64 m src)) st
      else Halt Unreachable)"

section \<open>Ranges\<close>

function ranges_loop ::
  "'s page_ops \<Rightarrow> platform_info \<Rightarrow> u32 \<Rightarrow> u32 \<Rightarrow> u32 \<Rightarrow> u64 \<Rightarrow> u64 \<Rightarrow> u64 \<Rightarrow> u64 \<Rightarrow> size_t \<Rightarrow>
   size_t \<Rightarrow> size_t \<Rightarrow> 's dt_state \<Rightarrow> 's dt_state outcome" where
  "ranges_loop ops p child parent sizes buf cbus pbus size_arr n i j st =
     (if i < n then
        bind_outcome (store_address ops p False False child cbus i (buf + j) st) (\<lambda>st1.
        let j1 = j + ucast (4 * child) in
        bind_outcome (store_address ops p False False parent pbus i (buf + j1) st1) (\<lambda>st2.
        let j2 = j1 + ucast (4 * parent) in
        bind_outcome (store_size ops p sizes size_arr i (buf + j2) st2) (\<lambda>st3.
        ranges_loop ops p child parent sizes buf cbus pbus size_arr n (i + 1)
          (j2 + ucast (4 * sizes)) st3)))
      else Done st)"
  by pat_completeness auto
termination
  by (relation "measure (\<lambda>(ops, p, c, pa, sz, buf, cb, pb, sa, n, i, j, st). unat n - unat i)")
    (auto simp: unat_Suc_less word_less_nat_alt)

declare ranges_loop.simps [simp del]

definition property_rewrite_ranges ::
  "'s page_ops \<Rightarrow> platform_info \<Rightarrow> u64 \<Rightarrow> u64 \<Rightarrow> 's dt_state \<Rightarrow> 's dt_state outcome" where
  "property_rewrite_ranges ops p node prop st =
     bind_outcome (get_prop prop st) (\<lambda>q.
     bind_outcome (raw_of q) (\<lambda>raw.
     let value_buffer = bv_data raw; value_len = bv_size raw in
     if value_len = 0 then
       upd_prop prop (\<lambda>q. q\<lparr>pr_type := RANGES, pr_data := D_range 0 0 0 0\<rparr>) st
     else
       bind_outcome (get_node node st) (\<lambda>nd.
       bind_outcome (get_node (nd_parent nd) st) (\<lambda>pnd.
       let child_address_size = 4 * nd_address_cells nd;
           parent_address_size = 4 * nd_address_cells pnd;
           size_size = 4 * nd_size_cells nd;
           entry = ucast (child_address_size + parent_address_size + size_size) :: size_t
       in if entry = 0 then Halt Division_by_zero
          else
            let n = value_len div entry in
            if n = 0 then Halt (Assertion ''n_trips > 0'')
            else if value_len mod entry \<noteq> 0
              then Halt (Assertion ''value_len % (child_address_size + parent_address_size + size_size) == 0'')
            else if nd_address_cells nd > 3 then Halt (Assertion ''node->address_cells <= 3'')
            else if nd_size_cells nd > 2 then Halt (Assertion ''node->size_cells <= 2'')
            else
              bind_outcome (dt_alloc ops p (ucast child_address_size * n) (ucast child_address_size) st)
                (\<lambda>(cbus, st1).
              bind_outcome (dt_alloc ops p (ucast child_address_size * n) (ucast child_address_size) st1)
                (\<lambda>(pbus, st2).
              bind_outcome (dt_alloc ops p (ucast size_size * n) (ucast size_size) st2)
                (\<lambda>(size_arr, st3).
              bind_outcome (ranges_loop ops p (nd_address_cells nd) (nd_address_cells pnd)
                  (nd_size_cells nd) value_buffer cbus pbus size_arr n 0 0 st3) (\<lambda>st4.
              upd_prop prop (\<lambda>q. q\<lparr>pr_type := RANGES, pr_data := D_range n cbus pbus size_arr\<rparr>) st4))))))))"

section \<open>Address and size pairs\<close>

function reg_loop ::
  "'s page_ops \<Rightarrow> platform_info \<Rightarrow> u32 \<Rightarrow> u32 \<Rightarrow> u64 \<Rightarrow> u64 \<Rightarrow> u64 \<Rightarrow> size_t \<Rightarrow> size_t \<Rightarrow> size_t \<Rightarrow>
   's dt_state \<Rightarrow> 's dt_state outcome" where
  "reg_loop ops p addresses sizes buf address_arr size_arr n i j st =
     (if i < n then
        bind_outcome (store_address ops p True True addresses address_arr i (buf + j) st) (\<lambda>st1.
        let j1 = j + ucast (4 * addresses) in
        bind_outcome (store_size ops p sizes size_arr i (buf + j1) st1) (\<lambda>st2.
        reg_loop ops p addresses sizes buf address_arr size_arr n (i + 1) (j1 + ucast (4 * sizes)) st2))
      else Done st)"
  by pat_completeness auto
termination
  by (relation "measure (\<lambda>(ops, p, a, sz, buf, aa, sa, n, i, j, st). unat n - unat i)")
    (auto simp: unat_Suc_less word_less_nat_alt)

declare reg_loop.simps [simp del]

definition property_rewrite_reg ::
  "'s page_ops \<Rightarrow> platform_info \<Rightarrow> u64 \<Rightarrow> u64 \<Rightarrow> 's dt_state \<Rightarrow> 's dt_state outcome" where
  "property_rewrite_reg ops p node prop st =
     bind_outcome (get_prop prop st) (\<lambda>q.
     bind_outcome (raw_of q) (\<lambda>bv.
     bind_outcome (get_node node st) (\<lambda>nd.
     bind_outcome (get_node (nd_parent nd) st) (\<lambda>pnd.
     let address_size = 4 * nd_address_cells pnd;
         size_size = 4 * nd_size_cells pnd;
         entry = ucast (address_size + size_size) :: size_t
     in if entry = 0 then Halt Division_by_zero
        else
          let n = bv_size bv div entry in
          if n = 0 then Halt (Assertion ''n_pairs > 0'')
          else if bv_size bv mod entry \<noteq> 0
            then Halt (Assertion ''bv.length() % (address_size + size_size) == 0'')
          else if nd_address_cells pnd > 3 then Halt (Assertion ''node->parent->address_cells <= 3'')
          else if nd_size_cells pnd > 2 then Halt (Assertion ''node->parent->size_cells <= 2'')
          else
            bind_outcome (dt_alloc ops p (ucast address_size * n) (ucast address_size) st)
              (\<lambda>(address_arr, st1).
            bind_outcome (dt_alloc ops p (ucast size_size * n) (ucast size_size) st1)
              (\<lambda>(size_arr, st2).
            if (address_size = 0) \<noteq> (address_arr = 0)
              then Halt (Assertion ''(address_size == 0) ? address_array == NULL : address_array != NULL'')
            else if (size_size = 0) \<noteq> (size_arr = 0)
              then Halt (Assertion ''(size_size == 0) ? size_array == NULL : size_array != NULL'')
            else
              bind_outcome (reg_loop ops p (nd_address_cells pnd) (nd_size_cells pnd) (bv_data bv)
                  address_arr size_arr n 0 0 st2) (\<lambda>st3.
              upd_prop prop (\<lambda>q. q\<lparr>pr_type := REG, pr_data := D_reg n address_arr size_arr\<rparr>) st3)))))))"

section \<open>Lists of strings\<close>

definition count_zeros :: "mem \<Rightarrow> byte_view \<Rightarrow> size_t" where
  "count_zeros m v = of_nat (length (filter (\<lambda>b. b = 0) (bv_bytes m v)))"

text \<open>Element \<open>j\<close> of the array is a view: a pointer and a length.\<close>

definition store_view ::
  "'s page_ops \<Rightarrow> platform_info \<Rightarrow> u64 \<Rightarrow> size_t \<Rightarrow> str_view \<Rightarrow> 's dt_state \<Rightarrow> 's dt_state outcome" where
  "store_view ops p arr j v st =
     dt_store ops p (arr + 16 * j) (bytes_of 8 (sv_data v) @ bytes_of 8 (sv_size v)) st"

partial_function (option) compatible_loop ::
  "'s page_ops \<Rightarrow> platform_info \<Rightarrow> byte_view \<Rightarrow> u64 \<Rightarrow> size_t \<Rightarrow> size_t \<Rightarrow> 's dt_state \<Rightarrow>
   's dt_state outcome option" where
  "compatible_loop ops p raw arr i j st =
     (if i < bv_size raw then
        bind_loop (str_view_from_null_term (dt_mem ops p st) (bv_data raw + i)) (\<lambda>v.
        bind_loop (store_view ops p arr j v st) (\<lambda>st1.
        compatible_loop ops p raw arr
          (i + (load64 (dt_mem ops p st1) (arr + 16 * j + 8) + 1)) (j + 1) st1))
      else Some (Done st))"

definition rewrite_compatible ::
  "'s page_ops \<Rightarrow> platform_info \<Rightarrow> u64 \<Rightarrow> 's dt_state \<Rightarrow> 's dt_state outcome" where
  "rewrite_compatible ops p prop st =
     bind_outcome (get_prop prop st) (\<lambda>q.
     bind_outcome (raw_of q) (\<lambda>raw_view.
     let num_strings = count_zeros (dt_mem ops p st) raw_view in
     bind_outcome (dt_alloc ops p (8 * (num_strings + 1)) 8 st) (\<lambda>(arr, st1).
     bind_outcome (upd_prop prop (\<lambda>q. q\<lparr>pr_data := D_compatible_array arr\<rparr>) st1) (\<lambda>st2.
     if arr = 0 then Halt (Assertion ''prop->data.compatible_array != nullptr'')
     else
       bind_outcome (join_spin (compatible_loop ops p raw_view arr 0 0 st2)) (\<lambda>st3.
       bind_outcome (store_view ops p arr num_strings str_view_empty st3) (\<lambda>st4.
       upd_prop prop (\<lambda>q. q\<lparr>pr_type := COMPATIBLE\<rparr>) st4))))))"

section \<open>The other properties\<close>

text \<open>A property whose value is one big-endian word.\<close>

definition rewrite_u32 ::
  "'s page_ops \<Rightarrow> platform_info \<Rightarrow> prop_type \<Rightarrow> (u32 \<Rightarrow> prop_data) \<Rightarrow> u64 \<Rightarrow> 's dt_state \<Rightarrow>
   (u32 \<times> 's dt_state) outcome" where
  "rewrite_u32 ops p t f prop st =
     bind_outcome (get_prop prop st) (\<lambda>q.
     bind_outcome (raw_of q) (\<lambda>raw.
     let w = read_big_endian32 (dt_mem ops p st) (bv_data raw) in
     bind_outcome (upd_prop prop (\<lambda>q. q\<lparr>pr_type := t, pr_data := f w\<rparr>) st) (\<lambda>st1.
     Done (w, st1))))"

definition rewrite_view ::
  "prop_type \<Rightarrow> (str_view \<Rightarrow> prop_data) \<Rightarrow> u64 \<Rightarrow> 's dt_state \<Rightarrow> 's dt_state outcome" where
  "rewrite_view t f prop st =
     bind_outcome (get_prop prop st) (\<lambda>q.
     bind_outcome (raw_of q) (\<lambda>raw.
     upd_prop prop (\<lambda>q. q\<lparr>pr_type := t, pr_data := f (str_view_from_byte_view raw)\<rparr>) st))"

definition rewrite_status ::
  "'s page_ops \<Rightarrow> platform_info \<Rightarrow> u64 \<Rightarrow> 's dt_state \<Rightarrow> 's dt_state outcome" where
  "rewrite_status ops p prop st =
     bind_outcome (get_prop prop st) (\<lambda>q.
     bind_outcome (raw_of q) (\<lambda>raw.
     let m = dt_mem ops p st;
         status_string = str_view_from_byte_view raw;
         set = (\<lambda>v r. upd_prop prop (\<lambda>q. q\<lparr>pr_type := STATUS, pr_data := D_status v r\<rparr>) st)
     in if is_named ''okay'' m status_string then set OKAY str_view_empty
        else if is_named ''disabled'' m status_string then set DISABLED str_view_empty
        else if is_named ''reserved'' m status_string then set RESERVED str_view_empty
        else if is_named ''fail'' m status_string then set FAIL str_view_empty
        else if is_named ''fail-'' m (str_view_advance status_string 5)
          then set FAIL_WITH_REASON (str_view_advance status_string 5)
        else upd_prop prop (\<lambda>q. q\<lparr>pr_type := STATUS\<rparr>) st))"

text \<open>
  The body of the first loop over the properties of a node. The result is an early return
  with an error, or \<open>None\<close>, and the state.
\<close>

definition rewrite_property ::
  "'s page_ops \<Rightarrow> platform_info \<Rightarrow> u64 \<Rightarrow> u64 \<Rightarrow> 's dt_state \<Rightarrow> (error option \<times> 's dt_state) outcome"
where
  "rewrite_property ops p node prop st =
     bind_outcome (get_prop prop st) (\<lambda>q.
     let name = pr_name q;
         named = (\<lambda>s. is_named s (dt_mem ops p st) name);
         go = (\<lambda>r. bind_outcome r (\<lambda>st1. Done (None, st1)));
         word = (\<lambda>t f. bind_outcome (rewrite_u32 ops p t f prop st) (\<lambda>(w, st1). Done (None, st1)))
     in if named ''compatible'' then go (rewrite_compatible ops p prop st)
        else if named ''model'' then go (rewrite_view MODEL D_model prop st)
        else if named ''phandle'' then word PHANDLE D_phandle
        else if named ''status'' then go (rewrite_status ops p prop st)
        else if named ''#address-cells'' then
          bind_outcome (rewrite_u32 ops p ADDRESS_CELLS D_address_cells prop st) (\<lambda>(w, st1).
            if w > 3 then Done (Some (error_of DT_ADDRESS_CELLS_TOO_LARGE), st1)
            else go (upd_node node (\<lambda>n. n\<lparr>nd_address_cells := w\<rparr>) st1))
        else if named ''#size-cells'' then
          bind_outcome (rewrite_u32 ops p SIZE_CELLS D_size_cells prop st) (\<lambda>(w, st1).
            if w > 2 then Done (Some (error_of DT_SIZE_CELLS_TOO_LARGE), st1)
            else go (upd_node node (\<lambda>n. n\<lparr>nd_size_cells := w\<rparr>) st1))
        else if named ''dma-coherent'' then
          go (upd_prop prop (\<lambda>q. q\<lparr>pr_type := DMA_COHERENCE, pr_data := D_dma_coherence True\<rparr>) st)
        else if named ''dma-noncoherent'' then
          go (upd_prop prop (\<lambda>q. q\<lparr>pr_type := DMA_COHERENCE, pr_data := D_dma_coherence False\<rparr>) st)
        else if named ''device_type'' then go (rewrite_view DEVICE_TYPE D_device_type prop st)
        else if named ''virtual-reg'' then word VIRTUAL_REG D_virtual_reg
        else if named ''interrupt-parent'' then word INTERRUPT_PARENT D_interrupt_parent
        else if named ''#interrupt-cells'' then word INTERRUPT_CELLS D_interrupt_cells
        else if named ''interrupts'' \<or> named ''interrupt-map'' \<or> named ''interrupt-map-mask''
          then Done (None, st)
        else if named ''interrupt-controller''
          then go (upd_prop prop (\<lambda>q. q\<lparr>pr_type := INTERRUPT_CONTROLLER\<rparr>) st)
        else if named ''regmap'' \<or> named ''value'' then Done (None, st)
        else if named ''reg'' \<or> named ''ranges'' \<or> named ''bus-ranges'' then Done (None, st)
        else
          bind_outcome (fmt_println [lit ''Unhandled device tree property: '',
              print_str_view (dt_mem ops p st) name] (dt_out st)) (\<lambda>o1.
            Done (None, st\<lparr>dt_out := o1\<rparr>)))"

section \<open>The pass over the tree\<close>

text \<open>The two loops over the properties of a node; each reads the next pointer after its body.\<close>

partial_function (option) first_lap ::
  "'s page_ops \<Rightarrow> platform_info \<Rightarrow> u64 \<Rightarrow> u64 \<Rightarrow> 's dt_state \<Rightarrow>
   (error option \<times> 's dt_state) outcome option" where
  "first_lap ops p node prop st =
     (if prop \<noteq> 0 then
        bind_loop (rewrite_property ops p node prop st) (\<lambda>(r, st1).
          case r of
            Some e \<Rightarrow> Some (Done (Some e, st1))
          | None \<Rightarrow> bind_loop (get_prop prop st1) (\<lambda>q. first_lap ops p node (pr_next q) st1))
      else Some (Done (None, st)))"

definition rewrite_late ::
  "'s page_ops \<Rightarrow> platform_info \<Rightarrow> u64 \<Rightarrow> u64 \<Rightarrow> 's dt_state \<Rightarrow> 's dt_state outcome" where
  "rewrite_late ops p node prop st =
     bind_outcome (get_prop prop st) (\<lambda>q.
       let named = (\<lambda>s. is_named s (dt_mem ops p st) (pr_name q))
       in if named ''reg'' then property_rewrite_reg ops p node prop st
          else if named ''ranges'' \<or> named ''bus-ranges'' then property_rewrite_ranges ops p node prop st
          else Done st)"

partial_function (option) second_lap ::
  "'s page_ops \<Rightarrow> platform_info \<Rightarrow> u64 \<Rightarrow> u64 \<Rightarrow> 's dt_state \<Rightarrow> 's dt_state outcome option" where
  "second_lap ops p node prop st =
     (if prop \<noteq> 0 then
        bind_loop (rewrite_late ops p node prop st) (\<lambda>st1.
        bind_loop (get_prop prop st1) (\<lambda>q. second_lap ops p node (pr_next q) st1))
      else Some (Done st))"

text \<open>The two laps of one node: an early return, or the state to go on with.\<close>

definition rewrite_node ::
  "'s page_ops \<Rightarrow> platform_info \<Rightarrow> u64 \<Rightarrow> 's dt_state \<Rightarrow> (error option \<times> 's dt_state) outcome" where
  "rewrite_node ops p node st =
     bind_outcome (get_node node st) (\<lambda>nd.
     bind_outcome (join_spin (first_lap ops p node (nd_properties nd) st)) (\<lambda>(r, st1).
     case r of
       Some e \<Rightarrow> Done (Some e, st1)
     | None \<Rightarrow>
         bind_outcome (get_node node st1) (\<lambda>nd1.
         bind_outcome (join_spin (second_lap ops p node (nd_properties nd1) st1)) (\<lambda>st2.
         Done (None, st2)))))"

text \<open>
  The loop over the children with the recursive calls in its body, as one function: from
  the child \<open>c\<close> on, with the error variable of the caller. The call for a child is its two
  laps and then, with an error variable of its own, the loop over its children.
\<close>

partial_function (option) rewrite_children ::
  "'s page_ops \<Rightarrow> platform_info \<Rightarrow> u64 \<Rightarrow> error \<Rightarrow> 's dt_state \<Rightarrow> (error \<times> 's dt_state) outcome option"
where
  "rewrite_children ops p c err st =
     (if c \<noteq> 0 then
        bind_loop (rewrite_node ops p c st) (\<lambda>(r, st1).
          case r of
            Some e \<Rightarrow>
              if is_err e then Some (Done (e, st1))
              else bind_loop (get_node c st1) (\<lambda>n. rewrite_children ops p (nd_next_sibling n) e st1)
          | None \<Rightarrow>
              bind_loop (get_node c st1) (\<lambda>nd.
              Option.bind (rewrite_children ops p (nd_children nd) no_error st1) (\<lambda>r1.
              bind_loop r1 (\<lambda>(e, st2).
                if is_err e then Some (Done (e, st2))
                else bind_loop (get_node c st2) (\<lambda>n. rewrite_children ops p (nd_next_sibling n) e st2)))))
      else Some (Done (err, st)))"

definition recursive_property_rewrite ::
  "'s page_ops \<Rightarrow> platform_info \<Rightarrow> u64 \<Rightarrow> 's dt_state \<Rightarrow> (error \<times> 's dt_state) outcome" where
  "recursive_property_rewrite ops p node st =
     bind_outcome (rewrite_node ops p node st) (\<lambda>(r, st1).
       case r of
         Some e \<Rightarrow> Done (e, st1)
       | None \<Rightarrow>
           bind_outcome (get_node node st1) (\<lambda>nd.
             join_spin (rewrite_children ops p (nd_children nd) no_error st1)))"

section \<open>Parsing a blob\<close>

text \<open>The loop over the reservation block always looks at its first entry.\<close>

partial_function (option) rsvmap_loop ::
  "'s page_ops \<Rightarrow> platform_info \<Rightarrow> u64 \<Rightarrow> 's dt_state \<Rightarrow> 's dt_state outcome option" where
  "rsvmap_loop ops p rsvmap st =
     (let m = dt_mem ops p st; address = load64 m rsvmap; sz = load64 m (rsvmap + 8)
      in if address \<noteq> 0 \<and> sz \<noteq> 0 then
           bind_loop (emplace_reserved ops p
             \<lparr>rr_address = flip_endianness64 address, rr_size = flip_endianness64 sz\<rparr> st)
             (\<lambda>st1. rsvmap_loop ops p rsvmap st1)
         else Some (Done st))"

text \<open>What follows the structure block; \<open>slash\<close> is the view of the literal \<^verbatim>\<open>"/"\<close>.\<close>

definition rewrite_pass ::
  "'s page_ops \<Rightarrow> platform_info \<Rightarrow> str_view \<Rightarrow> 's dt_state \<Rightarrow> (error \<times> 's dt_state) outcome" where
  "rewrite_pass ops p slash st =
     (if st_size (dt_nodes st) = 0 then Done (error_of DT_NO_NODES, st)
      else
        let root = stack_index sizeof_node (dt_nodes st) 0
        in bind_outcome (upd_node root (\<lambda>n. n\<lparr>nd_address_cells := 2, nd_size_cells := 1\<rparr>)
             (st\<lparr>dt_root := root\<rparr>)) (\<lambda>st1.
           bind_outcome (recursive_property_rewrite ops p root st1) (\<lambda>(err, st2).
           if is_err err then Done (error_push err DT_REWRITE_FAILED, st2)
           else
             bind_outcome (upd_node root (\<lambda>n. n\<lparr>nd_name := slash\<rparr>)
               (st2\<lparr>dt_initialized := True\<rparr>)) (\<lambda>st3.
             Done (error_of SUCCESS, st3)))))"

definition parse_from_blob ::
  "'s page_ops \<Rightarrow> platform_info \<Rightarrow> str_view \<Rightarrow> u64 \<Rightarrow> 's dt_state \<Rightarrow> (error \<times> 's dt_state) outcome" where
  "parse_from_blob ops p slash dtb st =
     (let m = dt_mem ops p st in
      if 0xD00DFEED \<noteq> flip_endianness32 (hdr_magic m dtb) then Done (error_of DT_MAGIC_NUMBER, st)
      else
        bind_outcome (join_spin (rsvmap_loop ops p
            (dtb + ucast (flip_endianness32 (hdr_offset_rsvmap m dtb))) st)) (\<lambda>st1.
        let structures = dtb + ucast (flip_endianness32 (hdr_offset_structs (dt_mem ops p st1) dtb));
            strings = dtb + ucast (flip_endianness32 (hdr_offset_strings (dt_mem ops p st1) dtb))
        in bind_outcome (join_spin (parse_loop ops p structures strings 0 0 0 st1))
             (rewrite_pass ops p slash)))"

end
