(* ===== verification/Device_Tree_Print.thy ===== *)
theory Device_Tree_Print
  imports Device_Tree_Rewrite
begin

text \<open>
  The printer of the device tree: \<open>print_node_recursive\<close> and \<open>print_device_tree\<close> of
  \<^verbatim>\<open>kernel/src/devices/device_tree.cpp\<close>. It only reads the tree, so that its state is the
  output.
\<close>

fun print_indent :: "nat \<Rightarrow> out \<Rightarrow> out outcome" where
  "print_indent 0 o1 = Done o1"
| "print_indent (Suc n) o1 = bind_outcome (fmt_print [lit ''  ''] o1) (print_indent n)"

text \<open>Element \<open>i\<close> of an array of views.\<close>

definition load_view :: "mem \<Rightarrow> u64 \<Rightarrow> size_t \<Rightarrow> str_view" where
  "load_view m arr i = \<lparr>sv_data = load64 m (arr + 16 * i), sv_size = load64 m (arr + 16 * i + 8)\<rparr>"

partial_function (option) print_views :: "mem \<Rightarrow> u64 \<Rightarrow> size_t \<Rightarrow> out \<Rightarrow> out outcome option" where
  "print_views m arr i o1 =
     (if sv_size (load_view m arr i) \<noteq> 0 then
        bind_loop (if i \<noteq> 0 then fmt_print [lit '', ''] o1 else Done o1) (\<lambda>o2.
        bind_loop (fmt_print [print_str_view m (load_view m arr i)] o2) (\<lambda>o3.
        print_views m arr (i + 1) o3))
      else Some (Done o1))"

definition print_status :: "mem \<Rightarrow> device_status \<Rightarrow> str_view \<Rightarrow> out \<Rightarrow> out outcome" where
  "print_status m v reason = (case v of
     OKAY \<Rightarrow> fmt_println [lit ''OKAY'']
   | DISABLED \<Rightarrow> fmt_println [lit ''DISABLED'']
   | RESERVED \<Rightarrow> fmt_println [lit ''RESERVED'']
   | FAIL \<Rightarrow> fmt_println [lit ''FAIL'']
   | FAIL_WITH_REASON \<Rightarrow> fmt_println [lit ''FAIL: '', print_str_view m reason])"

text \<open>
  The \<^verbatim>\<open>switch\<close> on the type of a property. Reading a member of the union other than the one
  written last is undefined.
\<close>

definition print_value :: "mem \<Rightarrow> property \<Rightarrow> out \<Rightarrow> out outcome" where
  "print_value m q o1 = (case (pr_type q, pr_data q) of
     (RAW, D_raw bv) \<Rightarrow> fmt_println [lit ''RAW (length: '', print_unsigned (bv_size bv), lit '')''] o1
   | (COMPATIBLE, D_compatible_array arr) \<Rightarrow>
       bind_outcome (fmt_print [lit ''[''] o1) (\<lambda>o2.
       bind_outcome (join_spin (print_views m arr 0 o2)) (fmt_println [lit '']'']))
   | (MODEL, D_model v) \<Rightarrow> fmt_println [print_str_view m v] o1
   | (PHANDLE, D_phandle w) \<Rightarrow> fmt_println [print_hex w] o1
   | (STATUS, D_status v reason) \<Rightarrow> print_status m v reason o1
   | (ADDRESS_CELLS, D_address_cells w) \<Rightarrow> fmt_println [print_unsigned w] o1
   | (SIZE_CELLS, D_size_cells w) \<Rightarrow> fmt_println [print_unsigned w] o1
   | (DMA_COHERENCE, D_dma_coherence b) \<Rightarrow> fmt_println [lit (if b then ''true'' else ''false'')] o1
   | (DEVICE_TYPE, D_device_type v) \<Rightarrow> fmt_println [print_str_view m v] o1
   | (REG, D_reg n a s) \<Rightarrow> fmt_println [lit ''REG ('', print_unsigned n, lit '' pairs)''] o1
   | (RANGES, D_range n c pb s) \<Rightarrow> fmt_println [lit ''RANGES ('', print_unsigned n, lit '' trips)''] o1
   | (VIRTUAL_REG, D_virtual_reg w) \<Rightarrow> fmt_println [print_hex w] o1
   | (INTERRUPT_PARENT, D_interrupt_parent w) \<Rightarrow> fmt_println [print_hex w] o1
   | (INTERRUPT_CONTROLLER, _) \<Rightarrow> fmt_println [lit ''true''] o1
   | (INTERRUPT_CELLS, D_interrupt_cells w) \<Rightarrow> fmt_println [print_unsigned w] o1
   | (INTERRUPT_MAP, D_interrupt_map n a b c d e) \<Rightarrow>
       fmt_println [lit ''INTERRUPT_MAP ('', print_unsigned n, lit '' entries)''] o1
   | _ \<Rightarrow> Halt Inactive_member)"

partial_function (option) print_properties ::
  "'s page_ops \<Rightarrow> platform_info \<Rightarrow> 's dt_state \<Rightarrow> u64 \<Rightarrow> nat \<Rightarrow> out \<Rightarrow> out outcome option" where
  "print_properties ops p st prop depth o1 =
     (if prop \<noteq> 0 then
        bind_loop (print_indent (depth + 1) o1) (\<lambda>o2.
        bind_loop (get_prop prop st) (\<lambda>q.
        bind_loop (fmt_print [lit ''Property: '', print_str_view (dt_mem ops p st) (pr_name q),
            lit '' = ''] o2) (\<lambda>o3.
        bind_loop (print_value (dt_mem ops p st) q o3) (\<lambda>o4.
        print_properties ops p st (pr_next q) depth o4))))
      else Some (Done o1))"

text \<open>A node without its children: the indented name and the properties.\<close>

definition print_node ::
  "'s page_ops \<Rightarrow> platform_info \<Rightarrow> 's dt_state \<Rightarrow> u64 \<Rightarrow> nat \<Rightarrow> out \<Rightarrow> out outcome" where
  "print_node ops p st node depth o1 =
     bind_outcome (print_indent depth o1) (\<lambda>o2.
     bind_outcome (get_node node st) (\<lambda>nd.
     bind_outcome (fmt_println [lit ''Node: '', print_str_view (dt_mem ops p st) (nd_name nd),
         lit '' {''] o2) (\<lambda>o3.
     join_spin (print_properties ops p st (nd_properties nd) depth o3))))"

text \<open>The loop over the children from \<open>c\<close> on, with the recursive calls in its body.\<close>

partial_function (option) print_children ::
  "'s page_ops \<Rightarrow> platform_info \<Rightarrow> 's dt_state \<Rightarrow> u64 \<Rightarrow> nat \<Rightarrow> out \<Rightarrow> out outcome option" where
  "print_children ops p st c depth o1 =
     (if c \<noteq> 0 then
        bind_loop (print_node ops p st c depth o1) (\<lambda>o2.
        bind_loop (get_node c st) (\<lambda>nd.
        Option.bind (print_children ops p st (nd_children nd) (depth + 1) o2) (\<lambda>r.
        bind_loop r (\<lambda>o3. print_children ops p st (nd_next_sibling nd) depth o3))))
      else Some (Done o1))"

definition print_node_recursive ::
  "'s page_ops \<Rightarrow> platform_info \<Rightarrow> 's dt_state \<Rightarrow> u64 \<Rightarrow> nat \<Rightarrow> out \<Rightarrow> out outcome" where
  "print_node_recursive ops p st node depth o1 =
     (if node = 0 then Done o1
      else
        bind_outcome (print_node ops p st node depth o1) (\<lambda>o2.
        bind_outcome (get_node node st) (\<lambda>nd.
        join_spin (print_children ops p st (nd_children nd) (depth + 1) o2))))"

definition print_device_tree ::
  "'s page_ops \<Rightarrow> platform_info \<Rightarrow> 's dt_state \<Rightarrow> 's dt_state outcome" where
  "print_device_tree ops p st =
     (if \<not> dt_initialized st then
        bind_outcome (fmt_println [lit ''Device tree not initialized.''] (dt_out st))
          (\<lambda>o1. Done (st\<lparr>dt_out := o1\<rparr>))
      else
        bind_outcome (fmt_println [lit ''Printing the device tree:''] (dt_out st)) (\<lambda>o1.
        bind_outcome (print_node_recursive ops p st (dt_root st) 0 o1) (\<lambda>o2.
        Done (st\<lparr>dt_out := o2\<rparr>))))"

end
