(* ===== verification/Device_Tree_Properties.thy ===== *)
theory Device_Tree_Properties
  imports Device_Tree_Parse Device_Tree_Print Client_Properties
begin

text \<open>
  Properties of the device tree code on top of the physical memory manager.
\<close>

section \<open>A machine with chosen contents\<close>

text \<open>The small machine with any contents outside the memory of the manager.\<close>

lemma demo_contents:
  obtains s where "serving demo_buf 16 s" and "pmm_sound demo_buf s"
    and "pmm_view s = [fresh_view 0x80000000 0x10000]"
    and "direct_map demo_platform (pmm_reserved demo_buf s)"
    and "\<forall>x. unat x < 0x80000000 \<longrightarrow> x \<notin> pmm_reserved demo_buf s \<and> pm_mem s x = f x"
proof -
  obtain s where s: "serving demo_buf 16 s" "pmm_view s = [fresh_view 0x80000000 0x10000]"
    "pmm_sound demo_buf s"
    by (rule demo_serving)
  define m where "m x = (if unat x < 0x80000000 then f x else pm_mem s x)" for x
  have reserved: "\<not> unat x < 0x80000000" if "x \<in> pmm_reserved demo_buf s" for x
    using that s(2)
    by (auto simp: pmm_reserved_def pmm_owned_def view_bytes_def fresh_view_def demo_buf_def
        in_range_nowrap)
  then have keep: "m x = pm_mem s x" if "x \<in> pmm_reserved demo_buf s" for x
    using that by (simp add: m_def)
  note put = put_serving [OF s(1) keep] and law = pmm_put_law [OF s(3) keep]
  have "pmm_inv demo_buf s" "buf_ok demo_buf" using s(3) by (simp_all add: pmm_sound_def)
  then have view: "pmm_view (s\<lparr>pm_mem := m\<rparr>) = pmm_view s"
    using pmm_write_inv [of demo_buf s m] keep by (auto simp: pmm_reserved_def)
  have same: "pmm_reserved demo_buf (s\<lparr>pm_mem := m\<rparr>) = pmm_reserved demo_buf s"
    by (rule law(2))
  show ?thesis
  proof (rule that [of "s\<lparr>pm_mem := m\<rparr>"])
    show "direct_map demo_platform (pmm_reserved demo_buf (s\<lparr>pm_mem := m\<rparr>))"
      using demo_direct_map view s(2) by metis
    show "\<forall>x. unat x < 0x80000000 \<longrightarrow>
        x \<notin> pmm_reserved demo_buf (s\<lparr>pm_mem := m\<rparr>) \<and> pm_mem (s\<lparr>pm_mem := m\<rparr>) x = f x"
      unfolding same using reserved by (auto simp: m_def)
  qed (use put law view s(2) in auto)
qed

section \<open>Parsing\<close>

text \<open>
  A blob at \<open>dtb\<close>, in memory that the manager does not own: the magic number, no
  reservations, and a structure block that describes \<open>t\<close>.
\<close>

definition dt_blob :: "mem \<Rightarrow> u64 set \<Rightarrow> u64 \<Rightarrow> dt_tree \<Rightarrow> bool" where
  "dt_blob m U dtb t \<longleftrightarrow> (\<exists>structs strings rsvmap.
     word_at m U dtb 0xD00DFEED \<and> word_at m U (dtb + 8) structs \<and>
     word_at m U (dtb + 12) strings \<and> word_at m U (dtb + 16) rsvmap \<and>
     (load64 m (dtb + ucast rsvmap) = 0 \<or> load64 m (dtb + ucast rsvmap + 8) = 0) \<and>
     dt_block m U (dtb + ucast structs) (dtb + ucast strings) t)"

text \<open>The addresses that a client may rely on.\<close>

definition dt_stable :: "platform_info \<Rightarrow> u64 set \<Rightarrow> u64 set" where
  "dt_stable p taken = {v. hhdm_virt_to_phys p v \<notin> taken}"

lemma stack_ok_empty: "stack_ok p sz taken stack_empty (\<lambda>_. None)"
  using stack_rep_empty [of "\<lambda>_. None" p taken sz]
  by (auto simp: stack_ok_def no_null_slot_def stack_empty_def)

lemma dt_boot_ok:
  assumes "pmm_sound buf s" and "direct_map p (pmm_reserved buf s)"
  shows "dt_ok (pmm_sound buf) (pmm_reserved buf) p (dt_boot s o1)"
  using assms by (simp add: dt_ok_def dt_boot_def stack_ok_empty)

text \<open>
  The blob is as it was in memory \<open>m\<close> at addresses \<open>U\<close> that the manager does not own.
\<close>

lemma parse_blob_links:
  assumes "pmm_sound buf s" and "direct_map p (pmm_reserved buf s)"
    and blob: "blob_in (pmm_reserved buf) pmm_ops p m U (dt_boot s o1)" and "dt_blob m U dtb t"
    and rsv: "\<And>r. word_at m U (dtb + 16) r \<Longrightarrow> load64 (dt_mem pmm_ops p (dt_boot s o1)) (dtb + ucast r) = 0 \<or>
      load64 (dt_mem pmm_ops p (dt_boot s o1)) (dtb + ucast r + 8) = 0"
  shows "(\<exists>s' n h. \<not> serving buf (tree_pages t) s \<and> pmm_sound buf s' \<and> alloc_noerr n s' = Halt h \<and>
      parse_from_blob pmm_ops p slash dtb (dt_boot s o1) = Halt h) \<or>
    (\<exists>a st'. parsed (pmm_sound buf) (pmm_reserved buf) pmm_ops p a t (dt_boot s o1) st' \<and>
      parse_from_blob pmm_ops p slash dtb (dt_boot s o1) = rewrite_pass pmm_ops p slash st')"
proof -
  let ?st = "dt_boot s o1" let ?m = "dt_mem pmm_ops p ?st"
  obtain structs strings rsvmap where B: "word_at m U dtb 0xD00DFEED" "word_at m U (dtb + 8) structs"
    "word_at m U (dtb + 12) strings" "word_at m U (dtb + 16) rsvmap"
    and block: "dt_block m U (dtb + ucast structs) (dtb + ucast strings) t"
    using assms(4) by (auto simp: dt_blob_def)
  note R = blob_in_word [OF blob B(1)] blob_in_word [OF blob B(2)] blob_in_word [OF blob B(3)]
    blob_in_word [OF blob B(4)]
  obtain off where items: "dt_items m U (dtb + ucast structs) (dtb + ucast strings) 0 [] [t] off"
    and "word_at m U (dtb + ucast structs + off) STRUCTURE_END"
    using block by (auto simp: dt_block_def)
  have "rsvmap_loop pmm_ops p (dtb + ucast rsvmap) ?st = Some (Done ?st)"
    using rsv [OF B(4)] by (subst rsvmap_loop.simps) (auto simp: Let_def)
  then have run: "parse_from_blob pmm_ops p slash dtb ?st =
      bind_outcome (join_spin (parse_loop pmm_ops p (dtb + ucast structs) (dtb + ucast strings) 0 0 0 ?st))
        (rewrite_pass pmm_ops p slash)"
    using R
    by (simp add: parse_from_blob_def hdr_magic_def hdr_offset_structs_def hdr_offset_strings_def
        hdr_offset_rsvmap_def read_big_endian32_def Let_def)
  have "dt_nodes ?st = stack_empty" by (simp add: dt_boot_def)
  from pmm_pages.parse_block [OF items refl refl mod_0 \<open>word_at _ _ _ STRUCTURE_END\<close>
      dt_boot_ok [OF assms(1,2)] blob this, of 0]
  show ?thesis
  proof (elim disjE exE conjE)
    fix h assume h: "pmm_pages.starved buf h (tree_size t) (tree_properties t) ?st"
      "parse_loop pmm_ops p (dtb + ucast structs) (dtb + ucast strings) 0 0 0 ?st = Some (Halt h)"
    have "\<not> room_for pmm_ops (tree_size t + 0) (tree_properties t + 0) ?st"
      using h(1) unfolding pmm_pages.starved_def by blast
    then have "\<not> serves pmm_ops (tree_pages t) s"
      by (simp add: room_for_def tree_pages_def dt_boot_def stack_empty_def)
    then have "\<not> serving buf (tree_pages t) s" using serving_serves by blast
    with h show ?thesis by (auto simp: run pmm_pages.starved_def pmm_pages.stops_def supply_noerr_pmm)
  next
    fix a st'
    assume "parse_loop pmm_ops p (dtb + ucast structs) (dtb + ucast strings) 0 0 0 ?st = Some (Done st')"
      and "parsed (pmm_sound buf) (pmm_reserved buf) pmm_ops p a t ?st st'"
    then show ?thesis by (intro disjI2 exI [of _ a] exI [of _ st']) (simp add: run)
  qed
qed

text \<open>
  C15. Parsing a well-formed blob. Starting from the initial state, parsing either stops
  because the memory manager stops the kernel, which cannot happen if a region with whole free space has
  the pages that the tree needs, or it leaves the structure block with nodes
  and properties that are linked as the tree that the block describes, children and
  properties in reverse order, and goes on with the second pass. The first element of the
  stack of nodes, which the second pass takes as the root, is the root of this tree exactly
  if the tree has at most 73 nodes; with more nodes the stack has moved and its first
  element is an old copy.
\<close>

theorem dt_parse_links_tree:
  assumes "pmm_sound buf s" and "direct_map p (pmm_reserved buf s)"
    and "dt_blob (dt_mem pmm_ops p (dt_boot s o1)) (dt_stable p (pmm_reserved buf s)) dtb t"
  shows "(\<exists>s' n h. \<not> serving buf (tree_pages t) s \<and> pmm_sound buf s' \<and> alloc_noerr n s' = Halt h \<and>
      parse_from_blob pmm_ops p slash dtb (dt_boot s o1) = Halt h) \<or>
    (\<exists>a st'. parsed (pmm_sound buf) (pmm_reserved buf) pmm_ops p a t (dt_boot s o1) st' \<and>
      parse_from_blob pmm_ops p slash dtb (dt_boot s o1) = rewrite_pass pmm_ops p slash st')"
proof (rule parse_blob_links [OF assms(1,2) _ assms(3)])
  show "blob_in (pmm_reserved buf) pmm_ops p (dt_mem pmm_ops p (dt_boot s o1))
      (dt_stable p (pmm_reserved buf s)) (dt_boot s o1)"
    by (simp add: blob_in_def agree_def dt_stable_def dt_boot_def)
qed (use assms(3) in \<open>auto simp: dt_blob_def word_at_def\<close>)

text \<open>
  A blob at physical address \<^verbatim>\<open>0x1000\<close>: a root with one property and one child. Above it, a memory
  map of two entries, the first of which is reserved, at \<^verbatim>\<open>0x2008\<close>, and at \<^verbatim>\<open>0x2000\<close> the
  list that points to it; the list of framebuffers at \<^verbatim>\<open>0x2040\<close> and the only framebuffer after it, whose
  pixels are at \<^verbatim>\<open>0x3000\<close>.
\<close>

definition demo_blob :: "u64 \<Rightarrow> u8" where
  "demo_blob x = (case map_of [(0x1000, 0xD0), (0x1001, 0x0D), (0x1002, 0xFE), (0x1003, 0xED),
     (0x100B, 0x38), (0x100F, 0x64), (0x1013, 0x28), (0x103B, 1), (0x1043, 3), (0x1047, 4),
     (0x104F, 7), (0x1053, 1), (0x1054, 0x61), (0x105B, 2), (0x105F, 2), (0x1063, 9),
     (0x1064, 0x70), (0x1065, 0x68), (0x1066, 0x61), (0x1067, 0x6E), (0x1068, 0x64),
     (0x1069, 0x6C), (0x106A, 0x65),
     (0x2000, 0x08), (0x2001, 0x20), (0x2004, 0xC0), (0x2005, 0xFF), (0x2006, 0xFF), (0x2007, 0xFF),
     (0x2011, 0x10), (0x2018, 0x01), (0x2023, 0x80), (0x202A, 0x01),
     (0x2040, 0x48), (0x2041, 0x20), (0x2044, 0xC0), (0x2045, 0xFF), (0x2046, 0xFF), (0x2047, 0xFF),
     (0x2049, 0x30), (0x204C, 0xC0), (0x204D, 0xFF), (0x204E, 0xFF), (0x204F, 0xFF), (0x2060, 4)] x of None \<Rightarrow> 0 | Some b \<Rightarrow> b)"

definition demo_tree :: dt_tree where
  "demo_tree = Dt_node \<lparr>sv_data = 0xFFFFFFC00000103C, sv_size = 0\<rparr>
     [(\<lparr>sv_data = 0xFFFFFFC000001064, sv_size = 7\<rparr>, \<lparr>bv_data = 0xFFFFFFC00000104C, bv_size = 4\<rparr>)]
     [Dt_node \<lparr>sv_data = 0xFFFFFFC000001054, sv_size = 1\<rparr> [] []]"

text \<open>Memory that shows \<open>f\<close> through the direct map, and addresses \<open>U\<close> that include the lower half.\<close>

definition shows_low :: "(u64 \<Rightarrow> u8) \<Rightarrow> mem \<Rightarrow> u64 set \<Rightarrow> bool" where
  "shows_low f m U \<longleftrightarrow> (\<forall>v. unat (hhdm_virt_to_phys demo_platform v) < 0x80000000 \<longrightarrow>
     m v = f (hhdm_virt_to_phys demo_platform v) \<and> v \<in> U)"

lemma demo_shows_low:
  assumes "\<forall>x. unat x < 0x80000000 \<longrightarrow> x \<notin> pmm_reserved demo_buf s \<and> pm_mem s x = f x"
  shows "shows_low f (dt_mem pmm_ops demo_platform (dt_boot s o1)) (dt_stable demo_platform (pmm_reserved demo_buf s))"
  using assms by (simp add: shows_low_def dt_mem_def dt_boot_def dt_stable_def)

lemma demo_reads:
  assumes "shows_low f m U" and "unat (v - 0xFFFFFFC000000000) < 0x70000000"
  shows "word_at m U v w \<longleftrightarrow> read_big_endian32 f (v - 0xFFFFFFC000000000) = w"
    and "unat n < 0x1000 \<Longrightarrow> string_at m U v n \<longleftrightarrow> strlen f (v - 0xFFFFFFC000000000) = Some n"
    and "load64 m v = load64 f (v - 0xFFFFFFC000000000)"
proof -
  let ?a = "v - 0xFFFFFFC000000000 :: u64"
  have m: "m (v + k) = f (?a + k)" "v + k \<in> U" if "unat k < 0x1000" for k
  proof -
    have "unat (?a + k) < 0x80000000"
      using assms(2) that by (subst unat_add_nowrap) simp_all
    moreover have "hhdm_virt_to_phys demo_platform (v + k) = ?a + k"
      by (simp add: hhdm_virt_to_phys_def demo_platform_def)
    ultimately show "m (v + k) = f (?a + k)" "v + k \<in> U"
      using assms(1) by (simp_all add: shows_low_def)
  qed
  have load: "load_bytes n m v = load_bytes n f ?a" if "n \<le> 0x1000" for n
    using that by (auto simp: load_bytes_def unat_of_nat_64 intro!: m(1))
  have "x \<in> U" if "in_range x (v, 4)" for x
    using m(2) [of "x - v"] that by (simp add: in_range_def)
  then show "word_at m U v w \<longleftrightarrow> read_big_endian32 f ?a = w"
    by (simp add: word_at_def read_big_endian32_def load32_def load)
  show "load64 m v = load64 f ?a" by (simp add: load64_def load)
  assume n: "unat n < 0x1000"
  have small: "unat k < 0x1000" if "k \<le> n" for k using n that by (simp add: word_le_nat_alt)
  then show "string_at m U v n \<longleftrightarrow> strlen f ?a = Some n"
    using m by (auto simp: string_at_def strlen_eq_Some_iff less_imp_le)
qed

lemma demo_blob_words:
  "read_big_endian32 demo_blob 0x1000 = 0xD00DFEED" "read_big_endian32 demo_blob 0x1008 = 0x38"
  "read_big_endian32 demo_blob 0x100C = 0x64" "read_big_endian32 demo_blob 0x1010 = 0x28"
  "load64 demo_blob 0x1028 = 0" "read_big_endian32 demo_blob 0x1038 = STRUCTURE_BEGIN_NODE"
  "read_big_endian32 demo_blob 0x1040 = STRUCTURE_PROP" "read_big_endian32 demo_blob 0x1044 = 4"
  "read_big_endian32 demo_blob 0x1048 = 0" "read_big_endian32 demo_blob 0x1050 = STRUCTURE_BEGIN_NODE"
  "read_big_endian32 demo_blob 0x1058 = STRUCTURE_END_NODE"
  "read_big_endian32 demo_blob 0x105C = STRUCTURE_END_NODE"
  "read_big_endian32 demo_blob 0x1060 = STRUCTURE_END"
  by (simp_all add: read_big_endian32_def load32_def load64_def load_bytes_def upt_rec
      flip_endianness32_def demo_blob_def STRUCTURE_BEGIN_NODE_def STRUCTURE_END_NODE_def
      STRUCTURE_PROP_def STRUCTURE_END_def)

lemma demo_blob_strings:
  "strlen demo_blob 0x103C = Some 0" "strlen demo_blob 0x1054 = Some 1" "strlen demo_blob 0x1064 = Some 7"
  by (simp_all add: strlen_def strlen_loop.simps demo_blob_def)

lemma demo_blob_tree:
  assumes "shows_low demo_blob m U"
  shows "dt_blob m U 0xFFFFFFC000001000 demo_tree"
proof -
  note R = demo_reads [OF assms] demo_blob_words demo_blob_strings
  have nil: "dt_items m U S T off [] [] off" for S T off by (rule items_end)
  have al: "align_up 4 4 = (4 :: u64)" "align_up 1 4 = (4 :: u64)" "align_up 2 4 = (4 :: u64)"
    by (simp_all add: align_up_def)
  have inner: "dt_items m U 0xFFFFFFC000001038 0xFFFFFFC000001064 24 []
      [Dt_node \<lparr>sv_data = 0xFFFFFFC000001054, sv_size = 1\<rparr> [] []] 36"
    using items_node [where m = m and U = U and structs = "0xFFFFFFC000001038" and strings = "0xFFFFFFC000001064"
        and off = 24 and n = 1 and mid = 32 and off' = 36 and qs = "[]" and us = "[]" and ps = "[]" and ts = "[]"]
    by (simp add: R al nil)
  have "dt_items m U 0xFFFFFFC000001038 0xFFFFFFC000001064 8
      [(\<lparr>sv_data = 0xFFFFFFC000001064, sv_size = 7\<rparr>, \<lparr>bv_data = 0xFFFFFFC00000104C, bv_size = 4\<rparr>)]
      [Dt_node \<lparr>sv_data = 0xFFFFFFC000001054, sv_size = 1\<rparr> [] []] 36"
    using items_prop [where m = m and U = U and structs = "0xFFFFFFC000001038" and strings = "0xFFFFFFC000001064"
        and off = 8 and len = 4 and name = 0 and n = 7] inner
    by (simp add: R al)
  then have "dt_items m U 0xFFFFFFC000001038 0xFFFFFFC000001064 0 [] [demo_tree] 40"
    using items_node [where m = m and U = U and structs = "0xFFFFFFC000001038" and strings = "0xFFFFFFC000001064"
        and off = 0 and n = 0 and mid = 36 and off' = 40 and ps = "[]" and ts = "[]"] nil
    by (simp add: R al demo_tree_def)
  then have "dt_block m U 0xFFFFFFC000001038 0xFFFFFFC000001064 demo_tree"
    unfolding dt_block_def by (intro exI [of _ 40]) (simp add: R)
  then show ?thesis
    unfolding dt_blob_def
    by (intro exI [of _ "0x38"] exI [of _ "0x64"] exI [of _ "0x28"]) (simp add: R)
qed

lemma demo_tree_pages: "tree_pages demo_tree = 2"
proof -
  have "tree_size demo_tree = Suc (Suc 0)" "tree_properties demo_tree = Suc 0"
    by (simp_all add: demo_tree_def)
  then show ?thesis
    by (simp add: tree_pages_def push_cost.simps page_count_def grow_request_def align_up_def
        sv39_PAGE_SIZE_def sizeof_node_def sizeof_property_def)
qed

theorem dt_parse_links_tree_witness:
  "\<exists>s a st'. parsed (pmm_sound demo_buf) (pmm_reserved demo_buf) pmm_ops demo_platform a demo_tree
      (dt_boot s out_boot) st' \<and>
    parse_from_blob pmm_ops demo_platform str_view_empty 0xFFFFFFC000001000 (dt_boot s out_boot) =
      rewrite_pass pmm_ops demo_platform str_view_empty st'"
proof -
  obtain s where s: "pmm_sound demo_buf s" "direct_map demo_platform (pmm_reserved demo_buf s)"
    "\<forall>x. unat x < 0x80000000 \<longrightarrow> x \<notin> pmm_reserved demo_buf s \<and> pm_mem s x = demo_blob x"
    "serving demo_buf 16 s"
    by (rule demo_contents)
  have "serving demo_buf (tree_pages demo_tree) s"
    using s(4) by (rule serving_less) (simp add: demo_tree_pages)
  then show ?thesis
    using dt_parse_links_tree [OF s(1,2) demo_blob_tree [OF demo_shows_low [OF s(3)]]] by blast
qed

section \<open>Reservations\<close>

text \<open>The first reservation of a blob at \<open>r\<close>, in memory that the supply does not own.\<close>

definition first_reservation ::
  "('s \<Rightarrow> u64 set) \<Rightarrow> 's page_ops \<Rightarrow> platform_info \<Rightarrow> u64 \<Rightarrow> 's dt_state \<Rightarrow> bool" where
  "first_reservation taken ops p r st \<longleftrightarrow>
     (\<forall>x. in_range x (r, 16) \<longrightarrow> x \<in> dt_stable p (taken (dt_sup st))) \<and>
     load64 (dt_mem ops p st) r \<noteq> 0 \<and> load64 (dt_mem ops p st) (r + 8) \<noteq> 0"

lemma first_reservation_step:
  assumes "first_reservation taken ops p r st" and "taken (dt_sup st') \<subseteq> taken (dt_sup st)"
    and "\<forall>x. x \<notin> taken (dt_sup st) \<longrightarrow> po_mem ops (dt_sup st') x = po_mem ops (dt_sup st) x"
  shows "first_reservation taken ops p r st'"
proof -
  have same: "dt_mem ops p st' x = dt_mem ops p st x" if "in_range x (r, 16)" for x
    using assms that by (auto simp: first_reservation_def dt_stable_def dt_mem_def)
  have "in_range x (r, 16)" if "in_range x (r + 8, 8)" for x
    using region_part [of 8 8 16 x r] that by simp
  then have "load64 (dt_mem ops p st') r = load64 (dt_mem ops p st) r"
    "load64 (dt_mem ops p st') (r + 8) = load64 (dt_mem ops p st) (r + 8)"
    using same by (auto intro!: load64_frame simp: in_range_def)
  then show ?thesis
    using assms by (auto simp: first_reservation_def dt_stable_def)
qed

context page_supply
begin

lemma rsvmap_loop_halts:
  "rsvmap_loop ops p r st = Some y \<Longrightarrow> inv (dt_sup st) \<longrightarrow>
    (\<exists>xs. stack_rep p sizeof_reserved_region (owned (dt_sup st)) (dt_reserved st) (dt_reserved_objs st) xs) \<longrightarrow>
    first_reservation owned ops p r st \<longrightarrow> (\<exists>h. y = Halt h \<and> stops h)"
proof (rule rsvmap_loop.raw_induct [where P = "\<lambda>q p r st y. q = ops \<longrightarrow> inv (dt_sup st) \<longrightarrow>
    (\<exists>xs. stack_rep p sizeof_reserved_region (owned (dt_sup st)) (dt_reserved st) (dt_reserved_objs st) xs) \<longrightarrow>
    first_reservation owned ops p r st \<longrightarrow> (\<exists>h. y = Halt h \<and> stops h)", THEN mp, OF _ _ refl], goal_cases)
  case (1 loop q p r st y)
  show ?case
  proof (intro impI)
    assume q: "q = ops" and i: "inv (dt_sup st)" and f: "first_reservation owned ops p r st"
      and "\<exists>xs. stack_rep p sizeof_reserved_region (owned (dt_sup st)) (dt_reserved st) (dt_reserved_objs st) xs"
    then obtain xs where xs: "stack_rep p sizeof_reserved_region (owned (dt_sup st)) (dt_reserved st)
        (dt_reserved_objs st) xs" by blast
    define v where "v = \<lparr>rr_address = flip_endianness64 (load64 (dt_mem ops p st) r),
        rr_size = flip_endianness64 (load64 (dt_mem ops p st) (r + 8))\<rparr>"
    have step: "bind_loop (emplace_reserved ops p v st) (\<lambda>st1. loop ops p r st1) = Some y"
      using 1(3) f unfolding q by (simp add: Let_def v_def first_reservation_def)
    show "\<exists>h. y = Halt h \<and> stops h"
    proof (rule emplace_cases [OF i xs, of v])
      fix n h
      assume "supply_noerr ops n (dt_sup st) = Halt h"
        and "stack_emplace_back ops p sizeof_reserved_region v
          (dt_reserved st, dt_reserved_objs st, dt_sup st) = Halt h"
      then show ?thesis using step i by (auto simp: emplace_reserved_def stops_def)
    next
      fix x
      assume "stack_emplace_back ops p sizeof_reserved_region v
          (dt_reserved st, dt_reserved_objs st, dt_sup st) = Done x"
        and e: "emplaced p sizeof_reserved_region v (dt_reserved st, dt_reserved_objs st, dt_sup st) xs x"
      then obtain a rs objs s where x: "x = (a, rs, objs, s)"
        and rest: "loop ops p r (st\<lparr>dt_reserved := rs, dt_reserved_objs := objs, dt_sup := s\<rparr>) = Some y"
        using step by (cases x) (auto simp: emplace_reserved_def)
      show ?thesis
        using 1(2) [OF rest [folded q]] e q first_reservation_step [OF f,
            of "st\<lparr>dt_reserved := rs, dt_reserved_objs := objs, dt_sup := s\<rparr>"]
        unfolding x emplaced_def by auto
    qed (simp_all add: sizeof_reserved_region_def)
  qed
qed simp

end

text \<open>
  C23. A blob with a reservation is never parsed. The loop over the reservation block looks
  at the first entry again and again, so that with an entry there parsing runs for ever,
  or until the memory manager stops the kernel.
\<close>

theorem dt_reservations_never_end:
  assumes "pmm_sound buf s" and "read_big_endian32 (dt_mem pmm_ops p (dt_boot s o1)) dtb = 0xD00DFEED"
    and "first_reservation (pmm_reserved buf) pmm_ops p
      (dtb + ucast (read_big_endian32 (dt_mem pmm_ops p (dt_boot s o1)) (dtb + 16))) (dt_boot s o1)"
  shows "\<exists>h. parse_from_blob pmm_ops p slash dtb (dt_boot s o1) = Halt h \<and>
    (h = Spin \<or> (\<exists>s' n. pmm_sound buf s' \<and> alloc_noerr n s' = Halt h))"
proof -
  let ?r = "dtb + ucast (read_big_endian32 (dt_mem pmm_ops p (dt_boot s o1)) (dtb + 16))"
  have run: "parse_from_blob pmm_ops p slash dtb (dt_boot s o1) =
      bind_outcome (join_spin (rsvmap_loop pmm_ops p ?r (dt_boot s o1))) (\<lambda>st1.
        bind_outcome (join_spin (parse_loop pmm_ops p
          (dtb + ucast (flip_endianness32 (hdr_offset_structs (dt_mem pmm_ops p st1) dtb)))
          (dtb + ucast (flip_endianness32 (hdr_offset_strings (dt_mem pmm_ops p st1) dtb))) 0 0 0 st1))
          (rewrite_pass pmm_ops p slash))"
    using assms(2) by (simp add: parse_from_blob_def hdr_magic_def hdr_offset_rsvmap_def
        read_big_endian32_def Let_def)
  show ?thesis
  proof (cases "rsvmap_loop pmm_ops p ?r (dt_boot s o1)")
    case None
    then show ?thesis by (simp add: run)
  next
    case (Some y)
    have "stack_rep p sizeof_reserved_region (pmm_reserved buf s) stack_empty (\<lambda>_. None) []"
      by (rule stack_rep_empty) simp
    then have "\<exists>h. y = Halt h \<and> pmm_pages.stops buf h"
      using assms(1) pmm_pages.rsvmap_loop_halts [OF Some, of buf] assms(3) by (auto simp: dt_boot_def)
    then show ?thesis
      using Some by (auto simp: run pmm_pages.stops_def supply_noerr_pmm)
  qed
qed

definition demo_reservation :: "u64 \<Rightarrow> u8" where
  "demo_reservation x = (case map_of [(0x1000, 0xD0), (0x1001, 0x0D), (0x1002, 0xFE), (0x1003, 0xED),
     (0x1013, 0x28), (0x102C, 0x80), (0x1036, 0x10)] x of None \<Rightarrow> 0 | Some b \<Rightarrow> b)"

lemma demo_reservation_words:
  "read_big_endian32 demo_reservation 0x1000 = 0xD00DFEED"
  "read_big_endian32 demo_reservation 0x1010 = 0x28"
  "load64 demo_reservation 0x1028 = 0x8000000000" "load64 demo_reservation 0x1030 = 0x10000000000000"
  by (simp_all add: read_big_endian32_def load32_def load64_def load_bytes_def upt_rec
      flip_endianness32_def demo_reservation_def)

theorem dt_reservations_never_end_witness:
  "\<exists>s h. pmm_sound demo_buf s \<and>
    parse_from_blob pmm_ops demo_platform str_view_empty 0xFFFFFFC000001000 (dt_boot s out_boot) = Halt h"
proof -
  obtain s where s: "pmm_sound demo_buf s"
    "\<forall>x. unat x < 0x80000000 \<longrightarrow> x \<notin> pmm_reserved demo_buf s \<and> pm_mem s x = demo_reservation x"
    by (rule demo_contents)
  note R = demo_reads [OF demo_shows_low [OF s(2)]] demo_reservation_words
  have "x \<in> dt_stable demo_platform (pmm_reserved demo_buf s)" if "in_range x (0xFFFFFFC000001028, 16)" for x
  proof -
    have "unat (x - 0xFFFFFFC000001028 + 0x1028) < 0x80000000"
      using that by (subst unat_add_nowrap) (simp_all add: in_range_def)
    moreover have "hhdm_virt_to_phys demo_platform x = x - 0xFFFFFFC000001028 + 0x1028"
      by (simp add: hhdm_virt_to_phys_def demo_platform_def)
    ultimately show ?thesis using s(2) by (simp add: dt_stable_def)
  qed
  then have "first_reservation (pmm_reserved demo_buf) pmm_ops demo_platform 0xFFFFFFC000001028 (dt_boot s out_boot)"
    by (simp add: first_reservation_def R) (simp add: dt_boot_def)
  moreover have "read_big_endian32 (dt_mem pmm_ops demo_platform (dt_boot s out_boot)) 0xFFFFFFC000001000 = 0xD00DFEED"
    and "read_big_endian32 (dt_mem pmm_ops demo_platform (dt_boot s out_boot)) 0xFFFFFFC000001010 = 0x28"
    using R(1) [where v = "0xFFFFFFC000001000" and w = "0xD00DFEED"]
      R(1) [where v = "0xFFFFFFC000001010" and w = "0x28"]
    by (simp_all add: R word_at_def)
  ultimately show ?thesis
    using dt_reservations_never_end [OF s(1), where p = demo_platform and dtb = "0xFFFFFFC000001000" and slash = str_view_empty
      and ?o1.0 = out_boot] s(1)
    by auto
qed

section \<open>Status\<close>

text \<open>
  C24. The status of a device is lost. The value of a \<^verbatim>\<open>status\<close> property in a blob ends with
  a zero byte, and the code compares the whole value with the literals. So for such a
  value (unless the five bytes at offset five spell \<^verbatim>\<open>fail-\<close>) no alternative is taken: the
  property has the type \<^verbatim>\<open>STATUS\<close> but still its raw data, and printing it reads a member
  of the union that was never written.
\<close>

theorem dt_status_lost:
  assumes "get_prop prop st = Done q" and "pr_data q = D_raw raw"
    and "bv_bytes (dt_mem ops p st) raw = bs @ [0]"
    and "bv_bytes (dt_mem ops p st) (raw\<lparr>bv_data := bv_data raw + 5\<rparr>) \<noteq> ascii ''fail-''"
  shows "rewrite_status ops p prop st =
      Done (st\<lparr>dt_prop_objs := (dt_prop_objs st)(prop := Some (q\<lparr>pr_type := STATUS\<rparr>))\<rparr>) \<and>
    print_value m (q\<lparr>pr_type := STATUS\<rparr>) o1 = Halt Inactive_member"
proof -
  have "\<not> is_named s (dt_mem ops p st) (str_view_from_byte_view raw)" if "0 \<notin> set (ascii s)" for s
  proof
    assume "is_named s (dt_mem ops p st) (str_view_from_byte_view raw)"
    then have "ascii s = bs @ [0]"
      using assms(3) by (simp add: is_named_def compare_bytes_eq_0 str_view_from_byte_view_def)
    then show False using that by simp
  qed
  then have "\<not> is_named ''okay'' (dt_mem ops p st) (str_view_from_byte_view raw)"
    "\<not> is_named ''disabled'' (dt_mem ops p st) (str_view_from_byte_view raw)"
    "\<not> is_named ''reserved'' (dt_mem ops p st) (str_view_from_byte_view raw)"
    "\<not> is_named ''fail'' (dt_mem ops p st) (str_view_from_byte_view raw)"
    by (simp_all add: ascii_def)
  moreover have "\<not> is_named ''fail-'' (dt_mem ops p st) (str_view_advance (str_view_from_byte_view raw) 5)"
    using assms(4) by (simp add: is_named_def compare_bytes_eq_0 str_view_advance_def str_view_from_byte_view_def)
  ultimately show ?thesis
    using assms(1,2)
    by (simp add: rewrite_status_def get_prop_def raw_of_def upd_prop_def Let_def print_value_def)
qed

definition demo_status :: "u64 \<Rightarrow> u8" where
  "demo_status x = (case map_of [(0x2000, 0x6F), (0x2001, 0x6B), (0x2002, 0x61), (0x2003, 0x79)] x of
     None \<Rightarrow> 0 | Some b \<Rightarrow> b)"

definition demo_status_property :: property where
  "demo_status_property = \<lparr>pr_name = str_view_empty, pr_next = 0, pr_type = RAW,
     pr_data = D_raw \<lparr>bv_data = 0xFFFFFFC000002000, bv_size = 5\<rparr>\<rparr>"

theorem dt_status_lost_witness:
  "let st = (dt_boot (pmm_boot demo_status) out_boot)\<lparr>dt_prop_objs := [0x50 \<mapsto> demo_status_property]\<rparr>
   in bv_bytes (dt_mem pmm_ops demo_platform st) \<lparr>bv_data = 0xFFFFFFC000002000, bv_size = 5\<rparr> =
        ascii ''okay'' @ [0] \<and>
      rewrite_status pmm_ops demo_platform 0x50 st =
        Done (st\<lparr>dt_prop_objs := [0x50 \<mapsto> demo_status_property\<lparr>pr_type := STATUS\<rparr>]\<rparr>) \<and>
      print_value (dt_mem pmm_ops demo_platform st) (demo_status_property\<lparr>pr_type := STATUS\<rparr>) out_boot =
        Halt Inactive_member"
proof -
  let ?st = "(dt_boot (pmm_boot demo_status) out_boot)\<lparr>dt_prop_objs := [0x50 \<mapsto> demo_status_property]\<rparr>"
  let ?raw = "\<lparr>bv_data = 0xFFFFFFC000002000, bv_size = 5\<rparr>"
  have bytes: "bv_bytes (dt_mem pmm_ops demo_platform ?st) ?raw = ascii ''okay'' @ [0]"
    "bv_bytes (dt_mem pmm_ops demo_platform ?st) (?raw\<lparr>bv_data := bv_data ?raw + 5\<rparr>) = [0, 0, 0, 0, 0]"
    by (simp_all add: Views.view_bytes_def load_bytes_def upt_rec dt_mem_def dt_boot_def pmm_boot_def
        demo_status_def hhdm_virt_to_phys_def demo_platform_def ascii_def)
  have "get_prop 0x50 ?st = Done demo_status_property" "pr_data demo_status_property = D_raw ?raw"
    by (simp_all add: get_prop_def deref_def demo_status_property_def)
  from dt_status_lost [OF this bytes(1), of "dt_mem pmm_ops demo_platform ?st" out_boot] bytes
  show ?thesis by (simp add: Let_def ascii_def)
qed

end
