(* ===== verification/Device_Tree_Listing.thy ===== *)
theory Device_Tree_Listing
  imports Device_Tree_Print Output_Properties Client_Properties
begin

text \<open>
  What printing a device tree promises. A listing is a tree of texts; that linked nodes
  and properties show a listing is an inductive relation. Printing nodes that show a
  listing ends and sends its text, indented by depth.
\<close>

section \<open>Printing pieces of text\<close>

text \<open>The text goes to the sink of the formatted output, which stays ready.\<close>

definition shows_text :: "u8 list \<Rightarrow> out \<Rightarrow> out outcome \<Rightarrow> bool" where
  "shows_text text o1 r \<longleftrightarrow> (\<exists>o2. r = Done o2 \<and>
     out_log o2 = out_log o1 @ map (Pair (out_put_char o1)) text \<and>
     out_ready o2 \<and> out_put_char o2 = out_put_char o1)"

definition piece :: "u8 list \<Rightarrow> printer \<Rightarrow> bool" where
  "piece text pr \<longleftrightarrow> (\<forall>o1. out_ready o1 \<longrightarrow> shows_text text o1 (pr (out_put_char o1) o1))"

lemma shows_text_Done: "out_ready o1 \<Longrightarrow> shows_text [] o1 (Done o1)"
  by (simp add: shows_text_def)

lemma shows_text_bind:
  assumes "shows_text t o1 r"
    and "\<And>o2. out_ready o2 \<Longrightarrow> out_put_char o2 = out_put_char o1 \<Longrightarrow> shows_text u o2 (f o2)"
  shows "shows_text (t @ u) o1 (bind_outcome r f)"
proof -
  obtain o2 where o2: "r = Done o2" "out_log o2 = out_log o1 @ map (Pair (out_put_char o1)) t"
    "out_ready o2" "out_put_char o2 = out_put_char o1"
    using assms(1) by (auto simp: shows_text_def)
  then show ?thesis
    using assms(2) [OF o2(3,4)] by (auto simp: shows_text_def)
qed

lemma piece_lit: "piece (ascii s) (lit s)"
  by (auto simp: piece_def shows_text_def lit_sent out_ready_def)

lemma piece_str_view: "piece (sv_bytes m v) (print_str_view m v)"
  by (auto simp: piece_def shows_text_def print_str_view_literal print_literal_sent out_ready_def)

definition dec_text :: "nat \<Rightarrow> u8 list" where
  "dec_text n = (if n = 0 then ascii ''0'' else number_text 10 n)"

definition hex_text :: "nat \<Rightarrow> u8 list" where
  "hex_text n = ascii ''0x'' @ (if n = 0 then ascii ''0'' else number_text 16 n)"

lemma shows_digits:
  assumes "out_ready o1" and "2 \<le> b" and "b \<le> 16" and "n < b ^ 65"
  shows "shows_text (number_text b n) o1 (print_digits b n (out_put_char o1) o1)"
proof -
  have fn: "out_put_char o1 \<noteq> 0" and len: "length (out_buffer o1) = 65"
    using assms(1) by (simp_all add: out_ready_def)
  obtain buffer where "length buffer = length (out_buffer o1)"
    "print_digits b n (out_put_char o1) o1 =
      Done (sent (out_put_char o1) (number_text b n) (o1\<lparr>out_buffer := buffer\<rparr>))"
    by (rule print_digits_sent [OF fn assms(2,3), of n o1]) (use assms(4) len in simp_all)
  then show ?thesis
    using fn len by (simp add: shows_text_def sent_def out_ready_def)
qed

lemma piece_unsigned: "piece (dec_text (unat (w :: u64))) (print_unsigned w)"
  and piece_unsigned32: "piece (dec_text (unat (v :: u32))) (print_unsigned v)"
  and piece_hex32: "piece (hex_text (unat (v :: u32))) (print_hex v)"
proof -
  have zero: "shows_text (ascii ''0'') o1 (emit (out_put_char o1) (of_char (CHR ''0'')) o1)"
    if "out_ready o1" for o1
    using that by (auto simp: shows_text_def emit_sent out_ready_def ascii_def)
  have fits: "unat w < 10 ^ 65" "unat v < 10 ^ 65" "unat v < 16 ^ 65"
    using digits_fit [of 64 10 w] digits_fit [of 32 10 v] digits_fit [of 32 16 v] by simp_all
  show "piece (dec_text (unat w)) (print_unsigned w)" "piece (dec_text (unat v)) (print_unsigned v)"
    using zero shows_digits fits
    by (auto simp: piece_def dec_text_def print_unsigned_def m_base_def unat_eq_0)
  show "piece (hex_text (unat v)) (print_hex v)"
    unfolding piece_def
  proof (intro allI impI)
    fix o1 assume o1: "out_ready o1"
    have "shows_text (ascii ''0x'') o1 (print_literal (ascii ''0x'') (out_put_char o1) o1)"
      using o1 by (auto simp: shows_text_def print_literal_sent out_ready_def)
    then show "shows_text (hex_text (unat v)) o1 (print_hex v (out_put_char o1) o1)"
      unfolding hex_text_def print_hex_def
    proof (rule shows_text_bind)
      fix o2 assume "out_ready o2" "out_put_char o2 = out_put_char o1"
      with zero [of o2] shows_digits [of o2 16 "unat v"] fits(3)
      show "shows_text (if unat v = 0 then ascii ''0'' else number_text 16 (unat v)) o2
        (if v = 0 then emit (out_put_char o1) (of_char (CHR ''0'')) o2
         else print_digits 16 (unat v) (out_put_char o1) o2)"
        by (simp add: unat_eq_0)
    qed
  qed
qed

lemma shows_print:
  assumes "list_all2 piece ts prs" and "out_ready o1"
  shows "shows_text (concat ts) o1 (fmt_print prs o1)"
    and "shows_text (concat ts @ [0x0A]) o1 (fmt_println prs o1)"
proof -
  have *: "shows_text (concat ts) o1 (print_with_func (out_put_char o1) prs o1)" if "out_ready o1" for o1
    using assms(1) that
  proof (induction arbitrary: o1 rule: list_all2_induct)
    case Nil
    then show ?case by (simp add: shows_text_Done)
  next
    case (Cons t ts pr prs)
    have "shows_text t o1 (pr (out_put_char o1) o1)"
      using Cons.hyps(1) Cons.prems by (simp add: piece_def)
    then have "shows_text (t @ concat ts) o1
        (bind_outcome (pr (out_put_char o1) o1) (print_with_func (out_put_char o1) prs))"
      by (rule shows_text_bind) (metis Cons.IH)
    then show ?case by simp
  qed
  show "shows_text (concat ts) o1 (fmt_print prs o1)"
    using * [OF assms(2)] by (simp add: fmt_print_def)
  show "shows_text (concat ts @ [0x0A]) o1 (fmt_println prs o1)"
    unfolding fmt_println_def println_with_func_def
    by (rule shows_text_bind [OF * [OF assms(2)]])
      (auto simp: shows_text_def emit_sent out_ready_def)
qed

section \<open>The text of a value\<close>

fun views_at :: "mem \<Rightarrow> u64 \<Rightarrow> size_t \<Rightarrow> str_view list \<Rightarrow> bool" where
  "views_at m arr i [] \<longleftrightarrow> sv_size (load_view m arr i) = 0"
| "views_at m arr i (v # vs) \<longleftrightarrow> load_view m arr i = v \<and> sv_size v \<noteq> 0 \<and> views_at m arr (i + 1) vs"

fun views_text :: "mem \<Rightarrow> size_t \<Rightarrow> str_view list \<Rightarrow> u8 list" where
  "views_text m i [] = []"
| "views_text m i (v # vs) = (if i = 0 then [] else ascii '', '') @ sv_bytes m v @ views_text m (i + 1) vs"

fun status_text :: "mem \<Rightarrow> device_status \<Rightarrow> str_view \<Rightarrow> u8 list" where
  "status_text m OKAY r = ascii ''OKAY''"
| "status_text m DISABLED r = ascii ''DISABLED''"
| "status_text m RESERVED r = ascii ''RESERVED''"
| "status_text m FAIL r = ascii ''FAIL''"
| "status_text m FAIL_WITH_REASON r = ascii ''FAIL: '' @ sv_bytes m r"

text \<open>
  A property shows a text if its type and the member of its union agree. An array of
  strings has to end with an empty view.
\<close>

definition shows_value :: "mem \<Rightarrow> property \<Rightarrow> u8 list \<Rightarrow> bool" where
  "shows_value m q t \<longleftrightarrow> (case (pr_type q, pr_data q) of
     (RAW, D_raw bv) \<Rightarrow> t = ascii ''RAW (length: '' @ dec_text (unat (bv_size bv)) @ ascii '')''
   | (COMPATIBLE, D_compatible_array arr) \<Rightarrow>
       (\<exists>vs. views_at m arr 0 vs \<and> t = ascii ''['' @ views_text m 0 vs @ ascii '']'')
   | (MODEL, D_model v) \<Rightarrow> t = sv_bytes m v
   | (PHANDLE, D_phandle w) \<Rightarrow> t = hex_text (unat w)
   | (STATUS, D_status v r) \<Rightarrow> t = status_text m v r
   | (ADDRESS_CELLS, D_address_cells w) \<Rightarrow> t = dec_text (unat w)
   | (SIZE_CELLS, D_size_cells w) \<Rightarrow> t = dec_text (unat w)
   | (DMA_COHERENCE, D_dma_coherence b) \<Rightarrow> t = ascii (if b then ''true'' else ''false'')
   | (DEVICE_TYPE, D_device_type v) \<Rightarrow> t = sv_bytes m v
   | (REG, D_reg n a s) \<Rightarrow> t = ascii ''REG ('' @ dec_text (unat n) @ ascii '' pairs)''
   | (RANGES, D_range n c pb s) \<Rightarrow> t = ascii ''RANGES ('' @ dec_text (unat n) @ ascii '' trips)''
   | (VIRTUAL_REG, D_virtual_reg w) \<Rightarrow> t = hex_text (unat w)
   | (INTERRUPT_PARENT, D_interrupt_parent w) \<Rightarrow> t = hex_text (unat w)
   | (INTERRUPT_CONTROLLER, _) \<Rightarrow> t = ascii ''true''
   | (INTERRUPT_CELLS, D_interrupt_cells w) \<Rightarrow> t = dec_text (unat w)
   | (INTERRUPT_MAP, D_interrupt_map n a b c d e) \<Rightarrow>
       t = ascii ''INTERRUPT_MAP ('' @ dec_text (unat n) @ ascii '' entries)''
   | _ \<Rightarrow> False)"

lemma shows_text_loop:
  assumes "shows_text t o1 r"
    and "\<And>o2. out_ready o2 \<Longrightarrow> out_put_char o2 = out_put_char o1 \<Longrightarrow>
      shows_text u o2 (join_spin (f o2))"
  shows "shows_text (t @ u) o1 (join_spin (bind_loop r f))"
proof -
  have "join_spin (bind_loop r f) = bind_outcome r (\<lambda>o2. join_spin (f o2))"
    by (cases r) simp_all
  then show ?thesis using shows_text_bind [OF assms] by simp
qed

lemma shows_print_one: "piece t pr \<Longrightarrow> out_ready o1 \<Longrightarrow> shows_text t o1 (fmt_print [pr] o1)"
  using shows_print(1) [of "[t]" "[pr]" o1] by simp

lemma shows_println:
  "piece t pr \<Longrightarrow> out_ready o1 \<Longrightarrow> shows_text (t @ [0x0A]) o1 (fmt_println [pr] o1)"
  "piece t pr \<Longrightarrow> piece u qr \<Longrightarrow> out_ready o1 \<Longrightarrow>
    shows_text (t @ u @ [0x0A]) o1 (fmt_println [pr, qr] o1)"
  "piece t pr \<Longrightarrow> piece u qr \<Longrightarrow> piece v rr \<Longrightarrow> out_ready o1 \<Longrightarrow>
    shows_text (t @ u @ v @ [0x0A]) o1 (fmt_println [pr, qr, rr] o1)"
  using shows_print(2) [of "[t]" "[pr]" o1] shows_print(2) [of "[t, u]" "[pr, qr]" o1]
    shows_print(2) [of "[t, u, v]" "[pr, qr, rr]" o1] by simp_all

lemma print_views_shows:
  "views_at m arr i vs \<Longrightarrow> out_ready o1 \<Longrightarrow>
    shows_text (views_text m i vs) o1 (join_spin (print_views m arr i o1))"
proof (induction m arr i vs arbitrary: o1 rule: views_at.induct)
  case (1 m arr i)
  then show ?case by (subst print_views.simps) (simp add: shows_text_Done)
next
  case (2 m arr i v vs)
  have one: "shows_text (if i = 0 then [] else ascii '', '') o1
      (if i \<noteq> 0 then fmt_print [lit '', ''] o1 else Done o1)"
    using 2(3) by (simp add: shows_text_Done shows_print_one piece_lit)
  show ?case
    using 2(2)
    by (subst print_views.simps, simp only: views_text.simps views_at.simps if_True not_False_eq_True)
      (intro shows_text_loop [OF one] shows_text_loop [OF shows_print_one [OF piece_str_view]];
        simp add: 2(1))
qed

lemma print_value_shows:
  assumes "shows_value m q t" and "out_ready o1"
  shows "shows_text (t @ [0x0A]) o1 (print_value m q o1)"
proof -
  note P = piece_lit piece_str_view piece_unsigned piece_unsigned32 piece_hex32
  have s: "shows_text (status_text m v r @ [0x0A]) o1 (print_status m v r o1)" for v r
    using assms(2) P
    by (cases v) (simp_all add: print_status_def shows_println)
  have c: "shows_text ((ascii ''['' @ views_text m 0 vs @ ascii '']'') @ [0x0A]) o1
      (bind_outcome (fmt_print [lit ''[''] o1) (\<lambda>o2.
        bind_outcome (join_spin (print_views m arr 0 o2)) (fmt_println [lit '']''])))"
    if "views_at m arr 0 vs" for arr vs
    using that assms(2) P
    by (simp add: shows_text_bind [OF shows_print_one] shows_text_bind [OF print_views_shows] shows_println)
  show ?thesis
    using assms unfolding shows_value_def print_value_def
    by (cases "pr_type q"; cases "pr_data q") (simp_all add: shows_println P s, use c in auto)
qed

section \<open>Listings\<close>

datatype dt_listing = Listing (l_name: "u8 list") (l_props: "(u8 list \<times> u8 list) list")
  (l_children: "dt_listing list")

fun indent_text :: "nat \<Rightarrow> u8 list" where
  "indent_text 0 = []"
| "indent_text (Suc n) = ascii ''  '' @ indent_text n"

definition property_text :: "nat \<Rightarrow> u8 list \<times> u8 list \<Rightarrow> u8 list" where
  "property_text d p = indent_text (d + 1) @ ascii ''Property: '' @ fst p @ ascii '' = '' @ snd p @ [0x0A]"

fun listing_text :: "nat \<Rightarrow> dt_listing \<Rightarrow> u8 list" where
  "listing_text d (Listing name ps ls) =
     indent_text d @ ascii ''Node: '' @ name @ ascii '' {'' @ [0x0A] @
     concat (map (property_text d) ps) @ concat (map (listing_text (d + 1)) ls)"

text \<open>The properties linked from \<open>a\<close> show names and values; the nodes show listings.\<close>

fun props_listed :: "mem \<Rightarrow> property objs \<Rightarrow> u64 \<Rightarrow> (u8 list \<times> u8 list) list \<Rightarrow> bool" where
  "props_listed m P a [] \<longleftrightarrow> a = 0"
| "props_listed m P a (p # ps) \<longleftrightarrow> a \<noteq> 0 \<and> (\<exists>q. P a = Some q \<and> sv_bytes m (pr_name q) = fst p \<and>
     shows_value m q (snd p) \<and> props_listed m P (pr_next q) ps)"

inductive node_listed :: "mem \<Rightarrow> node objs \<Rightarrow> property objs \<Rightarrow> u64 \<Rightarrow> dt_listing \<Rightarrow> bool"
  and nodes_listed :: "mem \<Rightarrow> node objs \<Rightarrow> property objs \<Rightarrow> u64 \<Rightarrow> dt_listing list \<Rightarrow> bool"
  for m N P where
  node_listed: "a \<noteq> 0 \<Longrightarrow> N a = Some nd \<Longrightarrow> props_listed m P (nd_properties nd) ps \<Longrightarrow>
    nodes_listed m N P (nd_children nd) ls \<Longrightarrow>
    node_listed m N P a (Listing (sv_bytes m (nd_name nd)) ps ls)"
| nodes_end: "nodes_listed m N P 0 []"
| nodes_link: "node_listed m N P a l \<Longrightarrow> N a = Some nd \<Longrightarrow>
    nodes_listed m N P (nd_next_sibling nd) ls \<Longrightarrow> nodes_listed m N P a (l # ls)"

inductive_cases node_listedE: "node_listed m N P a l"

lemma print_indent_shows: "out_ready o1 \<Longrightarrow> shows_text (indent_text n) o1 (print_indent n o1)"
  by (induction n arbitrary: o1)
    (simp_all add: shows_text_Done shows_text_bind [OF shows_print_one [OF piece_lit]])

lemma print_properties_shows:
  "props_listed (dt_mem ops p st) (dt_prop_objs st) a ps \<Longrightarrow> out_ready o1 \<Longrightarrow>
    shows_text (concat (map (property_text d) ps)) o1 (join_spin (print_properties ops p st a d o1))"
proof (induction ps arbitrary: a o1)
  case Nil
  then show ?case by (subst print_properties.simps) (simp add: shows_text_Done)
next
  case (Cons r ps)
  let ?m = "dt_mem ops p st"
  obtain q where q: "a \<noteq> 0" "dt_prop_objs st a = Some q" "sv_bytes ?m (pr_name q) = fst r"
    "shows_value ?m q (snd r)" "props_listed ?m (dt_prop_objs st) (pr_next q) ps"
    using Cons.prems(1) by auto
  have get: "get_prop a st = Done q" using q by (simp add: get_prop_def deref_def)
  have head: "shows_text (ascii ''Property: '' @ fst r @ ascii '' = '') o2
      (fmt_print [lit ''Property: '', print_str_view ?m (pr_name q), lit '' = ''] o2)"
    if "out_ready o2" for o2
    using shows_print(1) [of "[ascii ''Property: '', fst r, ascii '' = '']"
        "[lit ''Property: '', print_str_view ?m (pr_name q), lit '' = '']" o2] that q(3)
      piece_lit piece_str_view [of ?m "pr_name q"] by simp
  have "shows_text (indent_text (d + 1) @ (ascii ''Property: '' @ fst r @ ascii '' = '') @
      (snd r @ [0x0A]) @ concat (map (property_text d) ps)) o1
      (join_spin (print_properties ops p st a d o1))"
    using q(1)
    by (subst print_properties.simps)
      (simp only: if_True not_False_eq_True get bind_loop_simps;
        intro shows_text_loop print_indent_shows Cons.prems(2) head print_value_shows q(4) Cons.IH q(5))
  then show ?case by (simp only: list.map concat.simps property_text_def [of d r] append_assoc)
qed

lemma print_children_shows:
  assumes "m = dt_mem ops p st" and "N = dt_node_objs st" and "P = dt_prop_objs st"
  shows "node_listed m N P a l \<Longrightarrow> \<forall>d o1. out_ready o1 \<longrightarrow>
      shows_text (listing_text d l) o1 (print_node_recursive ops p st a d o1)"
    and "nodes_listed m N P a ls \<Longrightarrow> \<forall>d o1. out_ready o1 \<longrightarrow>
      shows_text (concat (map (listing_text d) ls)) o1 (join_spin (print_children ops p st a d o1))"
proof (induction rule: node_listed_nodes_listed.inducts)
  case (node_listed a nd ps ls)
  show ?case
  proof (intro allI impI)
    fix d o1 assume ready: "out_ready (o1 :: out)"
    have get: "get_node a st = Done nd"
      using node_listed(1,2) by (simp add: get_node_def deref_def assms(2))
    have head: "shows_text ((ascii ''Node: '' @ sv_bytes m (nd_name nd) @ ascii '' {'') @ [0x0A]) o2
        (fmt_println [lit ''Node: '', print_str_view m (nd_name nd), lit '' {''] o2)"
      if "out_ready o2" for o2
      using shows_println(3) [OF piece_lit piece_str_view piece_lit that] by simp
    have props: "shows_text (concat (map (property_text d) ps)) o2
        (join_spin (print_properties ops p st (nd_properties nd) d o2))" if "out_ready o2" for o2
      using print_properties_shows [OF _ that] node_listed(3) by (simp add: assms)
    have node: "shows_text (indent_text d @ ((ascii ''Node: '' @ sv_bytes m (nd_name nd) @ ascii '' {'') @ [0x0A]) @
        concat (map (property_text d) ps)) o1 (print_node ops p st a d o1)"
      unfolding print_node_def get bind_outcome.simps assms(1) [symmetric]
      by (intro shows_text_bind print_indent_shows ready head props)
    have "shows_text ((indent_text d @ ((ascii ''Node: '' @ sv_bytes m (nd_name nd) @ ascii '' {'') @ [0x0A]) @
        concat (map (property_text d) ps)) @ concat (map (listing_text (d + 1)) ls)) o1
        (print_node_recursive ops p st a d o1)"
      unfolding print_node_recursive_def get bind_outcome.simps if_not_P [OF node_listed(1)]
      using node_listed(5) by (intro shows_text_bind [OF node]) simp
    then show "shows_text (listing_text d (Listing (sv_bytes m (nd_name nd)) ps ls)) o1
        (print_node_recursive ops p st a d o1)" by simp
  qed
next
  case nodes_end
  show ?case by (subst print_children.simps) (simp add: shows_text_Done)
next
  case (nodes_link a l nd ls)
  have a: "a \<noteq> 0" using nodes_link(1) by (auto elim: node_listedE)
  have get: "get_node a st = Done nd"
    using a nodes_link(3) by (simp add: get_node_def deref_def assms(2))
  show ?case
  proof (intro allI impI)
    fix d o1 assume ready: "out_ready (o1 :: out)"
    have rec: "shows_text (listing_text d l) o1 (print_node_recursive ops p st a d o1)"
      using nodes_link(2) ready by blast
    then obtain o2 o3 where o2: "print_node ops p st a d o1 = Done o2"
      "print_children ops p st (nd_children nd) (d + 1) o2 = Some (Done o3)"
      "print_node_recursive ops p st a d o1 = Done o3"
      using a get
      by (auto simp: shows_text_def print_node_recursive_def bind_outcome_Done_iff join_spin_def
          split: option.splits)
    have "join_spin (print_children ops p st a d o1) =
        bind_outcome (print_node_recursive ops p st a d o1)
          (\<lambda>o3. join_spin (print_children ops p st (nd_next_sibling nd) d o3))"
      using a get o2 by (subst print_children.simps) simp
    then show "shows_text (concat (map (listing_text d) (l # ls))) o1
        (join_spin (print_children ops p st a d o1))"
      using shows_text_bind [OF rec] nodes_link(5) by simp
  qed
qed

lemma print_tree_listing:
  assumes "out_ready (dt_out st)"
    and "dt_initialized st \<longrightarrow> node_listed (dt_mem ops p st) (dt_node_objs st) (dt_prop_objs st) (dt_root st) l"
  obtains o2 where "print_device_tree ops p st = Done (st\<lparr>dt_out := o2\<rparr>)"
    and "out_log o2 = out_log (dt_out st) @ map (Pair (out_put_char (dt_out st)))
      (if dt_initialized st then ascii ''Printing the device tree:'' @ [0x0A] @ listing_text 0 l
       else ascii ''Device tree not initialized.'' @ [0x0A])"
proof (cases "dt_initialized st")
  case True
  have "\<forall>d o1. out_ready o1 \<longrightarrow> shows_text (listing_text d l) o1 (print_node_recursive ops p st (dt_root st) d o1)"
    using print_children_shows(1) [OF refl refl refl] assms(2) True by blast
  then have "shows_text ((ascii ''Printing the device tree:'' @ [0x0A]) @ listing_text 0 l) (dt_out st)
      (bind_outcome (fmt_println [lit ''Printing the device tree:''] (dt_out st))
        (print_node_recursive ops p st (dt_root st) 0))"
    using assms
    by (intro shows_text_bind shows_println(1) piece_lit) auto
  then show ?thesis
    using True that by (auto simp: shows_text_def print_device_tree_def bind_outcome_Done_iff)
next
  case False
  then show ?thesis
    using shows_println(1) [OF piece_lit assms(1), of "''Device tree not initialized.''"] that
    by (auto simp: shows_text_def print_device_tree_def)
qed

text \<open>
  C22. Printing the device tree. If the nodes linked from the root show a listing, then
  printing ends and sends exactly the text of the listing after the heading: every node
  and property in link order, indented by depth. Before a tree was parsed it only sends a
  message. Nothing but the output changes.
\<close>

theorem dt_print_listing:
  assumes "out_ready (dt_out st)"
    and "dt_initialized st \<longrightarrow> node_listed (dt_mem ops p st) (dt_node_objs st) (dt_prop_objs st) (dt_root st) l"
  shows "\<exists>o2. print_device_tree ops p st = Done (st\<lparr>dt_out := o2\<rparr>) \<and>
    out_log o2 = out_log (dt_out st) @ map (Pair (out_put_char (dt_out st)))
      (if dt_initialized st then ascii ''Printing the device tree:'' @ [0x0A] @ listing_text 0 l
       else ascii ''Device tree not initialized.'' @ [0x0A])"
  by (rule print_tree_listing [OF assms]) blast

definition demo_listing :: dt_listing where
  "demo_listing = Listing [0x61] [([0x61], hex_text 7)] [Listing [0x61] [] []]"

definition demo_printable :: "pmm dt_state" where
  "demo_printable = (dt_boot (pmm_boot (\<lambda>_. 0x61)) (out_boot\<lparr>out_put_char := 9\<rparr>))
     \<lparr>dt_node_objs := [0x100 \<mapsto> \<lparr>nd_name = \<lparr>sv_data = 0x40, sv_size = 1\<rparr>, nd_address_cells = 2,
         nd_size_cells = 1, nd_properties = 0x200, nd_parent = 0, nd_children = 0x138, nd_next_sibling = 0\<rparr>,
       0x138 \<mapsto> \<lparr>nd_name = \<lparr>sv_data = 0x50, sv_size = 1\<rparr>, nd_address_cells = 0,
         nd_size_cells = 0, nd_properties = 0, nd_parent = 0x100, nd_children = 0, nd_next_sibling = 0\<rparr>],
      dt_prop_objs := [0x200 \<mapsto> \<lparr>pr_name = \<lparr>sv_data = 0x60, sv_size = 1\<rparr>, pr_next = 0,
         pr_type = PHANDLE, pr_data = D_phandle 7\<rparr>],
      dt_root := 0x100, dt_initialized := True\<rparr>"

theorem dt_print_listing_witness:
  "\<exists>o2. print_device_tree pmm_ops demo_platform demo_printable = Done (demo_printable\<lparr>dt_out := o2\<rparr>) \<and>
    out_log o2 = map (Pair 9) (ascii ''Printing the device tree:'' @ [0x0A] @ listing_text 0 demo_listing)"
proof -
  let ?N = "dt_node_objs demo_printable" and ?P = "dt_prop_objs demo_printable"
  have m: "dt_mem pmm_ops demo_platform demo_printable = (\<lambda>_. 0x61)"
    by (simp add: dt_mem_def demo_printable_def dt_boot_def pmm_boot_def)
  have one: "Views.view_bytes (\<lambda>_. 0x61) a 1 = [0x61]" for a
    by (simp add: Views.view_bytes_def load_bytes_def)
  have child: "node_listed (\<lambda>_. 0x61) ?N ?P 0x138 (Listing [0x61] [] [])"
    using node_listed [where a = "0x138" and N = ?N and P = ?P and m = "\<lambda>_. 0x61" and ps = "[]" and ls = "[]"] nodes_end [of "\<lambda>_. 0x61" ?N ?P]
    by (simp add: demo_printable_def one)
  then have "nodes_listed (\<lambda>_. 0x61) ?N ?P 0x138 [Listing [0x61] [] []]"
    by (rule nodes_link) (simp add: demo_printable_def, simp add: nodes_end)
  then have "node_listed (\<lambda>_. 0x61) ?N ?P 0x100 demo_listing"
    using node_listed [where a = "0x100" and N = ?N and P = ?P and m = "\<lambda>_. 0x61"
        and ps = "[([0x61], hex_text 7)]" and ls = "[Listing [0x61] [] []]"]
    by (simp add: demo_printable_def demo_listing_def one shows_value_def)
  then show ?thesis
    using dt_print_listing [of demo_printable pmm_ops demo_platform demo_listing] m
    by (simp add: demo_printable_def dt_boot_def out_ready_def out_boot_def)
qed

end
