(* ===== verification/Device_Tree_Pass.thy ===== *)
theory Device_Tree_Pass
  imports Device_Tree_Listing
begin

text \<open>
  The second pass over the device tree as a whole: what every rewriting of a single
  property keeps, the pass keeps. The invariant used here is the type discipline of the
  union in a property. Also the errors that the pass can report.
\<close>

section \<open>Invariants of the pass\<close>

text \<open>The errors of a single property.\<close>

definition cells_errors :: "error set" where
  "cells_errors = {error_of DT_ADDRESS_CELLS_TOO_LARGE, error_of DT_SIZE_CELLS_TOO_LARGE}"

lemma cells_errors_simps [simp]:
  "e \<in> cells_errors \<Longrightarrow> is_err e" "no_error \<notin> cells_errors"
  by (auto simp: cells_errors_def is_err_def)
    (auto simp: no_error_def error_of_def)

lemma rewrite_property_errors:
  "rewrite_property ops p node prop st = Done (Some e, st') \<Longrightarrow> e \<in> cells_errors"
  unfolding rewrite_property_def
  by (auto simp: bind_outcome_Done_iff Let_def cells_errors_def split: if_split_asm)

lemma bind_loop_Done_iff:
  "bind_loop r f = Some (Done y) \<longleftrightarrow> (\<exists>x. r = Done x \<and> f x = Some (Done y))"
  by (cases r) simp_all

lemma join_spin_Done_iff: "join_spin r = Done x \<longleftrightarrow> r = Some (Done x)"
  by (cases r) simp_all

text \<open>A property of the state that both rewritings of a single property keep.\<close>

locale pass_invariant =
  fixes ops :: "'s page_ops" and p :: platform_info and good :: "'s dt_state \<Rightarrow> bool"
  assumes property_keeps: "good st \<Longrightarrow> rewrite_property ops p node prop st = Done (r, st') \<Longrightarrow> good st'"
    and late_keeps: "good st \<Longrightarrow> rewrite_late ops p node prop st = Done st' \<Longrightarrow> good st'"
begin

lemma first_lap_keeps:
  "first_lap ops p node prop st = Some y \<Longrightarrow> good st \<longrightarrow> (\<forall>r st'. y = Done (r, st') \<longrightarrow>
    good st' \<and> (\<forall>e. r = Some e \<longrightarrow> e \<in> cells_errors))"
proof (rule first_lap.raw_induct [where P = "\<lambda>o' p' node prop st y. o' = ops \<longrightarrow> p' = p \<longrightarrow> good st \<longrightarrow>
    (\<forall>r st'. y = Done (r, st') \<longrightarrow> good st' \<and> (\<forall>e. r = Some e \<longrightarrow> e \<in> cells_errors))",
    THEN mp, THEN mp, OF _ _ refl refl], goal_cases)
  case (1 loop o' p' node a st y)
  note IH = 1(2) [rule_format]
  show ?case
  proof (intro impI allI, goal_cases)
    case g: (1 r st')
    show ?case
    proof (cases "a = 0")
      case True
      then show ?thesis using 1(3) g by simp
    next
      case False
      then obtain r1 st1 where one: "rewrite_property ops p node a st = Done (r1, st1)"
        and tail: "(case r1 of Some e \<Rightarrow> Some (Done (Some e, st1))
          | None \<Rightarrow> bind_loop (get_prop a st1) (\<lambda>q. loop ops p node (pr_next q) st1)) = Some (Done (r, st'))"
        using 1(3) g by (auto simp: bind_loop_Done_iff)
      note k = property_keeps [OF g(3) one]
      show ?thesis
        using tail k rewrite_property_errors one IH [OF _ refl refl k refl]
        by (auto simp: bind_loop_Done_iff split: option.split_asm)
    qed
  qed
qed

lemma second_lap_keeps:
  "second_lap ops p node prop st = Some y \<Longrightarrow> good st \<longrightarrow> (\<forall>st'. y = Done st' \<longrightarrow> good st')"
proof (rule second_lap.raw_induct [where P = "\<lambda>o' p' node prop st y. o' = ops \<longrightarrow> p' = p \<longrightarrow> good st \<longrightarrow>
    (\<forall>st'. y = Done st' \<longrightarrow> good st')", THEN mp, THEN mp, OF _ _ refl refl], goal_cases)
  case (1 loop o' p' node a st y)
  then show ?case
    by (auto simp: bind_loop_def split: if_split_asm outcome.split_asm dest: late_keeps)
qed

lemma rewrite_node_keeps:
  assumes "rewrite_node ops p node st = Done (r, st')" and "good st"
  shows "good st' \<and> (\<forall>e. r = Some e \<longrightarrow> e \<in> cells_errors)"
proof -
  obtain ps r1 st1 where lap: "join_spin (first_lap ops p node ps st) = Done (r1, st1)"
    and rest: "(case r1 of Some e \<Rightarrow> Done (Some e, st1)
     | None \<Rightarrow>
         bind_outcome (get_node node st1) (\<lambda>nd1.
         bind_outcome (join_spin (second_lap ops p node (nd_properties nd1) st1)) (\<lambda>st2.
         Done (None, st2)))) = Done (r, st')"
    using assms(1) unfolding rewrite_node_def bind_outcome_Done_iff split_paired_Ex split_conv
    by (elim exE conjE) (erule (1) that)
  have one: "good st1" "\<forall>e. r1 = Some e \<longrightarrow> e \<in> cells_errors"
    using lap first_lap_keeps assms(2) by (auto simp: join_spin_Done_iff)
  show ?thesis
    using rest one second_lap_keeps
    by (auto simp: bind_outcome_Done_iff join_spin_Done_iff split: option.split_asm)
qed

lemma rewrite_children_keeps:
  "rewrite_children ops p c err st = Some y \<Longrightarrow> good st \<longrightarrow> err = no_error \<longrightarrow>
    (\<forall>e st'. y = Done (e, st') \<longrightarrow> good st' \<and> (e = no_error \<or> e \<in> cells_errors))"
proof (rule rewrite_children.raw_induct [where P = "\<lambda>o' p' c err st y. o' = ops \<longrightarrow> p' = p \<longrightarrow> good st \<longrightarrow>
    err = no_error \<longrightarrow> (\<forall>e st'. y = Done (e, st') \<longrightarrow> good st' \<and> (e = no_error \<or> e \<in> cells_errors))",
    THEN mp, THEN mp, OF _ _ refl refl], goal_cases)
  case (1 loop o' p' c err st y)
  note IH = 1(2) [rule_format]
  show ?case
  proof (intro impI allI)
    fix e st'
    assume id: "o' = ops" "p' = p" and g: "good st" and err: "err = no_error" and y: "y = Done (e, st')"
    show "good st' \<and> (e = no_error \<or> e \<in> cells_errors)"
    proof (cases "c = 0")
      case True
      then show ?thesis using 1(3) g err y by simp
    next
      case False
      then obtain r st1 where node: "rewrite_node ops p c st = Done (r, st1)"
        using 1(3) id y by (cases "rewrite_node ops p c st") auto
      note k = rewrite_node_keeps [OF this g]
      show ?thesis
      proof (cases r)
        case (Some a)
        then show ?thesis using 1(3) False id y node k by auto
      next
        case None
        then obtain cs e1 st2 where c: "loop ops p cs no_error st1 = Some (Done (e1, st2))"
          and tail: "(if is_err e1 then Some (Done (e1, st2))
              else bind_loop (get_node c st2) (\<lambda>n. loop ops p (nd_next_sibling n) e1 st2)) = Some y"
          using 1(3) False id node unfolding y
          by (auto simp: bind_eq_Some_conv bind_loop_Done_iff)
        have two: "good st2" "e1 = no_error \<or> e1 \<in> cells_errors"
          using IH [OF c refl refl _ refl refl] k by auto
        show ?thesis
        proof (cases "is_err e1")
          case True
          then show ?thesis using tail y two by simp
        next
          case False
          then have "e1 = no_error" using two(2) by auto
          then obtain s where "loop ops p s no_error st2 = Some y"
            using tail False unfolding y by (auto simp: bind_loop_Done_iff)
          then show ?thesis using IH [OF _ refl refl two(1) refl y] by blast
        qed
      qed
    qed
  qed
qed

lemma recursive_keeps:
  assumes "recursive_property_rewrite ops p node st = Done (e, st')" and "good st"
  shows "good st' \<and> (e = no_error \<or> e \<in> cells_errors)"
proof -
  obtain r st1 where node: "rewrite_node ops p node st = Done (r, st1)"
    and rest: "(case r of Some e \<Rightarrow> Done (e, st1)
       | None \<Rightarrow> bind_outcome (get_node node st1) (\<lambda>nd.
             join_spin (rewrite_children ops p (nd_children nd) no_error st1))) = Done (e, st')"
    using assms(1) by (auto simp: recursive_property_rewrite_def bind_outcome_Done_iff)
  note k = rewrite_node_keeps [OF node assms(2)]
  show ?thesis
    using rest k
    by (auto simp: bind_outcome_Done_iff join_spin_Done_iff split: option.split_asm
        dest!: rewrite_children_keeps)
qed

end

section \<open>The type discipline of properties\<close>

text \<open>Which member of the union a type stands for; a boolean property has no member.\<close>

definition typed_as :: "prop_type \<Rightarrow> prop_data \<Rightarrow> bool" where
  "typed_as t d = (case t of
     RAW \<Rightarrow> is_D_raw d | COMPATIBLE \<Rightarrow> is_D_compatible_array d | MODEL \<Rightarrow> is_D_model d
   | PHANDLE \<Rightarrow> is_D_phandle d | STATUS \<Rightarrow> is_D_status d \<or> is_D_raw d
   | ADDRESS_CELLS \<Rightarrow> is_D_address_cells d | SIZE_CELLS \<Rightarrow> is_D_size_cells d | REG \<Rightarrow> is_D_reg d
   | VIRTUAL_REG \<Rightarrow> is_D_virtual_reg d | DMA_COHERENCE \<Rightarrow> is_D_dma_coherence d
   | DEVICE_TYPE \<Rightarrow> is_D_device_type d | RANGES \<Rightarrow> is_D_range d
   | INTERRUPT_PARENT \<Rightarrow> is_D_interrupt_parent d | INTERRUPT_CONTROLLER \<Rightarrow> True
   | INTERRUPT_CELLS \<Rightarrow> is_D_interrupt_cells d | INTERRUPT_MAP \<Rightarrow> is_D_interrupt_map d)"

lemma typed_as_simps [simp]:
  "typed_as RAW d \<longleftrightarrow> is_D_raw d" "typed_as COMPATIBLE d \<longleftrightarrow> is_D_compatible_array d"
  "typed_as MODEL d \<longleftrightarrow> is_D_model d" "typed_as PHANDLE d \<longleftrightarrow> is_D_phandle d"
  "typed_as STATUS d \<longleftrightarrow> is_D_status d \<or> is_D_raw d" "typed_as ADDRESS_CELLS d \<longleftrightarrow> is_D_address_cells d"
  "typed_as SIZE_CELLS d \<longleftrightarrow> is_D_size_cells d" "typed_as REG d \<longleftrightarrow> is_D_reg d"
  "typed_as VIRTUAL_REG d \<longleftrightarrow> is_D_virtual_reg d" "typed_as DMA_COHERENCE d \<longleftrightarrow> is_D_dma_coherence d"
  "typed_as DEVICE_TYPE d \<longleftrightarrow> is_D_device_type d" "typed_as RANGES d \<longleftrightarrow> is_D_range d"
  "typed_as INTERRUPT_PARENT d \<longleftrightarrow> is_D_interrupt_parent d" "typed_as INTERRUPT_CONTROLLER d"
  "typed_as INTERRUPT_CELLS d \<longleftrightarrow> is_D_interrupt_cells d" "typed_as INTERRUPT_MAP d \<longleftrightarrow> is_D_interrupt_map d"
  by (simp_all add: typed_as_def)

definition typed :: "property \<Rightarrow> bool" where
  "typed q \<longleftrightarrow> typed_as (pr_type q) (pr_data q)"

definition typed_objs :: "property objs \<Rightarrow> bool" where
  "typed_objs objs \<longleftrightarrow> (\<forall>a q. objs a = Some q \<longrightarrow> typed q)"

definition typed_state :: "'s dt_state \<Rightarrow> bool" where
  "typed_state st \<longleftrightarrow> typed_objs (dt_prop_objs st)"

lemma typed_objs_upd: "typed_objs objs \<Longrightarrow> typed q \<Longrightarrow> typed_objs (objs(a := Some q))"
  by (simp add: typed_objs_def)

lemma typed_upd_prop:
  assumes "typed_state st" and "upd_prop a f st = Done st'"
    and "\<And>q. dt_prop_objs st a = Some q \<Longrightarrow> typed (f q)"
  shows "typed_state st'"
  using assms by (auto simp: upd_prop_def bind_outcome_Done_iff deref_def typed_state_def
      intro!: typed_objs_upd split: if_split_asm option.split_asm)

lemma typed_state_same: "dt_prop_objs st' = dt_prop_objs st \<Longrightarrow> typed_state st \<Longrightarrow> typed_state st'"
  by (simp add: typed_state_def)

text \<open>Everything that touches only memory or nodes leaves the properties alone.\<close>

lemma same_props:
  "dt_store ops p a bs st = Done st' \<Longrightarrow> dt_prop_objs st' = dt_prop_objs st"
  "dt_alloc ops p n al st = Done (x, st') \<Longrightarrow> dt_prop_objs st' = dt_prop_objs st"
  "upd_node a f st = Done st' \<Longrightarrow> dt_prop_objs st' = dt_prop_objs st"
  "store_view ops p arr j v st = Done st' \<Longrightarrow> dt_prop_objs st' = dt_prop_objs st"
  "store_address ops p zero_ok wide cells arr i src st = Done st' \<Longrightarrow> dt_prop_objs st' = dt_prop_objs st"
  "store_size ops p cells arr i src st = Done st' \<Longrightarrow> dt_prop_objs st' = dt_prop_objs st"
  by (auto simp: dt_store_def dt_alloc_def upd_node_def store_view_def store_address_def store_size_def
      Let_def bind_outcome_Done_iff split: if_split_asm)

lemma reg_loop_props:
  "reg_loop ops p ac sc buf aa sa n i j st = Done st' \<Longrightarrow> dt_prop_objs st' = dt_prop_objs st"
proof (induction ops p ac sc buf aa sa n i j st rule: reg_loop.induct)
  case (1 ops p ac sc buf aa sa n i j st)
  show ?case
    using 1(2) 1(1) by (subst (asm) reg_loop.simps)
      (auto simp: bind_outcome_Done_iff Let_def same_props split: if_split_asm)
qed

lemma ranges_loop_props:
  "ranges_loop ops p c pa sz buf cb pb sa n i j st = Done st' \<Longrightarrow> dt_prop_objs st' = dt_prop_objs st"
proof (induction ops p c pa sz buf cb pb sa n i j st rule: ranges_loop.induct)
  case (1 ops p c pa sz buf cb pb sa n i j st)
  show ?case
    using 1(2) 1(1) by (subst (asm) ranges_loop.simps)
      (auto simp: bind_outcome_Done_iff Let_def same_props split: if_split_asm)
qed

lemma compatible_loop_props:
  "compatible_loop ops p raw arr i j st = Some y \<Longrightarrow>
    \<forall>st'. y = Done st' \<longrightarrow> dt_prop_objs st' = dt_prop_objs st"
proof (rule compatible_loop.raw_induct [where P = "\<lambda>ops p raw arr i j st y.
    \<forall>st'. y = Done st' \<longrightarrow> dt_prop_objs st' = dt_prop_objs st"], goal_cases)
  case (1 loop ops p raw arr i j st y)
  then show ?case
    by (fastforce simp: bind_loop_Done_iff same_props split: if_split_asm)
qed

lemma rewrite_compatibleE:
  assumes "rewrite_compatible ops p a st = Done st'"
  obtains q raw arr st1 st2 st3 st4 where "get_prop a st = Done q" "raw_of q = Done raw" "arr \<noteq> 0"
    and "dt_alloc ops p (8 * (count_zeros (dt_mem ops p st) raw + 1)) 8 st = Done (arr, st1)"
    and "upd_prop a (\<lambda>q. q\<lparr>pr_data := D_compatible_array arr\<rparr>) st1 = Done st2"
    and "compatible_loop ops p raw arr 0 0 st2 = Some (Done st3)"
    and "store_view ops p arr (count_zeros (dt_mem ops p st) raw) str_view_empty st3 = Done st4"
    and "upd_prop a (\<lambda>q. q\<lparr>pr_type := COMPATIBLE\<rparr>) st4 = Done st'"
  using assms
  by (auto simp: rewrite_compatible_def Let_def bind_outcome_Done_iff join_spin_Done_iff split: if_split_asm)

lemma rewrite_compatible_typed:
  assumes "typed_state st" and "rewrite_compatible ops p a st = Done st'"
  shows "typed_state st'"
proof -
  obtain q raw arr st1 st2 st3 st4 where al: "dt_alloc ops p (8 * (count_zeros (dt_mem ops p st) raw + 1)) 8 st = Done (arr, st1)"
    and u: "upd_prop a (\<lambda>q. q\<lparr>pr_data := D_compatible_array arr\<rparr>) st1 = Done st2"
    and l: "compatible_loop ops p raw arr 0 0 st2 = Some (Done st3)"
    and s: "store_view ops p arr (count_zeros (dt_mem ops p st) raw) str_view_empty st3 = Done st4"
    and v: "upd_prop a (\<lambda>q. q\<lparr>pr_type := COMPATIBLE\<rparr>) st4 = Done st'"
    by (rule rewrite_compatibleE [OF assms(2)])
  have "dt_prop_objs st4 = dt_prop_objs st2" "dt_prop_objs st1 = dt_prop_objs st"
    using same_props(2) [OF al] same_props(4) [OF s] compatible_loop_props [OF l] by simp_all
  moreover obtain q where "dt_prop_objs st2 = (dt_prop_objs st1)(a := Some (q\<lparr>pr_data := D_compatible_array arr\<rparr>))"
    using u by (auto simp: upd_prop_def bind_outcome_Done_iff)
  ultimately show ?thesis
    using assms(1) v
    by (auto simp: upd_prop_def bind_outcome_Done_iff deref_def typed_state_def typed_def
        intro!: typed_objs_upd split: if_split_asm)
qed

text \<open>The other rewritings end with a write of the type and the value.\<close>

lemma rewrite_u32_typed:
  "rewrite_u32 ops p t f a st = Done (w, st') \<Longrightarrow> typed_state st \<Longrightarrow> typed_as t (f w) \<Longrightarrow> typed_state st'"
  by (auto simp: rewrite_u32_def Let_def bind_outcome_Done_iff typed_def elim!: typed_upd_prop)

lemma rewrite_view_typed:
  "rewrite_view t f a st = Done st' \<Longrightarrow> typed_state st \<Longrightarrow> (\<And>v. typed_as t (f v)) \<Longrightarrow> typed_state st'"
  by (auto simp: rewrite_view_def bind_outcome_Done_iff typed_def elim!: typed_upd_prop)

lemma rewrite_status_typed:
  assumes "rewrite_status ops p a st = Done st'" and "typed_state st"
  shows "typed_state st'"
proof -
  obtain q raw where q: "get_prop a st = Done q" "raw_of q = Done raw"
    using assms(1) by (auto simp: rewrite_status_def bind_outcome_Done_iff)
  then have "typed (q'\<lparr>pr_type := STATUS\<rparr>)" if "dt_prop_objs st a = Some q'" for q'
    using that by (auto simp: get_prop_def deref_def raw_of_def typed_def split: if_split_asm prop_data.split_asm)
  then show ?thesis
    using assms q
    by (auto simp: rewrite_status_def bind_outcome_Done_iff Let_def typed_def split: if_split_asm
        elim!: typed_upd_prop)
qed

lemma rewrite_reg_typed:
  assumes "property_rewrite_reg ops p node a st = Done st'" and "typed_state st"
  shows "typed_state st'"
  using assms
  by (auto simp: property_rewrite_reg_def Let_def bind_outcome_Done_iff typed_def typed_state_same
      split: if_split_asm dest!: same_props(2) reg_loop_props elim!: typed_upd_prop [rotated])

lemma rewrite_ranges_typed:
  assumes "property_rewrite_ranges ops p node a st = Done st'" and "typed_state st"
  shows "typed_state st'"
  using assms
  by (auto simp: property_rewrite_ranges_def Let_def bind_outcome_Done_iff typed_def typed_state_same
      split: if_split_asm dest!: same_props(2) ranges_loop_props elim!: typed_upd_prop [rotated])

lemma rewrite_property_typed:
  assumes "typed_state st" and "rewrite_property ops p node a st = Done (r, st')"
  shows "typed_state st'"
proof -
  have set: "typed_state st'" if "upd_prop a (\<lambda>q. q\<lparr>pr_type := DMA_COHERENCE, pr_data := D_dma_coherence b\<rparr>) st = Done st'"
    for b st' using that assms(1) by (auto simp: typed_def elim!: typed_upd_prop)
  have flag: "typed_state st'" if "upd_prop a (\<lambda>q. q\<lparr>pr_type := INTERRUPT_CONTROLLER\<rparr>) st = Done st'"
    for st' using that assms(1) by (auto simp: typed_def elim!: typed_upd_prop)
  have word: "typed_state st'" if "rewrite_u32 ops p t f a st = Done (w, st')" "typed_as t (f w)" for t f w st'
    by (rule rewrite_u32_typed [OF that(1) assms(1) that(2)])
  have node: "typed_state st'" if "upd_node b f st1 = Done st'" "typed_state st1" for b f st1 st'
    by (rule typed_state_same [OF same_props(3) [OF that(1)] that(2)])
  have view: "typed_state st'" if "rewrite_view t f a st = Done st'" "\<And>v. typed_as t (f v)" for t f st'
    by (rule rewrite_view_typed [OF that(1) assms(1) that(2)])
  have out: "typed_state (st\<lparr>dt_out := o1\<rparr>)" for o1
    using assms(1) by (simp add: typed_state_def)
  note steps = set flag node out rewrite_compatible_typed [OF assms(1)]
    rewrite_status_typed [OF _ assms(1)]
  show ?thesis
    using assms unfolding rewrite_property_def
    by (auto simp: bind_outcome_Done_iff Let_def steps word [of PHANDLE D_phandle] word [of VIRTUAL_REG D_virtual_reg]
        word [of INTERRUPT_PARENT D_interrupt_parent] word [of INTERRUPT_CELLS D_interrupt_cells]
        word [of ADDRESS_CELLS D_address_cells] word [of SIZE_CELLS D_size_cells]
        view [of MODEL D_model] view [of DEVICE_TYPE D_device_type] split: if_split_asm)
qed

lemma rewrite_late_typed:
  assumes "typed_state st" and "rewrite_late ops p node a st = Done st'"
  shows "typed_state st'"
  using assms rewrite_reg_typed [OF _ assms(1)] rewrite_ranges_typed [OF _ assms(1)]
  by (auto simp: rewrite_late_def bind_outcome_Done_iff Let_def split: if_split_asm)

interpretation typed_pass: pass_invariant ops p typed_state for ops p
  by unfold_locales (fact rewrite_property_typed, fact rewrite_late_typed)

section \<open>From the blob to the end of the pass\<close>

text \<open>Parsing makes only raw properties.\<close>

lemma typed_copy: "typed_objs objs \<Longrightarrow> typed_objs (copy_objs sz old new n objs)"
proof (induction n arbitrary: old new objs)
  case (Suc n)
  then have "typed_objs (objs(new := objs old))" by (auto simp: typed_objs_def)
  then show ?case using Suc.IH by simp
qed simp

lemma typed_emplace:
  assumes "typed_state st" and "emplace_property ops p q st = Done (a, st')" and "typed q"
  shows "typed_state st'"
  using assms typed_copy
  by (auto simp: emplace_property_def stack_emplace_back_def stack_grow_def bind_outcome_Done_iff Let_def
      typed_state_def intro!: typed_objs_upd split: if_split_asm)

lemma emplace_other_props:
  "emplace_node ops p n st = Done (a, st') \<Longrightarrow> dt_prop_objs st' = dt_prop_objs st"
  "emplace_reserved ops p v st = Done st' \<Longrightarrow> dt_prop_objs st' = dt_prop_objs st"
  by (auto simp: emplace_node_def emplace_reserved_def bind_outcome_Done_iff)

lemma parse_node_props:
  "parse_node ops p c structs off st = Done (a, off', st') \<Longrightarrow> dt_prop_objs st' = dt_prop_objs st"
  by (auto simp: parse_node_def bind_outcome_Done_iff Let_def same_props(3) split: if_split_asm
      dest!: emplace_other_props(1))

lemma pre_parse_typed:
  assumes "typed_state st" and "pre_parse_property ops p c structs strings off st = Done (off', st')"
  shows "typed_state st'"
proof -
  obtain n e v a f st1 where
    m: "emplace_property ops p \<lparr>pr_name = n, pr_next = e, pr_type = RAW, pr_data = D_raw v\<rparr> st = Done (a, st1)"
    and u: "upd_node c f st1 = Done st'"
    using assms(2) by (auto simp: pre_parse_property_def bind_outcome_Done_iff Let_def)
  have "typed_state st1" by (rule typed_emplace [OF assms(1) m]) (simp add: typed_def)
  then show ?thesis by (rule typed_state_same [OF same_props(3) [OF u]])
qed

lemma parse_loop_typed:
  "parse_loop ops p structs strings c off d st = Some y \<Longrightarrow> typed_state st \<longrightarrow>
    (\<forall>st'. y = Done st' \<longrightarrow> typed_state st')"
proof (rule parse_loop.raw_induct [where P = "\<lambda>ops p structs strings c off d st y. typed_state st \<longrightarrow>
    (\<forall>st'. y = Done st' \<longrightarrow> typed_state st')"], goal_cases)
  case (1 loop ops p structs strings c off d st y)
  note IH = 1(2) [rule_format]
  show ?case
  proof (intro impI allI)
    fix st' assume g: "typed_state st" and y: "y = Done st'"
    have node: "typed_state st1" if "parse_node ops p c structs k st = Done (a, off1, st1)" for a off1 k st1
      using typed_state_same [OF parse_node_props [OF that] g] .
    show "typed_state st'"
      using 1(3) g unfolding y
      by (auto simp: Let_def bind_loop_Done_iff split: if_split_asm
          intro: IH node pre_parse_typed [OF g])
  qed
qed

lemma rsvmap_loop_props:
  "rsvmap_loop ops p r st = Some y \<Longrightarrow> \<forall>st'. y = Done st' \<longrightarrow> dt_prop_objs st' = dt_prop_objs st"
proof (rule rsvmap_loop.raw_induct [where P = "\<lambda>ops p r st y.
    \<forall>st'. y = Done st' \<longrightarrow> dt_prop_objs st' = dt_prop_objs st"], goal_cases)
  case (1 loop ops p r st y)
  then show ?case
    by (fastforce simp: Let_def bind_loop_Done_iff emplace_other_props split: if_split_asm)
qed

section \<open>Printing typed properties\<close>

text \<open>With the output ready, a list of printable pieces is printed.\<close>

definition ready_result :: "out outcome \<Rightarrow> bool" where
  "ready_result r \<longleftrightarrow> (\<exists>o1. r = Done o1 \<and> out_ready o1)"

lemma shows_ready: "shows_text t o1 r \<Longrightarrow> ready_result r"
  by (auto simp: shows_text_def ready_result_def)

lemma ready_println:
  "list_all2 piece ts prs \<Longrightarrow> out_ready o1 \<Longrightarrow> ready_result (fmt_println prs o1)"
  "list_all2 piece ts prs \<Longrightarrow> out_ready o1 \<Longrightarrow> ready_result (fmt_print prs o1)"
  by (rule shows_ready, erule (1) shows_print)+

lemma print_views_ready:
  "print_views m arr i o1 = Some y \<Longrightarrow> out_ready o1 \<longrightarrow> ready_result y"
proof (rule print_views.raw_induct [where P = "\<lambda>m arr i o1 y. out_ready o1 \<longrightarrow> ready_result y"], goal_cases)
  case (1 loop m arr i o1 y)
  note IH = 1(2) [rule_format]
  show ?case
  proof
    assume ready: "out_ready o1"
    show "ready_result y"
    proof (cases "sv_size (load_view m arr i) = 0")
      case True
      then show ?thesis using 1(3) ready by (auto simp: ready_result_def)
    next
      case False
      obtain o2 where o2: "(if i \<noteq> 0 then fmt_print [lit '', ''] o1 else Done o1) = Done o2" "out_ready o2"
        using ready_println(2) [of "[ascii '', '']" "[lit '', '']" o1] ready
        by (cases "i = 0") (auto simp: ready_result_def piece_lit)
      obtain o3 where "fmt_print [print_str_view m (load_view m arr i)] o2 = Done o3" "out_ready o3"
        using ready_println(2) [of "[sv_bytes m (load_view m arr i)]" "[print_str_view m (load_view m arr i)]" o2] o2(2)
        by (auto simp: ready_result_def piece_str_view)
      then show ?thesis
        using 1(3) False o2 IH by auto
    qed
  qed
qed

lemma print_value_typed:
  assumes "typed q" and "out_ready o1" and "\<not> (pr_type q = STATUS \<and> is_D_raw (pr_data q))"
  shows "ready_result (print_value m q o1) \<or> pr_type q = COMPATIBLE \<and> print_value m q o1 = Halt Spin"
proof (cases "pr_type q = COMPATIBLE")
  case True
  then obtain arr where q: "pr_data q = D_compatible_array arr"
    using assms(1) by (auto simp: typed_def is_D_compatible_array_def)
  obtain o2 where o2: "fmt_print [lit ''[''] o1 = Done o2" "out_ready o2"
    using ready_println(2) [of "[ascii ''['']" "[lit ''['']" o1] assms(2) by (auto simp: ready_result_def piece_lit)
  show ?thesis
  proof (cases "print_views m arr 0 o2")
    case None
    then show ?thesis using True q o2 by (simp add: print_value_def)
  next
    case (Some y)
    then obtain o3 where "y = Done o3" "out_ready o3"
      using print_views_ready [OF Some] o2(2) by (auto simp: ready_result_def)
    moreover have "ready_result (fmt_println [lit '']''] o3)"
      using ready_println(1) [of "[ascii '']'']" "[lit '']'']" o3] calculation by (simp add: piece_lit)
    ultimately show ?thesis using True q o2 Some by (simp add: print_value_def)
  qed
next
  case False
  note P = piece_lit piece_str_view piece_unsigned piece_unsigned32 piece_hex32
  have "ready_result (print_value m q o1)"
    using assms False
    by (cases "pr_type q"; cases "pr_data q")
      (auto simp: typed_def print_value_def print_status_def list_all2_Cons2 intro!: P
        ready_println(1) [OF _ assms(2)] split: device_status.split)
  then show ?thesis ..
qed

section \<open>Properties\<close>

lemma parse_from_blob_split:
  assumes "parse_from_blob ops p slash dtb st = Done (e, st')" and "typed_state st"
  shows "read_big_endian32 (dt_mem ops p st) dtb \<noteq> 0xD00DFEED \<and> e = error_of DT_MAGIC_NUMBER \<and> st' = st \<or>
    read_big_endian32 (dt_mem ops p st) dtb = 0xD00DFEED \<and>
    (\<exists>st1. typed_state st1 \<and> rewrite_pass ops p slash st1 = Done (e, st'))"
proof (cases "read_big_endian32 (dt_mem ops p st) dtb = 0xD00DFEED")
  case False
  then show ?thesis
    using assms(1) by (simp add: parse_from_blob_def hdr_magic_def read_big_endian32_def Let_def split: if_split_asm)
next
  case True
  then have m: "\<not> 0xD00DFEED \<noteq> flip_endianness32 (hdr_magic (dt_mem ops p st) dtb)"
    by (simp add: hdr_magic_def read_big_endian32_def)
  obtain r structs strings st1 st2 where one: "rsvmap_loop ops p r st = Some (Done st1)"
    and two: "parse_loop ops p structs strings 0 0 0 st1 = Some (Done st2)"
    and pass: "rewrite_pass ops p slash st2 = Done (e, st')"
    using assms(1) unfolding parse_from_blob_def Let_def if_not_P [OF m]
    by (auto simp only: bind_outcome_Done_iff join_spin_Done_iff)
  have "typed_state st1"
    using rsvmap_loop_props [OF one] assms(2) typed_state_same by blast
  then have "typed_state st2" using parse_loop_typed [OF two] by simp
  with True pass show ?thesis by blast
qed

lemma rewrite_pass_outcomes:
  assumes "rewrite_pass ops p slash st = Done (e, st')" and "typed_state st"
  shows "typed_state st' \<and>
    (e = error_of DT_NO_NODES \<and> st_size (dt_nodes st) = 0 \<and> st' = st \<or>
     e = error_of SUCCESS \<and> dt_initialized st' \<and>
       (\<exists>root nd. dt_node_objs st' root = Some nd \<and> nd_name nd = slash) \<or>
     (\<exists>c \<in> cells_errors. e = error_push c DT_REWRITE_FAILED))"
proof (cases "st_size (dt_nodes st) = 0")
  case True
  then show ?thesis using assms by (simp add: rewrite_pass_def)
next
  case False
  let ?root = "stack_index sizeof_node (dt_nodes st) 0"
  obtain st1 err st2 where one: "upd_node ?root (\<lambda>n. n\<lparr>nd_address_cells := 2, nd_size_cells := 1\<rparr>)
      (st\<lparr>dt_root := ?root\<rparr>) = Done st1"
    and rec: "recursive_property_rewrite ops p ?root st1 = Done (err, st2)"
    and tail: "(if is_err err then Done (error_push err DT_REWRITE_FAILED, st2)
           else bind_outcome (upd_node ?root (\<lambda>n. n\<lparr>nd_name := slash\<rparr>)
               (st2\<lparr>dt_initialized := True\<rparr>)) (\<lambda>st3. Done (error_of SUCCESS, st3))) = Done (e, st')"
    using assms(1) False by (auto simp: rewrite_pass_def Let_def bind_outcome_Done_iff)
  have "typed_state st1"
    using same_props(3) [OF one] assms(2) by (simp add: typed_state_def)
  note k = typed_pass.recursive_keeps [OF rec this]
  show ?thesis
  proof (cases "is_err err")
    case True
    then show ?thesis using tail k by (auto simp: is_err_def)
  next
    case False
    then obtain st3 where u: "upd_node ?root (\<lambda>n. n\<lparr>nd_name := slash\<rparr>) (st2\<lparr>dt_initialized := True\<rparr>) = Done st3"
      and e: "e = error_of SUCCESS" "st' = st3"
      using tail by (auto simp: bind_outcome_Done_iff)
    have "typed_state st3" using same_props(3) [OF u] k by (simp add: typed_state_def)
    moreover have "dt_initialized st3" "\<exists>nd. dt_node_objs st3 ?root = Some nd \<and> nd_name nd = slash"
      using u by (auto simp: upd_node_def bind_outcome_Done_iff)
    ultimately show ?thesis using e by blast
  qed
qed

lemma cells_error_unreadable:
  "c \<in> cells_errors \<Longrightarrow> m_stack (error_push c DT_REWRITE_FAILED) = 59"
  "c \<in> cells_errors \<Longrightarrow> error_str (error_push c DT_REWRITE_FAILED) = Halt Out_of_bounds"
  by (auto simp: cells_errors_def error_push_def error_of_def sizeof_ErrorCode_def error_str_def
      error_top_eq)

text \<open>
  C17. Type safety of properties. Parsing and rewriting keep the discipline of the union: when
  \<open>parse_from_blob\<close> returns, whatever the blob, every property holds the member that its type
  names, or is a status that still holds its raw value. Printing a property of the
  first kind never reads another member: it succeeds, or is a list of strings without end.
\<close>

theorem dt_properties_typed:
  assumes "parse_from_blob ops p slash dtb st = Done (e, st')" and "typed_state st"
    and "dt_prop_objs st' a = Some q" and "out_ready o1"
  shows "typed q \<and> (\<not> (pr_type q = STATUS \<and> is_D_raw (pr_data q)) \<longrightarrow>
    (\<exists>o2. print_value m q o1 = Done o2 \<and> out_ready o2) \<or>
    pr_type q = COMPATIBLE \<and> print_value m q o1 = Halt Spin)"
proof -
  have "typed_state st'"
    using parse_from_blob_split [OF assms(1,2)] rewrite_pass_outcomes assms(2) by blast
  then have "typed q" using assms(3) by (simp add: typed_state_def typed_objs_def)
  then show ?thesis
    using print_value_typed [of q o1 m] assms(4) by (auto simp: ready_result_def)
qed

text \<open>
  C18. The errors of parsing. When \<open>parse_from_blob\<close> returns, the error says which of four
  things happened: a wrong magic number, with nothing changed; a blob without nodes;
  success, and then the tree is marked as initialised and has a root named as the caller's literal;
  or a property with too many cells. In the last case the two codes are mixed on the
  error stack to 59, which is no error code, and reading the description, as the kernel's
  assertion does, reads past the end of the table.
\<close>

theorem dt_parse_errors:
  assumes "parse_from_blob ops p slash dtb st = Done (e, st')" and "typed_state st"
  shows "read_big_endian32 (dt_mem ops p st) dtb \<noteq> 0xD00DFEED \<and> e = error_of DT_MAGIC_NUMBER \<and> st' = st \<or>
    read_big_endian32 (dt_mem ops p st) dtb = 0xD00DFEED \<and>
     (e = error_of DT_NO_NODES \<and> st_size (dt_nodes st') = 0 \<or>
      e = error_of SUCCESS \<and> dt_initialized st' \<and>
        (\<exists>root nd. dt_node_objs st' root = Some nd \<and> nd_name nd = slash) \<or>
      m_stack e = 59 \<and> error_str e = Halt Out_of_bounds)"
  using parse_from_blob_split [OF assms] rewrite_pass_outcomes cells_error_unreadable by blast

text \<open>
  A blob whose structure block is empty, over a state with one node that has the property
  \<^verbatim>\<open>#address-cells\<close> with the value four.
\<close>

definition demo_cells :: "u64 \<Rightarrow> u8" where
  "demo_cells x = (case map_of [(0x1000, 0xD0), (0x1001, 0x0D), (0x1002, 0xFE), (0x1003, 0xED),
     (0x100B, 0x38), (0x1013, 0x28), (0x103B, 9), (0x1123, 4)] x of Some b \<Rightarrow> b
   | None \<Rightarrow> if unat (x - 0x1100) < 14 then ascii ''#address-cells'' ! unat (x - 0x1100) else 0)"

definition demo_cells_property :: property where
  "demo_cells_property = \<lparr>pr_name = \<lparr>sv_data = 0xFFFFFFC000001100, sv_size = 14\<rparr>, pr_next = 0,
     pr_type = RAW, pr_data = D_raw \<lparr>bv_data = 0xFFFFFFC000001120, bv_size = 4\<rparr>\<rparr>"

definition demo_cells_state :: "pmm dt_state" where
  "demo_cells_state = (dt_boot (pmm_boot demo_cells) (out_boot\<lparr>out_put_char := 7\<rparr>))\<lparr>
     dt_nodes := \<lparr>st_size = 1, st_capacity = 1, st_buffer = 0x100\<rparr>,
     dt_node_objs := [0x100 \<mapsto> \<lparr>nd_name = str_view_empty, nd_address_cells = 0, nd_size_cells = 0,
       nd_properties = 0x50, nd_parent = 0, nd_children = 0, nd_next_sibling = 0\<rparr>],
     dt_prop_objs := [0x50 \<mapsto> demo_cells_property]\<rparr>"

lemma demo_cells_words:
  "load32 demo_cells 0x1000 = 0xEDFE0DD0" "load32 demo_cells 0x1008 = 0x38000000"
  "load32 demo_cells 0x100C = 0" "load32 demo_cells 0x1010 = 0x28000000"
  "load64 demo_cells 0x1028 = 0" "read_big_endian32 demo_cells 0x1038 = 9"
  "read_big_endian32 demo_cells 0x1120 = 4"
  "load_bytes 14 demo_cells 0x1100 = ascii ''#address-cells''"
  by (simp_all add: read_big_endian32_def load32_def load64_def load_bytes_def upt_rec
      flip_endianness32_def demo_cells_def ascii_def)

lemma demo_cells_run:
  obtains st' where "parse_from_blob pmm_ops demo_platform str_view_empty 0xFFFFFFC000001000 demo_cells_state =
      Done (error_push (error_of DT_ADDRESS_CELLS_TOO_LARGE) DT_REWRITE_FAILED, st')"
    and "dt_prop_objs st' 0x50 = Some (demo_cells_property\<lparr>pr_type := ADDRESS_CELLS, pr_data := D_address_cells 4\<rparr>)"
    and "rewrite_pass pmm_ops demo_platform str_view_empty demo_cells_state =
      Done (error_push (error_of DT_ADDRESS_CELLS_TOO_LARGE) DT_REWRITE_FAILED, st')"
proof -
  let ?st = demo_cells_state
  have mem: "dt_mem pmm_ops demo_platform st v = demo_cells (v - 0xFFFFFFC000000000)"
    if "dt_sup st = pmm_boot demo_cells" for st :: "pmm dt_state" and v
    using that by (simp add: dt_mem_def pmm_boot_def hhdm_virt_to_phys_def demo_platform_def)
  have load: "load_bytes n (dt_mem pmm_ops demo_platform st) v = load_bytes n demo_cells (v - 0xFFFFFFC000000000)"
    if "dt_sup st = pmm_boot demo_cells" for st :: "pmm dt_state" and v n
    by (simp add: load_bytes_def mem [OF that] diff_add_eq)
  note R = load32_def [symmetric] load64_def [symmetric] read_big_endian32_def [symmetric] demo_cells_words
  have sup: "dt_sup ?st = pmm_boot demo_cells"
    by (simp add: demo_cells_state_def dt_boot_def)
  have l32: "load32 (dt_mem pmm_ops demo_platform ?st) v = load32 demo_cells (v - 0xFFFFFFC000000000)" for v
    by (simp add: load32_def load [OF sup])
  have l64: "load64 (dt_mem pmm_ops demo_platform ?st) v = load64 demo_cells (v - 0xFFFFFFC000000000)" for v
    by (simp add: load64_def load [OF sup])
  have rs: "rsvmap_loop pmm_ops demo_platform 0xFFFFFFC000001028 ?st = Some (Done ?st)"
    by (subst rsvmap_loop.simps) (simp add: l64 demo_cells_words)
  have pl: "parse_loop pmm_ops demo_platform 0xFFFFFFC000001038 0xFFFFFFC000001000 0 0 0 ?st = Some (Done ?st)"
    using demo_cells_words(6)
    by (subst parse_loop.simps) (simp add: read_big_endian32_def l32 STRUCTURE_BEGIN_NODE_def
        STRUCTURE_END_NODE_def STRUCTURE_PROP_def STRUCTURE_NOP_def STRUCTURE_END_def)
  have run: "parse_from_blob pmm_ops demo_platform str_view_empty 0xFFFFFFC000001000 ?st =
      rewrite_pass pmm_ops demo_platform str_view_empty ?st"
    using rs pl by (simp add: parse_from_blob_def hdr_magic_def hdr_offset_rsvmap_def hdr_offset_structs_def
        hdr_offset_strings_def l32 demo_cells_words flip_endianness32_def Let_def)
  define st1 where "st1 = ?st\<lparr>dt_root := 0x100, dt_node_objs := (dt_node_objs ?st)(0x100 \<mapsto>
    \<lparr>nd_name = str_view_empty, nd_address_cells = 2, nd_size_cells = 1, nd_properties = 0x50,
     nd_parent = 0, nd_children = 0, nd_next_sibling = 0\<rparr>)\<rparr>"
  have up: "upd_node 0x100 (\<lambda>n. n\<lparr>nd_address_cells := 2, nd_size_cells := 1\<rparr>) (?st\<lparr>dt_root := 0x100\<rparr>) = Done st1"
    by (simp add: upd_node_def deref_def st1_def demo_cells_state_def)
  have root: "stack_index sizeof_node (dt_nodes ?st) 0 = 0x100" "st_size (dt_nodes ?st) = 1"
    by (simp_all add: demo_cells_state_def stack_index_def)
  have sup1: "dt_sup st1 = pmm_boot demo_cells" by (simp add: st1_def sup)
  have name: "sv_bytes (dt_mem pmm_ops demo_platform st1) (pr_name demo_cells_property) = ascii ''#address-cells''"
    by (simp add: demo_cells_property_def Views.view_bytes_def load [OF sup1] demo_cells_words)
  have word: "read_big_endian32 (dt_mem pmm_ops demo_platform st1) 0xFFFFFFC000001120 = 4"
    using demo_cells_words(7) by (simp add: read_big_endian32_def load32_def load [OF sup1])
  define st2 where "st2 = st1\<lparr>dt_prop_objs := (dt_prop_objs st1)(0x50 \<mapsto>
    demo_cells_property\<lparr>pr_type := ADDRESS_CELLS, pr_data := D_address_cells 4\<rparr>)\<rparr>"
  have get: "get_prop 0x50 st1 = Done demo_cells_property"
    by (simp add: get_prop_def deref_def st1_def demo_cells_state_def)
  have "rewrite_property pmm_ops demo_platform 0x100 0x50 st1 =
      Done (Some (error_of DT_ADDRESS_CELLS_TOO_LARGE), st2)"
    using get word
    by (simp add: rewrite_property_def is_named_def compare_bytes_eq_0 name rewrite_u32_def raw_of_def
        upd_prop_def get_prop_def Let_def st2_def)
      (simp add: ascii_def demo_cells_property_def)
  then have "first_lap pmm_ops demo_platform 0x100 0x50 st1 =
      Some (Done (Some (error_of DT_ADDRESS_CELLS_TOO_LARGE), st2))"
    by (subst first_lap.simps) simp
  moreover have "get_node 0x100 st1 = Done \<lparr>nd_name = str_view_empty, nd_address_cells = 2, nd_size_cells = 1,
      nd_properties = 0x50, nd_parent = 0, nd_children = 0, nd_next_sibling = 0\<rparr>"
    by (simp add: get_node_def deref_def st1_def)
  ultimately have "recursive_property_rewrite pmm_ops demo_platform 0x100 st1 =
      Done (error_of DT_ADDRESS_CELLS_TOO_LARGE, st2)"
    by (simp add: recursive_property_rewrite_def rewrite_node_def)
  then have "rewrite_pass pmm_ops demo_platform str_view_empty ?st =
      Done (error_push (error_of DT_ADDRESS_CELLS_TOO_LARGE) DT_REWRITE_FAILED, st2)"
    by (simp add: rewrite_pass_def root up Let_def)
  then show ?thesis
    by (intro that [of st2]) (simp_all add: run st2_def)
qed

lemma demo_cells_typed: "typed_state demo_cells_state"
  by (simp add: typed_state_def typed_objs_def typed_def demo_cells_state_def demo_cells_property_def)

theorem dt_properties_typed_witness:
  "\<exists>st'. parse_from_blob pmm_ops demo_platform str_view_empty 0xFFFFFFC000001000 demo_cells_state =
      Done (\<lparr>m_stack = 59\<rparr>, st') \<and> (\<exists>q. dt_prop_objs st' 0x50 = Some q \<and> pr_type q = ADDRESS_CELLS \<and> typed q \<and>
      (\<exists>o2. print_value (\<lambda>_. 0) q (out_boot\<lparr>out_put_char := 7\<rparr>) = Done o2))"
proof -
  obtain st' where run: "parse_from_blob pmm_ops demo_platform str_view_empty 0xFFFFFFC000001000 demo_cells_state =
      Done (error_push (error_of DT_ADDRESS_CELLS_TOO_LARGE) DT_REWRITE_FAILED, st')"
    and q: "dt_prop_objs st' 0x50 = Some (demo_cells_property\<lparr>pr_type := ADDRESS_CELLS, pr_data := D_address_cells 4\<rparr>)"
    by (rule demo_cells_run)
  have ready: "out_ready (out_boot\<lparr>out_put_char := 7\<rparr>)" by (simp add: out_ready_def out_boot_def)
  have "error_push (error_of DT_ADDRESS_CELLS_TOO_LARGE) DT_REWRITE_FAILED = \<lparr>m_stack = 59\<rparr>"
    by (simp add: error_push_def error_of_def sizeof_ErrorCode_def)
  with dt_properties_typed [OF run demo_cells_typed q ready, of "\<lambda>_. 0"] run q show ?thesis by auto
qed

theorem dt_parse_errors_witness:
  "\<exists>e st'. parse_from_blob pmm_ops demo_platform str_view_empty 0xFFFFFFC000001000 demo_cells_state =
      Done (e, st') \<and> error_str e = Halt Out_of_bounds"
proof -
  obtain st' where run: "parse_from_blob pmm_ops demo_platform str_view_empty 0xFFFFFFC000001000 demo_cells_state =
      Done (error_push (error_of DT_ADDRESS_CELLS_TOO_LARGE) DT_REWRITE_FAILED, st')"
    by (rule demo_cells_run)
  have "error_push (error_of DT_ADDRESS_CELLS_TOO_LARGE) DT_REWRITE_FAILED \<noteq> error_of c" for c
    by (cases c) (simp_all add: error_push_def error_of_def sizeof_ErrorCode_def)
  with dt_parse_errors [OF run demo_cells_typed] run show ?thesis by auto
qed

end
