(* ===== verification/Device_Tree_Fields.thy ===== *)
theory Device_Tree_Fields
  imports Device_Tree_Pass Base_Properties
begin

text \<open>
  Arrays that are filled from entries of a blob. An entry has fields of one or two cells; each
  field has an array, and element \<open>i\<close> of the array gets, in the byte order of the machine, the field of
  entry \<open>i\<close>. What the loops of the second pass do is a fold over entries and fields; what the
  fold leaves behind, if the arrays do not meet each other or the blob, is proved once.
\<close>

section \<open>Stores through the direct map\<close>

definition with_mem :: "platform_info \<Rightarrow> mem \<Rightarrow> pmm dt_state \<Rightarrow> pmm dt_state" where
  "with_mem p m st = st\<lparr>dt_sup := (dt_sup st)\<lparr>pm_mem := (\<lambda>x. m (hhdm_phys_to_virt p x))\<rparr>\<rparr>"

lemma with_mem_simps [simp]:
  "dt_mem pmm_ops p (with_mem p m st) = m"
  "with_mem p m (with_mem p m1 st) = with_mem p m st"
  "dt_prop_objs (with_mem p m st) = dt_prop_objs st"
  "dt_node_objs (with_mem p m st) = dt_node_objs st"
  "dt_bump (with_mem p m st) = dt_bump st"
  by (simp_all add: with_mem_def dt_mem_def)

lemma with_mem_same: "with_mem p (dt_mem pmm_ops p st) st = st"
  by (simp add: with_mem_def dt_mem_def)

lemma store_bytes_shift:
  "store_bytes m (hhdm_virt_to_phys p a) bs x = store_bytes (\<lambda>v. m (hhdm_virt_to_phys p v)) a bs (hhdm_phys_to_virt p x)"
proof (induction bs arbitrary: m a)
  case (Cons b bs)
  have "hhdm_virt_to_phys p a + 1 = hhdm_virt_to_phys p (a + 1)"
    by (simp add: hhdm_virt_to_phys_def)
  moreover have "(\<lambda>v. (m(hhdm_virt_to_phys p a := b)) (hhdm_virt_to_phys p v)) =
      (\<lambda>v. m (hhdm_virt_to_phys p v))(a := b)"
    by (auto simp: hhdm_virt_to_phys_def fun_eq_iff)
  ultimately show ?case by (simp only: store_bytes.simps Cons.IH)
qed simp

lemma dt_store_with_mem:
  "a \<noteq> 0 \<Longrightarrow> dt_store pmm_ops p a bs st = Done (with_mem p (store_bytes (dt_mem pmm_ops p st) a bs) st)"
  by (simp add: dt_store_def with_mem_def dt_mem_def store_bytes_shift fun_eq_iff)

section \<open>One element\<close>

text \<open>The bytes of a number in the machine's order are the reverse of those in the blob.\<close>

lemma cells_bytes:
  "bytes_of 4 (read_big_endian32 m src) = rev (load_bytes 4 m src)"
  "bytes_of 8 (read_big_endian64 m src) = rev (load_bytes 8 m src)"
  using bytes_of_load [of 4 m src, where 'a = 32] bytes_of_load [of 8 m src, where 'a = 64]
  by (simp_all add: read_big_endian32_def load32_def read_big_endian64_def load64_def bytes_of_flip)

lemma store_cells:
  assumes "c \<in> {1, 2}" and "arr + of_nat (4 * c) * i \<noteq> 0"
  shows "store_address pmm_ops p z w (of_nat c) arr i src st =
      Done (with_mem p (store_bytes (dt_mem pmm_ops p st) (arr + of_nat (4 * c) * i)
        (rev (load_bytes (4 * c) (dt_mem pmm_ops p st) src))) st)"
    and "store_size pmm_ops p (of_nat c) arr i src st =
      Done (with_mem p (store_bytes (dt_mem pmm_ops p st) (arr + of_nat (4 * c) * i)
        (rev (load_bytes (4 * c) (dt_mem pmm_ops p st) src))) st)"
  using assms by (auto simp: store_address_def store_size_def Let_def dt_store_with_mem cells_bytes)

section \<open>Elements\<close>

lemma in_range_part:
  assumes "d + l \<le> 2 ^ 56"
  shows "in_range x (c + of_nat d, l) \<longleftrightarrow> d \<le> unat (x - c) \<and> unat (x - c) < d + l"
proof
  have d: "unat (of_nat d :: u64) = d" using assms by (intro unat_of_nat_64) simp
  assume "in_range x (c + of_nat d, l)"
  then have less: "unat (x - (c + of_nat d)) < l" by (simp add: in_range_def)
  have "unat (x - c) = unat (x - (c + of_nat d) + of_nat d)" by simp
  also have "\<dots> = unat (x - (c + of_nat d)) + d"
    using less assms by (intro unat_add_of_nat) simp
  finally show "d \<le> unat (x - c) \<and> unat (x - c) < d + l" using less by simp
next
  have d: "unat (of_nat d :: u64) = d" using assms by (intro unat_of_nat_64) simp
  assume *: "d \<le> unat (x - c) \<and> unat (x - c) < d + l"
  have "unat (x - c - of_nat d) = unat (x - c) - d"
    using * d by (simp add: unat_sub_cases)
  then show "in_range x (c + of_nat d, l)" using * by (simp add: in_range_def diff_diff_eq) linarith
qed

lemma element_size: "a * n \<le> 2 ^ 56 \<Longrightarrow> k < n \<Longrightarrow> a \<le> 18446744073709551616" for a k n :: nat
proof -
  assume "a * n \<le> 2 ^ 56" "k < n"
  moreover from this have "a * 1 \<le> a * n" by (intro mult_le_mono2) simp
  ultimately have "a \<le> 2 ^ 56" by linarith
  then show ?thesis by simp
qed

text \<open>The bytes of the elements \<open>i\<close> to \<open>n\<close> of an array with elements of \<open>a\<close> bytes.\<close>

definition part :: "u64 \<Rightarrow> nat \<Rightarrow> nat \<Rightarrow> nat \<Rightarrow> u64 set" where
  "part arr a i n = {x. a * i \<le> unat (x - arr) \<and> unat (x - arr) < a * n}"

lemma element_part:
  assumes "a * n \<le> 2 ^ 56" and "k < n"
  shows "in_range x (arr + of_nat (a * k), a) \<longleftrightarrow> x \<in> part arr a k (Suc k)"
proof -
  have "a * k + a \<le> a * n" using assms(2) by (metis Suc_leI mult_Suc_right mult_le_mono2 add.commute)
  then show ?thesis using assms(1) by (subst in_range_part) (auto simp: part_def algebra_simps)
qed

lemma part_mono: "i' \<le> i \<Longrightarrow> n \<le> n' \<Longrightarrow> part arr a i n \<subseteq> part arr a i' n'"
  by (auto simp: part_def dest: mult_le_mono2 [of i' i a] mult_le_mono2 [of n n' a] intro: le_trans less_le_trans)

lemma part_before: "x \<in> part arr a k (Suc k) \<Longrightarrow> k < i \<Longrightarrow> x \<notin> part arr a i n"
  using mult_le_mono2 [of "Suc k" i a] by (auto simp: part_def)

lemma load_bytes_part:
  assumes "a * n \<le> 2 ^ 56" and "k < n" and "\<And>x. x \<in> part arr a k (Suc k) \<Longrightarrow> m' x = m x"
  shows "load_bytes a m' (arr + of_nat (a * k)) = load_bytes a m (arr + of_nat (a * k))"
proof (rule load_bytes_frame)
  show "a \<le> 18446744073709551616" by (rule element_size [OF assms(1,2)])
  show "m' x = m x" if "in_range x (arr + of_nat (a * k), a)" for x
    using that assms(3) element_part [OF assms(1,2)] by simp
qed

text \<open>The element \<open>k\<close> is stored: what it holds then, and what stays the same.\<close>

lemma store_element:
  fixes arr :: u64 and m :: mem
  assumes "a * n \<le> 2 ^ 56" and "k < n" and "length bs = a"
  defines "m' \<equiv> store_bytes m (arr + of_nat (a * k)) bs"
  shows "load_bytes a m' (arr + of_nat (a * k)) = bs"
    and "x \<notin> part arr a k (Suc k) \<Longrightarrow> m' x = m x"
proof -
  have "length bs \<le> 18446744073709551616" using element_size [OF assms(1,2)] by (simp only: assms(3))
  from load_store_bytes [OF this, of m "arr + of_nat (a * k)"] show "load_bytes a m' (arr + of_nat (a * k)) = bs"
    by (simp only: m'_def assms(3))
  show "m' x = m x" if "x \<notin> part arr a k (Suc k)"
    using that element_part [OF assms(1,2)] by (simp add: m'_def assms(3) store_bytes_other)
qed

lemma len64: "LENGTH(64) = 64"
  by simp

lemma array_not_null:
  assumes "unat (arr :: u64) + a * n \<le> 2 ^ 64" and "arr \<noteq> 0" and "k < n" and "0 < a"
  shows "arr + of_nat a * of_nat k \<noteq> 0"
proof -
  have "a * k < a * n" using assms(3,4) by simp
  then have "unat (arr + of_nat (a * k)) = unat arr + a * k"
    using assms(1) unfolding len64 by (intro unat_add_of_nat [where 'a = 64, unfolded len64]) linarith
  moreover have "0 < unat arr" using assms(2) by (simp add: unat_gt_0)
  ultimately show ?thesis by (metis add_gr_0 less_numeral_extra(3) of_nat_mult unat_0)
qed

text \<open>The parts of an entry of the blob.\<close>

lemma entry_part:
  assumes "e * n \<le> 2 ^ 56" and "k < n" and "off + l \<le> e" and "in_range x (src + of_nat (e * k + off), l)"
  shows "x \<in> part src e 0 n"
proof -
  have "e * k + e \<le> e * n" using assms(2) by (metis Suc_leI mult_Suc_right mult_le_mono2 add.commute)
  then have le: "e * k + off + l \<le> e * n" using assms(3) by linarith
  then have "e * k + off + l \<le> 2 ^ 56" using assms(1) by linarith
  with assms(4) have "unat (x - src) < e * k + off + l" by (subst (asm) in_range_part) simp_all
  then show ?thesis using le by (simp only: part_def mem_Collect_eq) simp
qed

lemma le_value_append: "le_value (xs @ ys) = le_value xs + 256 ^ length xs * le_value ys"
  by (induction xs) (simp_all add: algebra_simps)

lemma le_value_rev: "le_value (rev bs) = be_value bs"
proof -
  have "foldl (\<lambda>acc b. 256 * acc + unat b) k bs = 256 ^ length bs * k + le_value (rev bs)" for k
    by (induction bs arbitrary: k) (simp_all add: le_value_append algebra_simps)
  then show ?thesis by (simp add: be_value_def)
qed

lemma load_bytes_split:
  "load_bytes (k + l) m a = load_bytes k m a @ load_bytes l m (a + of_nat k)"
  by (rule nth_equalityI) (auto simp: load_bytes_def nth_append not_less of_nat_diff algebra_simps)

section \<open>Fields\<close>

text \<open>A field: its array, the bytes of an element, and the offset in the entry.\<close>

type_synonym field = "u64 \<times> nat \<times> nat"

definition copy_field :: "u64 \<Rightarrow> nat \<Rightarrow> nat \<Rightarrow> field \<Rightarrow> mem \<Rightarrow> mem" where
  "copy_field src e i = (\<lambda>(D, w, off) m.
     store_bytes m (D + of_nat (w * i)) (rev (load_bytes w m (src + of_nat (e * i + off)))))"

fun field_part :: "nat \<Rightarrow> nat \<Rightarrow> field \<Rightarrow> u64 set" where
  "field_part i n (D, w, off) = part D w i n"

definition fields_ok :: "u64 \<Rightarrow> nat \<Rightarrow> nat \<Rightarrow> field list \<Rightarrow> bool" where
  "fields_ok src e n fs \<longleftrightarrow> distinct fs \<and> e * n \<le> 2 ^ 56 \<and>
     (\<forall>(D, w, off) \<in> set fs. w * n \<le> 2 ^ 56 \<and> off + w \<le> e \<and> part src e 0 n \<inter> part D w 0 n = {}) \<and>
     (\<forall>f \<in> set fs. \<forall>g \<in> set fs. f \<noteq> g \<longrightarrow> field_part 0 n f \<inter> field_part 0 n g = {})"

lemma fields_okD:
  assumes "fields_ok src e n fs" and "(D, w, off) \<in> set fs"
  shows "e * n \<le> 2 ^ 56" and "w * n \<le> 2 ^ 56" and "off + w \<le> e"
    and "x \<in> part src e 0 n \<Longrightarrow> x \<notin> part D w 0 n"
  using assms by (auto simp: fields_ok_def dest!: bspec)

lemma fold_product: "fold (\<lambda>(i, f). g i f) (List.product xs ys) m = fold (\<lambda>i. fold (g i) ys) xs m"
  by (induction xs arbitrary: m) (simp_all add: fold_map o_def)

text \<open>The elements of different jobs do not meet.\<close>

lemma jobs_apart:
  assumes "fields_ok src e n fs" and "f \<in> set fs" and "g \<in> set fs" and "i < n" and "j < n" and "(i, f) \<noteq> (j, g)"
  shows "field_part i (Suc i) f \<inter> field_part j (Suc j) g = {}"
proof (cases "f = g")
  case True
  obtain D w off where f: "f = (D, w, off)" by (cases f)
  have "i < j \<or> j < i" using True assms(6) by auto
  then show ?thesis
    using part_before [of _ D w i j "Suc j"] part_before [of _ D w j i "Suc i"] unfolding True [symmetric] f
    by auto
next
  case False
  have "field_part k (Suc k) h \<subseteq> field_part 0 n h" if "k < n" for k h
    using that by (cases h) (simp add: part_mono)
  then show ?thesis using assms False unfolding fields_ok_def by blast
qed

lemma copy_field_effect:
  assumes "fields_ok src e n fs" and "(D, w, off) \<in> set fs" and "i < n"
  shows "load_bytes w (copy_field src e i (D, w, off) m) (D + of_nat (w * i)) =
      rev (load_bytes w m (src + of_nat (e * i + off)))"
    and "x \<notin> field_part i (Suc i) (D, w, off) \<Longrightarrow> copy_field src e i (D, w, off) m x = m x"
proof -
  note w = fields_okD(2) [OF assms(1,2)]
  note E = store_element [OF w assms(3), where m = m and arr = D and bs = "rev (load_bytes w m (src + of_nat (e * i + off)))"]
  show "load_bytes w (copy_field src e i (D, w, off) m) (D + of_nat (w * i)) =
      rev (load_bytes w m (src + of_nat (e * i + off)))"
    using E(1) by (simp add: copy_field_def)
  show "x \<notin> field_part i (Suc i) (D, w, off) \<Longrightarrow> copy_field src e i (D, w, off) m x = m x"
    using E(2) by (simp add: copy_field_def)
qed

lemma entry_load_frame:
  assumes ok: "fields_ok src e n fs" and "(D, w, off) \<in> set fs" and "i < n"
    and same: "\<And>x. x \<in> part src e 0 n \<Longrightarrow> m' x = m x"
  shows "load_bytes w m' (src + of_nat (e * i + off)) = load_bytes w m (src + of_nat (e * i + off))"
proof (rule load_bytes_frame)
  note w = fields_okD(1-3) [OF ok assms(2)]
  show "w \<le> 18446744073709551616" by (rule element_size [OF w(2) assms(3)])
  show "m' x = m x" if "in_range x (src + of_nat (e * i + off), w)" for x
    by (rule same [OF entry_part [OF w(1) assms(3) w(3) that]])
qed

lemma jobs_fill:
  assumes ok: "fields_ok src e n fs"
  shows "distinct js \<Longrightarrow> set js \<subseteq> {..<n} \<times> set fs \<Longrightarrow>
    (\<forall>(i, D, w, off) \<in> set js. load_bytes w (fold (\<lambda>(i, f). copy_field src e i f) js m) (D + of_nat (w * i)) =
       rev (load_bytes w m (src + of_nat (e * i + off)))) \<and>
    (\<forall>x. (\<forall>(i, f) \<in> set js. x \<notin> field_part i (Suc i) f) \<longrightarrow>
       fold (\<lambda>(i, f). copy_field src e i f) js m x = m x)"
proof (induction js arbitrary: m)
  case Nil
  then show ?case by simp
next
  case (Cons j js)
  obtain i D w off where j: "j = (i, D, w, off)" by (cases j)
  let ?f = "(D, w, off)" let ?m1 = "copy_field src e i ?f m"
  have here: "?f \<in> set fs" "i < n" using Cons.prems j by auto
  note E = copy_field_effect [OF ok here]
  define m' where "m' = fold (\<lambda>(i, f). copy_field src e i f) js ?m1"
  have "(\<forall>(i, D, w, off) \<in> set js. load_bytes w m' (D + of_nat (w * i)) =
      rev (load_bytes w ?m1 (src + of_nat (e * i + off)))) \<and>
    (\<forall>x. (\<forall>(i, f) \<in> set js. x \<notin> field_part i (Suc i) f) \<longrightarrow> m' x = ?m1 x)"
    unfolding m'_def by (rule Cons.IH) (use Cons.prems in auto)
  note IH = bspec [OF this [THEN conjunct1], of "(_, _, _, _)", unfolded prod.case]
    this [THEN conjunct2, rule_format, unfolded case_prod_beta]
  have kept: "?m1 x = m x" if "x \<in> part src e 0 n" for x
  proof -
    have "part D w i (Suc i) \<subseteq> part D w 0 n" using here(2) by (simp add: part_mono)
    then show ?thesis using fields_okD(4) [OF ok here(1) that] by (intro E(2)) auto
  qed
  have "x \<notin> field_part k (Suc k) g" if "x \<in> part D w i (Suc i)" "(k, g) \<in> set js" for x k g
    using jobs_apart [OF ok here(1) _ here(2), of g k] Cons.prems that j by auto
  then have "m' x = ?m1 x" if "x \<in> part D w i (Suc i)" for x using that by (intro IH(2)) (metis prod.collapse)
  moreover note fields_okD(2) [OF ok here(1)]
  ultimately have "load_bytes w m' (D + of_nat (w * i)) = load_bytes w ?m1 (D + of_nat (w * i))"
    using here(2) by (intro load_bytes_part)
  then have first: "load_bytes w m' (D + of_nat (w * i)) = rev (load_bytes w m (src + of_nat (e * i + off)))"
    using E(1) by simp
  have "load_bytes w' m' (D' + of_nat (w' * k)) = rev (load_bytes w' m (src + of_nat (e * k + off')))"
    if "(k, D', w', off') \<in> set js" for k D' w' off'
    using IH(1) [OF that] entry_load_frame [OF ok _ _ kept, of D' w' off' k] that Cons.prems by auto
  moreover have "m' x = m x" if "\<forall>(k, f) \<in> set (j # js). x \<notin> field_part k (Suc k) f" for x
  proof -
    have "x \<notin> field_part (fst y) (Suc (fst y)) (snd y)" if "y \<in> set (j # js)" for y
      using \<open>\<forall>(k, f) \<in> set (j # js). x \<notin> field_part k (Suc k) f\<close> that by (cases y) auto
    from IH(2) [of x] this E(2) [of x] this [of j] show ?thesis by (simp add: j)
  qed
  ultimately show ?case using first unfolding j m'_def by auto
qed

text \<open>All entries, one after the other, with all their fields.\<close>

definition copy_entries :: "u64 \<Rightarrow> nat \<Rightarrow> field list \<Rightarrow> nat \<Rightarrow> nat \<Rightarrow> mem \<Rightarrow> mem" where
  "copy_entries src e fs i n m = fold (\<lambda>k. fold (copy_field src e k) fs) [i..<n] m"

lemma copy_entries_step:
  "i < n \<Longrightarrow> copy_entries src e fs i n m = copy_entries src e fs (Suc i) n (fold (copy_field src e i) fs m)"
  by (simp add: copy_entries_def upt_conv_Cons)

lemma copy_entries_end: "copy_entries src e fs n n m = m"
  by (simp add: copy_entries_def)

lemma fields_filled:
  assumes ok: "fields_ok src e n fs"
  shows "(D, w, off) \<in> set fs \<Longrightarrow> k < n \<Longrightarrow>
      load_bytes w (copy_entries src e fs 0 n m) (D + of_nat (w * k)) = rev (load_bytes w m (src + of_nat (e * k + off)))"
    and "(\<And>f. f \<in> set fs \<Longrightarrow> x \<notin> field_part 0 n f) \<Longrightarrow> copy_entries src e fs 0 n m x = m x"
proof -
  let ?js = "List.product [0..<n] fs"
  have "distinct ?js" using ok by (simp add: fields_ok_def distinct_product)
  moreover have "set ?js \<subseteq> {..<n} \<times> set fs" by auto
  ultimately have F: "\<forall>(i, D, w, off) \<in> set ?js. load_bytes w (copy_entries src e fs 0 n m) (D + of_nat (w * i)) =
       rev (load_bytes w m (src + of_nat (e * i + off)))"
    "\<forall>x. (\<forall>(i, f) \<in> set ?js. x \<notin> field_part i (Suc i) f) \<longrightarrow> copy_entries src e fs 0 n m x = m x"
    using jobs_fill [OF ok, of ?js m] unfolding copy_entries_def fold_product by blast+
  show "load_bytes w (copy_entries src e fs 0 n m) (D + of_nat (w * k)) = rev (load_bytes w m (src + of_nat (e * k + off)))"
    if "(D, w, off) \<in> set fs" "k < n"
    using F(1) that by fastforce
  show "copy_entries src e fs 0 n m x = m x" if "\<And>f. f \<in> set fs \<Longrightarrow> x \<notin> field_part 0 n f"
  proof -
    have "field_part k (Suc k) f \<subseteq> field_part 0 n f" if "k < n" for k f
      using that by (cases f) (simp add: part_mono)
    then have "\<forall>(i, f) \<in> set ?js. x \<notin> field_part i (Suc i) f" using that by fastforce
    then show ?thesis using F(2) by blast
  qed
qed

text \<open>A field that is the big-endian number of the blob, read as a number of the machine.\<close>

definition field_decoded :: "mem \<Rightarrow> mem \<Rightarrow> u64 \<Rightarrow> nat \<Rightarrow> nat \<Rightarrow> field \<Rightarrow> bool" where
  "field_decoded m m' src e k = (\<lambda>(D, w, off).
     le_value (load_bytes w m' (D + of_nat (w * k))) = be_value (load_bytes w m (src + of_nat (e * k + off))))"

lemma filled_decoded:
  assumes ok: "fields_ok src e n fs" and f: "f \<in> set fs" "k < n"
    and same: "\<And>x. x \<in> part src e 0 n \<Longrightarrow> m2 x = m x"
  shows "field_decoded m (copy_entries src e fs 0 n m2) src e k f"
proof -
  obtain D w off where "f = (D, w, off)" by (cases f)
  with f show ?thesis
    using fields_filled(1) [OF ok, of D w off k m2] entry_load_frame [OF ok _ f(2) same, of D w off]
    by (simp add: field_decoded_def le_value_rev)
qed

end
