(* ===== verification/Device_Tree_Cells.thy ===== *)
theory Device_Tree_Cells
  imports Device_Tree_Fields
begin

text \<open>
  Decoding of \<^verbatim>\<open>reg\<close> properties: the pairs of addresses and sizes of one or two cells are
  stored, in the byte order of the machine, in two arrays of the bump allocator.
\<close>

section \<open>The loop\<close>

lemma cells_offset:
  "c \<in> {1, 2} \<Longrightarrow> ucast (4 * (of_nat c :: u32)) = (of_nat (4 * c) :: u64)"
  by auto

text \<open>From element \<open>i\<close> on, for arrays that do not contain the address zero.\<close>

lemma reg_loop_copies:
  assumes cd: "c \<in> {1, 2}" "d \<in> {1, 2}" and n: "n < 2 ^ 64"
    and A: "unat A + 4 * c * n \<le> 2 ^ 64" "A \<noteq> 0" and S: "unat S + 4 * d * n \<le> 2 ^ 64" "S \<noteq> 0"
  defines "e \<equiv> 4 * c + 4 * d"
  shows "i \<le> n \<Longrightarrow> reg_loop pmm_ops p (of_nat c) (of_nat d) src A S (of_nat n) (of_nat i) (of_nat (e * i)) st =
    Done (with_mem p (copy_entries src e [(A, 4 * c, 0), (S, 4 * d, 4 * c)] i n (dt_mem pmm_ops p st)) st)"
proof (induction "n - i" arbitrary: i st)
  case 0
  then have "i = n" by simp
  then show ?case by (subst reg_loop.simps) (simp add: with_mem_same copy_entries_end)
next
  case (Suc r)
  let ?fs = "[(A, 4 * c, 0), (S, 4 * d, 4 * c)]"
  have i: "i < n" using Suc.hyps(2) by simp
  have lt: "(of_nat i :: u64) < of_nat n"
    using i n by (simp add: word_less_nat_alt unat_of_nat_64)
  have "0 < 4 * c" "0 < 4 * d" using cd by auto
  then have nz: "A + of_nat (4 * c) * of_nat i \<noteq> 0" "S + of_nat (4 * d) * of_nat i \<noteq> 0"
    using array_not_null [OF A i] array_not_null [OF S i] by simp_all
  have "reg_loop pmm_ops p (of_nat c) (of_nat d) src A S (of_nat n) (of_nat i) (of_nat (e * i)) st =
      reg_loop pmm_ops p (of_nat c) (of_nat d) src A S (of_nat n) (of_nat (Suc i)) (of_nat (e * Suc i))
        (with_mem p (fold (copy_field src e i) ?fs (dt_mem pmm_ops p st)) st)"
    using lt store_cells(1) [OF cd(1) nz(1)] store_cells(2) [OF cd(2) nz(2)]
      cells_offset [OF cd(1)] cells_offset [OF cd(2)]
    by (subst reg_loop.simps) (simp add: Let_def copy_field_def e_def algebra_simps)
  moreover have "r = n - Suc i" "Suc i \<le> n" using Suc.hyps(2) i by simp_all
  note IH = Suc.hyps(1) [OF this, of "with_mem p (fold (copy_field src e i) ?fs (dt_mem pmm_ops p st)) st"]
  ultimately show ?case using IH by (simp only: with_mem_simps copy_entries_step [OF i])
qed

section \<open>The arrays\<close>

lemma part_area: "x \<in> part arr a 0 n \<longleftrightarrow> hhdm_virt_to_phys p x \<in> area_bytes (hhdm_virt_to_phys p arr, a * n)"
  by (simp add: part_def area_bytes_def in_range_def hhdm_virt_to_phys_def)

lemma part_less: "w \<le> w' \<Longrightarrow> part D w 0 n \<subseteq> part D w' 0 n"
  by (auto simp: part_def intro: less_le_trans mult_le_mono1)

lemma dt_alloc_bump:
  "dt_alloc pmm_ops p n al st = Done (A, st') \<longleftrightarrow>
    (\<exists>b s. bump_alloc_aligned pmm_ops p n al (dt_bump st, dt_sup st) = Done (A, b, s) \<and>
      st' = st\<lparr>dt_bump := b, dt_sup := s\<rparr>)"
  by (auto simp: dt_alloc_def bind_outcome_Done_iff)

text \<open>An array of the bump allocator: what a block of elements of one or two cells is.\<close>

lemma cells_alloc:
  assumes inv: "bump_inv pmm_ops (pmm_sound buf) (pmm_reserved buf) p (dt_bump st, dt_sup st)"
    and c: "c \<in> {1, 2}" and n: "0 < n" "n \<le> 1000"
    and run: "dt_alloc pmm_ops p (of_nat (4 * c * n)) (of_nat (4 * c)) st = Done (A, st')"
    and up: "bm_current_region (dt_bump st') \<noteq> hhdm_phys_to_virt p 0"
  defines "own \<equiv> \<lambda>st. {x. hhdm_virt_to_phys p x \<in>
      bump_owned pmm_ops (pmm_reserved buf) p (dt_bump st, dt_sup (st :: pmm dt_state))}"
  shows "bump_inv pmm_ops (pmm_sound buf) (pmm_reserved buf) p (dt_bump st', dt_sup st')"
    and "part A (4 * c) 0 n \<subseteq> own st" and "own st' \<subseteq> own st - part A (4 * c) 0 n"
    and "A \<noteq> 0" and "unat A + 4 * c * n \<le> 2 ^ 64"
    and "\<forall>x. x \<notin> own st \<longrightarrow> dt_mem pmm_ops p st' x = dt_mem pmm_ops p st x"
    and "dt_prop_objs st' = dt_prop_objs st" and "dt_node_objs st' = dt_node_objs st"
proof -
  obtain b s where al: "bump_alloc_aligned pmm_ops p (of_nat (4 * c * n)) (2 ^ Suc c) (dt_bump st, dt_sup st) =
      Done (A, b, s)" and st': "st' = st\<lparr>dt_bump := b, dt_sup := s\<rparr>"
    using run c by (auto simp: dt_alloc_bump)
  have sz: "unat (of_nat (4 * c * n) :: u64) = 4 * c * n"
    using c n by (intro unat_of_nat_64) auto
  have small: "small_request (of_nat (4 * c * n)) (Suc c)"
    unfolding small_request_def sz using c n by auto
  have up': "bm_current_region (fst (b, s)) \<noteq> hhdm_phys_to_virt p 0" using up st' by simp
  note B = pmm_pages.bump_acquire_cases [OF inv small al up', unfolded sz]
  show "bump_inv pmm_ops (pmm_sound buf) (pmm_reserved buf) p (dt_bump st', dt_sup st')"
    using B(1) st' by simp
  show "part A (4 * c) 0 n \<subseteq> own st" using B(2) by (auto simp: own_def part_area [of _ _ _ _ p])
  show "own st' \<subseteq> own st - part A (4 * c) 0 n"
    using B(3) st' by (auto simp: own_def part_area [of _ _ _ _ p])
  show "A \<noteq> 0" "unat A + 4 * c * n \<le> 2 ^ 64" using B(5,7) by simp_all
  show "\<forall>x. x \<notin> own st \<longrightarrow> dt_mem pmm_ops p st' x = dt_mem pmm_ops p st x"
    using B(6) st' by (simp add: own_def dt_mem_def)
  show "dt_prop_objs st' = dt_prop_objs st" "dt_node_objs st' = dt_node_objs st" using st' by simp_all
qed

text \<open>The property is a whole number of pairs.\<close>

lemma reg_division:
  fixes sz :: u64
  assumes "c \<in> {1, 2}" "d \<in> {1, 2}" and "unat sz = (4 * c + 4 * d) * n" "0 < n" "n \<le> 1000"
  shows "sz div of_nat (4 * c + 4 * d) = of_nat n" "sz mod of_nat (4 * c + 4 * d) = 0"
    "(of_nat (4 * c + 4 * d) :: u64) \<noteq> 0" "(of_nat n :: u64) \<noteq> 0"
proof -
  let ?e = "4 * c + 4 * d"
  have "unat (of_nat ?e :: u64) = ?e" "unat (of_nat n :: u64) = n"
    using assms(1,2,5) by (auto intro!: unat_of_nat_64)
  moreover have "0 < ?e" using assms(1) by auto
  ultimately show "sz div of_nat ?e = of_nat n" "sz mod of_nat ?e = 0"
    "(of_nat ?e :: u64) \<noteq> 0" "(of_nat n :: u64) \<noteq> 0"
    using assms(3,4) by (auto simp: word_unat_eq_iff unat_div unat_mod simp del: of_nat_add of_nat_mult)
qed

text \<open>After the two allocations the loop fills the arrays from the blob as it was before them.\<close>

lemma reg_arrays_filled:
  assumes inv: "bump_inv pmm_ops (pmm_sound buf) (pmm_reserved buf) p (dt_bump st, dt_sup st)"
    and cells: "c \<in> {1, 2}" "d \<in> {1, 2}" and n: "0 < n" "n \<le> 1000"
    and free: "\<forall>x. in_range x (src, (4 * c + 4 * d) * n) \<longrightarrow> hhdm_virt_to_phys p x \<notin>
      bump_owned pmm_ops (pmm_reserved buf) p (dt_bump st, dt_sup st)"
    and room: "dt_alloc pmm_ops p (of_nat (4 * c * n)) (of_nat (4 * c)) st = Done (A, st1)"
      "bm_current_region (dt_bump st1) \<noteq> hhdm_phys_to_virt p 0"
      "dt_alloc pmm_ops p (of_nat (4 * d * n)) (of_nat (4 * d)) st1 = Done (S, st2)"
      "bm_current_region (dt_bump st2) \<noteq> hhdm_phys_to_virt p 0"
  obtains m' where "reg_loop pmm_ops p (of_nat c) (of_nat d) src A S (of_nat n) 0 0 st2 =
      Done (with_mem p m' st2)"
    and "\<And>k f. k < n \<Longrightarrow> f \<in> set [(A, 4 * c, 0), (S, 4 * d, 4 * c)] \<Longrightarrow>
      field_decoded (dt_mem pmm_ops p st) m' src (4 * c + 4 * d) k f"
    and "A \<noteq> 0" and "S \<noteq> 0" and "dt_prop_objs st2 = dt_prop_objs st"
proof -
  note one = cells_alloc [OF inv cells(1) n room(1,2)]
  note two = cells_alloc [OF one(1) cells(2) n room(3,4)]
  let ?e = "4 * c + 4 * d" and ?fs = "[(A, 4 * c, 0), (S, 4 * d, 4 * c)]"
  let ?own = "\<lambda>st :: pmm dt_state. {x. hhdm_virt_to_phys p x \<in>
    bump_owned pmm_ops (pmm_reserved buf) p (dt_bump st, dt_sup st)}"
  have pos: "0 < c" "0 < d" using cells by auto
  have small: "?e * n \<le> 2 ^ 56" "4 * c * n \<le> 2 ^ 56" "4 * d * n \<le> 2 ^ 56" "n < 2 ^ 64"
    using cells n(2) by auto
  have outside: "part src ?e 0 n \<inter> ?own st = {}" using free by (auto simp: part_def in_range_def)
  have apart: "part A (4 * c) 0 n \<inter> part S (4 * d) 0 n = {}" "part src ?e 0 n \<inter> part A (4 * c) 0 n = {}"
      "part src ?e 0 n \<inter> part S (4 * d) 0 n = {}"
    using one(2,3) two(2) outside by blast+
  then have ok: "fields_ok src ?e n ?fs" using small pos by (auto simp: fields_ok_def)
  have same: "dt_mem pmm_ops p st2 x = dt_mem pmm_ops p st x" if "x \<in> part src ?e 0 n" for x
  proof -
    have "x \<notin> ?own st" "x \<notin> ?own st1" using that one(3) outside by blast+
    then show ?thesis using one(6) two(6) by simp
  qed
  have "reg_loop pmm_ops p (of_nat c) (of_nat d) src A S (of_nat n) 0 0 st2 =
      Done (with_mem p (copy_entries src ?e ?fs 0 n (dt_mem pmm_ops p st2)) st2)"
    using reg_loop_copies [OF cells small(4) one(5,4) two(5,4), of 0 p src st2] by simp
  moreover have "field_decoded (dt_mem pmm_ops p st) (copy_entries src ?e ?fs 0 n (dt_mem pmm_ops p st2)) src ?e k f"
    if "k < n" "f \<in> set ?fs" for k f
    by (rule filled_decoded [OF ok that(2,1)]) (rule same)
  ultimately show ?thesis
    using one(4,7) two(4,7) by (intro that) (assumption | simp)+
qed

text \<open>
  C19. Decoding of \<^verbatim>\<open>reg\<close>. Take a raw property whose value is a whole number of pairs, at most
  a thousand, of an address of one or two cells and a size of one or two cells, as the
  parent node says, in memory that the bump allocator does not own. If the allocator has room for
  the two arrays, the property becomes a \<^verbatim>\<open>REG\<close> with the number of pairs and the arrays, and
  element \<open>k\<close> of each array, read as a number of the machine, is the big-endian number that
  pair \<open>k\<close> of the blob holds.
\<close>

theorem dt_reg_decoding:
  assumes inv: "bump_inv pmm_ops (pmm_sound buf) (pmm_reserved buf) p (dt_bump st, dt_sup st)"
    and objs: "get_prop a st = Done q" "pr_data q = D_raw bv" "get_node node st = Done nd"
      "get_node (nd_parent nd) st = Done pnd"
    and cells: "nd_address_cells pnd = of_nat c" "nd_size_cells pnd = of_nat d" "c \<in> {1, 2}" "d \<in> {1, 2}"
    and len: "unat (bv_size bv) = (4 * c + 4 * d) * n" "0 < n" "n \<le> 1000"
    and free: "\<forall>x. in_range x (bv_data bv, unat (bv_size bv)) \<longrightarrow> hhdm_virt_to_phys p x \<notin>
      bump_owned pmm_ops (pmm_reserved buf) p (dt_bump st, dt_sup st)"
    and room: "dt_alloc pmm_ops p (of_nat (4 * c * n)) (of_nat (4 * c)) st = Done (A, st1)"
      "bm_current_region (dt_bump st1) \<noteq> hhdm_phys_to_virt p 0"
      "dt_alloc pmm_ops p (of_nat (4 * d * n)) (of_nat (4 * d)) st1 = Done (S, st2)"
      "bm_current_region (dt_bump st2) \<noteq> hhdm_phys_to_virt p 0"
  shows "\<exists>st'. property_rewrite_reg pmm_ops p node a st = Done st' \<and>
    dt_prop_objs st' = (dt_prop_objs st)(a \<mapsto> q\<lparr>pr_type := REG, pr_data := D_reg (of_nat n) A S\<rparr>) \<and>
    (\<forall>k < n.
      le_value (load_bytes (4 * c) (dt_mem pmm_ops p st') (A + of_nat (4 * c * k))) =
        be_value (load_bytes (4 * c) (dt_mem pmm_ops p st) (bv_data bv + of_nat ((4 * c + 4 * d) * k))) \<and>
      le_value (load_bytes (4 * d) (dt_mem pmm_ops p st') (S + of_nat (4 * d * k))) =
        be_value (load_bytes (4 * d) (dt_mem pmm_ops p st)
          (bv_data bv + of_nat ((4 * c + 4 * d) * k + 4 * c))))"
proof -
  let ?e = "4 * c + 4 * d" and ?reg = "q\<lparr>pr_type := REG, pr_data := D_reg (of_nat n) A S\<rparr>"
  obtain m' where m': "reg_loop pmm_ops p (of_nat c) (of_nat d) (bv_data bv) A S (of_nat n) 0 0 st2 =
      Done (with_mem p m' st2)" "A \<noteq> 0" "S \<noteq> 0" "dt_prop_objs st2 = dt_prop_objs st"
    "\<And>k f. k < n \<Longrightarrow> f \<in> set [(A, 4 * c, 0), (S, 4 * d, 4 * c)] \<Longrightarrow>
      field_decoded (dt_mem pmm_ops p st) m' (bv_data bv) ?e k f"
    using reg_arrays_filled [OF inv cells(3,4) len(2,3) free [unfolded len(1)] room] by metis
  define st' where "st' = (with_mem p m' st2)\<lparr>dt_prop_objs := (dt_prop_objs st)(a \<mapsto> ?reg)\<rparr>"
  have e: "ucast (4 * (of_nat c :: u32) + 4 * of_nat d) = (of_nat ?e :: u64)"
    using cells(3,4) by auto
  note div = reg_division [OF cells(3,4) len]
  have up: "upd_prop a (\<lambda>q. q\<lparr>pr_type := REG, pr_data := D_reg (of_nat n) A S\<rparr>) (with_mem p m' st2) = Done st'"
    using objs(1) m'(4) by (simp add: upd_prop_def get_prop_def st'_def)
  have sz: "of_nat (4 * c) * of_nat n = (of_nat (4 * c * n) :: u64)"
    "of_nat (4 * d) * of_nat n = (of_nat (4 * d * n) :: u64)"
    by simp_all
  have nz: "4 * (of_nat c :: u32) \<noteq> 0" "4 * (of_nat d :: u32) \<noteq> 0" "\<not> (of_nat c :: u32) > 3" "\<not> (of_nat d :: u32) > 2"
    using cells(3,4) by auto
  have "property_rewrite_reg pmm_ops p node a st = Done st'"
    unfolding property_rewrite_reg_def objs(1,3,4) raw_of_def objs(2) bind_outcome.simps prop_data.case Let_def
      cells(1,2) e div(1,2) cells_offset [OF cells(3)] cells_offset [OF cells(4)] sz room(1,3) prod.case
    using div(3,4) nz m'(1-3) up by (simp add: room(1,3) del: of_nat_add of_nat_mult)
  moreover have "dt_mem pmm_ops p st' = m'" by (simp add: st'_def with_mem_def dt_mem_def)
  moreover have "dt_prop_objs st' = (dt_prop_objs st)(a \<mapsto> ?reg)"
    by (simp add: st'_def)
  ultimately show ?thesis
    using m'(5) [of _ "(A, 4 * c, 0)"] m'(5) [of _ "(S, 4 * d, 4 * c)"]
    by (intro exI [of _ st']) (simp add: field_decoded_def del: of_nat_add of_nat_mult)
qed

text \<open>A block that fits the current region is taken from it, at its end if that is aligned.\<close>

lemma bump_alloc_room:
  assumes sound: "pmm_sound buf s" and list: "bm_region_list b \<noteq> 0"
    and reg: "bump_region p (pmm_reserved buf s) (pm_mem s) (bm_current_region b) k n"
    and j: "j \<le> 12" "0 < unat sz" "k + unat sz + 2 ^ j \<le> n"
  obtains ptr s' k' where "bump_alloc_aligned pmm_ops p sz (2 ^ j) (b, s) = Done (ptr, b, s')"
    and "pmm_sound buf s'" and "pmm_reserved buf s' = pmm_reserved buf s"
    and "bump_region p (pmm_reserved buf s') (pm_mem s') (bm_current_region b) k' n"
    and "k' \<le> k + unat sz + 2 ^ j"
    and "2 ^ j dvd unat (bm_current_region b + of_nat k) \<Longrightarrow>
      ptr = bm_current_region b + of_nat k \<and> k' = k + unat sz"
proof -
  let ?r = "bm_current_region b"
  let ?al = "align_up (?r + of_nat k) (2 ^ j)"
  note A = pmm_pages.unat_align_small [OF reg j(1)] and B = bump_region_bounds [OF reg]
  have r: "?r \<noteq> 0" "br_end p (pm_mem s) ?r = ?r + of_nat n" "br_curr p (pm_mem s) ?r = ?r + of_nat k"
    using reg by (simp_all add: bump_region_def)
  have fits: "unat ?al + unat sz \<le> unat ?r + n" using A(2) j(3) by linarith
  define s' where "s' = po_put pmm_ops (set_curr p ?r (?al + sz) (set_curr p ?r ?al (po_mem pmm_ops s))) s"
  note T = pmm_pages.take_from_region [OF sound _ j(1) refl fits, of p, folded s'_def]
  have sum: "unat (?al + sz) = unat ?al + unat sz"
    using A B j by (subst unat_add_nowrap) simp_all
  have "unat (?r + of_nat n) = unat ?r + n" by (rule unat_region_add [OF reg]) simp
  then have "\<not> ?r + of_nat n < ?al + sz" using fits sum by (simp add: word_less_nat_alt)
  moreover have "(2 :: u64) ^ j \<noteq> 0" using unat_pow_64 [of j] j(1) by (auto simp flip: unat_eq_0)
  moreover have "sz \<noteq> 0" using j(2) by auto
  ultimately have run: "bump_alloc_aligned pmm_ops p sz (2 ^ j) (b, s) = Done (?al, b, s')"
    using r list by (simp add: bump_alloc_aligned_def bump_ensure_def Let_def s'_def)
  have near: "unat ?al - unat ?r + unat sz \<le> k + unat sz + 2 ^ j" using A(2) by linarith
  have exact: "?al = ?r + of_nat k \<and> unat ?al - unat ?r + unat sz = k + unat sz"
    if "2 ^ j dvd unat (?r + of_nat k)"
  proof -
    have "?al = ?r + of_nat k" using that j(1) by (intro align_up_id) simp_all
    moreover have "unat (?r + of_nat k) = unat ?r + k" using j(3) by (intro unat_region_add [OF reg]) simp
    ultimately show ?thesis by simp
  qed
  show ?thesis
    by (rule that [OF run _ _ _ near exact]) (use T(1-3) reg in simp_all)
qed

text \<open>A machine with a region of the bump allocator, and a blob elsewhere.\<close>

lemma demo_bump_machine:
  obtains s and b :: bump_alloc where "pmm_sound demo_buf s" and "bm_region_list b \<noteq> 0"
    and "bump_region demo_platform (pmm_reserved demo_buf s) (pm_mem s) (bm_current_region b) 24 65536"
    and "bm_current_region b = 0xFFFFFFC000200000"
    and "bm_current_region b \<noteq> hhdm_phys_to_virt demo_platform 0"
    and "bump_inv pmm_ops (pmm_sound demo_buf) (pmm_reserved demo_buf) demo_platform (b, s)"
    and "\<And>x. in_range x (0xFFFFFFC000100000, 16) \<Longrightarrow>
      hhdm_virt_to_phys demo_platform x \<notin> bump_owned pmm_ops (pmm_reserved demo_buf) demo_platform (b, s)"
proof -
  let ?p = demo_platform
  obtain s and b :: bump_alloc where sound: "pmm_sound demo_buf s" and view: "pmm_view s = [fresh_view 0x80000000 0x10000]"
    and list: "bm_region_list b \<noteq> 0"
    and reg: "bump_region ?p (pmm_reserved demo_buf s) (pm_mem s) (bm_current_region b) 24 65536"
    and at: "bm_current_region b = hhdm_phys_to_virt ?p 0x200000"
    by (rule demo_region [of 24 65536]) simp_all
  have inv: "bump_inv pmm_ops (pmm_sound demo_buf) (pmm_reserved demo_buf) ?p (b, s)"
    using sound list reg demo_direct_map [OF view] by (auto simp: bump_inv_def)
  have free: "hhdm_virt_to_phys ?p x \<notin> bump_owned pmm_ops (pmm_reserved demo_buf) ?p (b, s)"
    if "in_range x (0xFFFFFFC000100000, 16)" for x
  proof -
    have "unat (x - 0xFFFFFFC000100000 + 0x100000) < 0x100100"
      using that by (subst unat_add_nowrap) (simp_all add: in_range_def)
    then have small: "unat (hhdm_virt_to_phys ?p x) < 0x100100"
      by (simp add: hhdm_virt_to_phys_def demo_platform_def)
    have "hhdm_virt_to_phys ?p x \<notin> pmm_reserved demo_buf s"
      using small view by (auto simp: pmm_reserved_def pmm_owned_def view_bytes_def fresh_view_def demo_buf_def
          in_range_nowrap)
    moreover have "hhdm_virt_to_phys ?p x \<notin> area_bytes (hhdm_virt_to_phys ?p (bm_current_region b), 24) \<union>
        area_bytes (hhdm_virt_to_phys ?p (bm_current_region b) + of_nat 24, 65536 - 24)"
      using small by (simp add: at area_bytes_def in_range_nowrap)
    ultimately show ?thesis
      using bump_owned_region [of ?p "pmm_reserved demo_buf" s pmm_ops b 24 65536] reg by simp
  qed
  have at': "bm_current_region b = 0xFFFFFFC000200000" "bm_current_region b \<noteq> hhdm_phys_to_virt ?p 0"
    unfolding at by (simp_all add: hhdm_phys_to_virt_def demo_platform_def)
  show ?thesis by (rule that [OF sound list reg at' inv free])
qed

definition demo_reg_property :: property where
  "demo_reg_property = \<lparr>pr_name = str_view_empty, pr_next = 0, pr_type = RAW,
     pr_data = D_raw \<lparr>bv_data = 0xFFFFFFC000100000, bv_size = 12\<rparr>\<rparr>"

definition demo_reg_node :: node where
  "demo_reg_node = \<lparr>nd_name = str_view_empty, nd_address_cells = 2, nd_size_cells = 1,
     nd_properties = 0, nd_parent = 0x100, nd_children = 0, nd_next_sibling = 0\<rparr>"

theorem dt_reg_decoding_witness:
  "\<exists>(st :: pmm dt_state) st' A S. property_rewrite_reg pmm_ops demo_platform 0x100 0x50 st = Done st' \<and>
    dt_prop_objs st' = [0x50 \<mapsto> demo_reg_property\<lparr>pr_type := REG, pr_data := D_reg 1 A S\<rparr>] \<and>
    le_value (load_bytes 8 (dt_mem pmm_ops demo_platform st') A) =
      be_value (load_bytes 8 (dt_mem pmm_ops demo_platform st) 0xFFFFFFC000100000)"
proof -
  let ?p = demo_platform
  obtain s and b :: bump_alloc where sound: "pmm_sound demo_buf s" and list: "bm_region_list b \<noteq> 0"
    and reg: "bump_region ?p (pmm_reserved demo_buf s) (pm_mem s) (bm_current_region b) 24 65536"
    and at: "bm_current_region b = 0xFFFFFFC000200000"
    and here: "bm_current_region b \<noteq> hhdm_phys_to_virt ?p 0"
    and bump: "bump_inv pmm_ops (pmm_sound demo_buf) (pmm_reserved demo_buf) ?p (b, s)"
    and owned: "\<And>x. in_range x (0xFFFFFFC000100000, 16) \<Longrightarrow>
      hhdm_virt_to_phys ?p x \<notin> bump_owned pmm_ops (pmm_reserved demo_buf) ?p (b, s)"
    by (rule demo_bump_machine) blast
  define st where "st = (dt_boot s out_boot)\<lparr>dt_bump := b, dt_node_objs := [0x100 \<mapsto> demo_reg_node],
    dt_prop_objs := [0x50 \<mapsto> demo_reg_property]\<rparr>"
  obtain A s1 k1 where a: "bump_alloc_aligned pmm_ops ?p 8 (2 ^ 3) (b, s) = Done (A, b, s1)"
    "pmm_sound demo_buf s1" "bump_region ?p (pmm_reserved demo_buf s1) (pm_mem s1) (bm_current_region b) k1 65536"
    "k1 \<le> 40"
    by (rule bump_alloc_room [OF sound list reg, of 3 8]) simp_all
  obtain S s2 k2 where b: "bump_alloc_aligned pmm_ops ?p 4 (2 ^ 2) (b, s1) = Done (S, b, s2)"
    by (rule bump_alloc_room [OF a(2) list a(3), of 2 4]) (use a(4) in simp_all)
  define st1 where "st1 = st\<lparr>dt_sup := s1\<rparr>"
  have inv: "bump_inv pmm_ops (pmm_sound demo_buf) (pmm_reserved demo_buf) ?p (dt_bump st, dt_sup st)"
    using bump by (simp add: st_def dt_boot_def)
  have objs: "get_prop 0x50 st = Done demo_reg_property"
    "pr_data demo_reg_property = D_raw \<lparr>bv_data = 0xFFFFFFC000100000, bv_size = 12\<rparr>"
    "get_node 0x100 st = Done demo_reg_node" "get_node (nd_parent demo_reg_node) st = Done demo_reg_node"
    by (simp_all add: get_prop_def get_node_def deref_def st_def demo_reg_node_def demo_reg_property_def)
  have free: "hhdm_virt_to_phys ?p x \<notin> bump_owned pmm_ops (pmm_reserved demo_buf) ?p (dt_bump st, dt_sup st)"
    if "in_range x (0xFFFFFFC000100000, 12)" for x
    using owned [of x] that by (simp add: in_range_def st_def dt_boot_def)
  have room: "dt_alloc pmm_ops ?p (of_nat (4 * 2 * 1)) (of_nat (4 * 2)) st = Done (A, st1)"
    "dt_alloc pmm_ops ?p (of_nat (4 * 1 * 1)) (of_nat (4 * 1)) st1 = Done (S, st1\<lparr>dt_sup := s2\<rparr>)"
    using a(1) b by (auto simp: dt_alloc_bump st_def st1_def dt_boot_def)
  have "\<exists>st'. property_rewrite_reg pmm_ops ?p 0x100 0x50 st = Done st' \<and>
    dt_prop_objs st' = (dt_prop_objs st)(0x50 \<mapsto> demo_reg_property\<lparr>pr_type := REG, pr_data := D_reg (of_nat 1) A S\<rparr>) \<and>
    (\<forall>k < 1.
      le_value (load_bytes (4 * 2) (dt_mem pmm_ops ?p st') (A + of_nat (4 * 2 * k))) =
        be_value (load_bytes (4 * 2) (dt_mem pmm_ops ?p st) (0xFFFFFFC000100000 + of_nat ((4 * 2 + 4 * 1) * k))) \<and>
      le_value (load_bytes (4 * 1) (dt_mem pmm_ops ?p st') (S + of_nat (4 * 1 * k))) =
        be_value (load_bytes (4 * 1) (dt_mem pmm_ops ?p st)
          (0xFFFFFFC000100000 + of_nat ((4 * 2 + 4 * 1) * k + 4 * 2))))"
    using dt_reg_decoding [OF inv objs, of 2 1 1 A st1 S "st1\<lparr>dt_sup := s2\<rparr>"] free room here
    by (simp add: demo_reg_node_def st_def st1_def dt_boot_def)
  then show ?thesis by (auto simp: st_def)
qed

end
