(* ===== verification/Device_Tree_Ranges.thy ===== *)
theory Device_Tree_Ranges
  imports Device_Tree_Cells
begin

text \<open>
  Decoding of \<^verbatim>\<open>ranges\<close> properties: three arrays, of child addresses, parent addresses and
  sizes. The array of parent addresses has the size of the array of child addresses, which is
  enough exactly if a parent address has no more cells than a child address.
\<close>

section \<open>The loop\<close>

lemma ranges_loop_copies:
  assumes cells: "c \<in> {1, 2}" "b \<in> {1, 2}" "d \<in> {1, 2}" and n: "n < 2 ^ 64"
    and C: "unat C + 4 * c * n \<le> 2 ^ 64" "C \<noteq> 0" and P: "unat P + 4 * b * n \<le> 2 ^ 64" "P \<noteq> 0"
    and S: "unat S + 4 * d * n \<le> 2 ^ 64" "S \<noteq> 0"
  defines "e \<equiv> 4 * c + 4 * b + 4 * d"
  shows "i \<le> n \<Longrightarrow> ranges_loop pmm_ops p (of_nat c) (of_nat b) (of_nat d) src C P S (of_nat n) (of_nat i)
      (of_nat (e * i)) st =
    Done (with_mem p (copy_entries src e [(C, 4 * c, 0), (P, 4 * b, 4 * c), (S, 4 * d, 4 * c + 4 * b)] i n
      (dt_mem pmm_ops p st)) st)"
proof (induction "n - i" arbitrary: i st)
  case 0
  then have "i = n" by simp
  then show ?case by (subst ranges_loop.simps) (simp add: with_mem_same copy_entries_end)
next
  case (Suc r)
  let ?fs = "[(C, 4 * c, 0), (P, 4 * b, 4 * c), (S, 4 * d, 4 * c + 4 * b)]"
  have i: "i < n" using Suc.hyps(2) by simp
  have lt: "(of_nat i :: u64) < of_nat n"
    using i n by (simp add: word_less_nat_alt unat_of_nat_64)
  have "0 < 4 * c" "0 < 4 * b" "0 < 4 * d" using cells by auto
  then have nz: "C + of_nat (4 * c) * of_nat i \<noteq> 0" "P + of_nat (4 * b) * of_nat i \<noteq> 0"
    "S + of_nat (4 * d) * of_nat i \<noteq> 0"
    using array_not_null [OF C i] array_not_null [OF P i] array_not_null [OF S i] by simp_all
  have "ranges_loop pmm_ops p (of_nat c) (of_nat b) (of_nat d) src C P S (of_nat n) (of_nat i) (of_nat (e * i)) st =
      ranges_loop pmm_ops p (of_nat c) (of_nat b) (of_nat d) src C P S (of_nat n) (of_nat (Suc i))
        (of_nat (e * Suc i)) (with_mem p (fold (copy_field src e i) ?fs (dt_mem pmm_ops p st)) st)"
    using lt store_cells(1) [OF cells(1) nz(1)] store_cells(1) [OF cells(2) nz(2)] store_cells(2) [OF cells(3) nz(3)]
      cells_offset [OF cells(1)] cells_offset [OF cells(2)] cells_offset [OF cells(3)]
    by (subst ranges_loop.simps) (simp add: Let_def copy_field_def e_def algebra_simps)
  moreover have "r = n - Suc i" "Suc i \<le> n" using Suc.hyps(2) i by simp_all
  note IH = Suc.hyps(1) [OF this, of "with_mem p (fold (copy_field src e i) ?fs (dt_mem pmm_ops p st)) st"]
  ultimately show ?case using IH by (simp only: with_mem_simps copy_entries_step [OF i])
qed

section \<open>The property\<close>

lemma ranges_division:
  fixes sz :: u64
  assumes "c \<in> {1, 2}" "b \<in> {1, 2}" "d \<in> {1, 2}" and "unat sz = (4 * c + 4 * b + 4 * d) * n" "0 < n" "n \<le> 1000"
  shows "sz div of_nat (4 * c + 4 * b + 4 * d) = of_nat n" "sz mod of_nat (4 * c + 4 * b + 4 * d) = 0"
    "(of_nat (4 * c + 4 * b + 4 * d) :: u64) \<noteq> 0" "(of_nat n :: u64) \<noteq> 0"
proof -
  let ?e = "4 * c + 4 * b + 4 * d"
  have "unat (of_nat ?e :: u64) = ?e" "unat (of_nat n :: u64) = n"
    using assms(1,2,3,6) by (auto intro!: unat_of_nat_64)
  moreover have "0 < ?e" using assms(1) by auto
  ultimately show "sz div of_nat ?e = of_nat n" "sz mod of_nat ?e = 0"
    "(of_nat ?e :: u64) \<noteq> 0" "(of_nat n :: u64) \<noteq> 0"
    using assms(4,5) by (auto simp: word_unat_eq_iff unat_div unat_mod simp del: of_nat_add of_nat_mult)
qed

text \<open>What the three allocations give: arrays that meet neither each other nor the blob.\<close>

lemma ranges_arrays:
  assumes inv: "bump_inv pmm_ops (pmm_sound buf) (pmm_reserved buf) p (dt_bump st, dt_sup st)"
    and cells: "c \<in> {1, 2}" "d \<in> {1, 2}" and n: "0 < n" "n \<le> 1000"
    and free: "\<forall>x. in_range x (src, e * n) \<longrightarrow> hhdm_virt_to_phys p x \<notin>
      bump_owned pmm_ops (pmm_reserved buf) p (dt_bump st, dt_sup st)"
    and room: "dt_alloc pmm_ops p (of_nat (4 * c * n)) (of_nat (4 * c)) st = Done (C, st1)"
      "bm_current_region (dt_bump st1) \<noteq> hhdm_phys_to_virt p 0"
      "dt_alloc pmm_ops p (of_nat (4 * c * n)) (of_nat (4 * c)) st1 = Done (P, st2)"
      "bm_current_region (dt_bump st2) \<noteq> hhdm_phys_to_virt p 0"
      "dt_alloc pmm_ops p (of_nat (4 * d * n)) (of_nat (4 * d)) st2 = Done (S, st3)"
      "bm_current_region (dt_bump st3) \<noteq> hhdm_phys_to_virt p 0"
  shows "C \<noteq> 0" and "P \<noteq> 0" and "S \<noteq> 0"
    and "unat C + 4 * c * n \<le> 2 ^ 64" and "unat P + 4 * c * n \<le> 2 ^ 64" and "unat S + 4 * d * n \<le> 2 ^ 64"
    and "part C (4 * c) 0 n \<inter> part P (4 * c) 0 n = {}" and "part C (4 * c) 0 n \<inter> part S (4 * d) 0 n = {}"
    and "part P (4 * c) 0 n \<inter> part S (4 * d) 0 n = {}" and "part src e 0 n \<inter> part C (4 * c) 0 n = {}"
    and "part src e 0 n \<inter> part P (4 * c) 0 n = {}" and "part src e 0 n \<inter> part S (4 * d) 0 n = {}"
    and "\<And>x. x \<in> part src e 0 n \<Longrightarrow> dt_mem pmm_ops p st3 x = dt_mem pmm_ops p st x"
    and "dt_prop_objs st3 = dt_prop_objs st"
proof -
  note one = cells_alloc [OF inv cells(1) n room(1,2)]
  note two = cells_alloc [OF one(1) cells(1) n room(3,4)]
  note three = cells_alloc [OF two(1) cells(2) n room(5,6)]
  let ?own = "\<lambda>st :: pmm dt_state. {x. hhdm_virt_to_phys p x \<in>
    bump_owned pmm_ops (pmm_reserved buf) p (dt_bump st, dt_sup st)}"
  have outside: "part src e 0 n \<inter> ?own st = {}" using free by (auto simp: part_def in_range_def)
  show "C \<noteq> 0" "P \<noteq> 0" "S \<noteq> 0" "unat C + 4 * c * n \<le> 2 ^ 64" "unat P + 4 * c * n \<le> 2 ^ 64"
    "unat S + 4 * d * n \<le> 2 ^ 64"
    using one(4,5) two(4,5) three(4,5) by blast+
  show "part C (4 * c) 0 n \<inter> part P (4 * c) 0 n = {}" "part C (4 * c) 0 n \<inter> part S (4 * d) 0 n = {}"
    "part P (4 * c) 0 n \<inter> part S (4 * d) 0 n = {}" "part src e 0 n \<inter> part C (4 * c) 0 n = {}"
    "part src e 0 n \<inter> part P (4 * c) 0 n = {}" "part src e 0 n \<inter> part S (4 * d) 0 n = {}"
    using one(2,3) two(2,3) three(2) outside by blast+
  show "dt_mem pmm_ops p st3 x = dt_mem pmm_ops p st x" if "x \<in> part src e 0 n" for x
  proof -
    have "x \<notin> ?own st" "x \<notin> ?own st1" "x \<notin> ?own st2" using that one(3) two(3) outside by blast+
    then show ?thesis using one(6) two(6) three(6) by simp
  qed
  show "dt_prop_objs st3 = dt_prop_objs st" using one(7) two(7) three(7) by simp
qed

text \<open>The run of the rewriting itself, once the arrays are there.\<close>

lemma ranges_run:
  assumes objs: "get_prop a st = Done q" "pr_data q = D_raw bv" "get_node node st = Done nd"
      "get_node (nd_parent nd) st = Done pnd"
    and cells: "nd_address_cells nd = of_nat c" "nd_address_cells pnd = of_nat b" "nd_size_cells nd = of_nat d"
      "c \<in> {1, 2}" "b \<in> {1, 2}" "d \<in> {1, 2}"
    and len: "unat (bv_size bv) = (4 * c + 4 * b + 4 * d) * n" "0 < n" "n \<le> 1000"
    and room: "dt_alloc pmm_ops p (of_nat (4 * c * n)) (of_nat (4 * c)) st = Done (C, st1)"
      "dt_alloc pmm_ops p (of_nat (4 * c * n)) (of_nat (4 * c)) st1 = Done (P, st2)"
      "dt_alloc pmm_ops p (of_nat (4 * d * n)) (of_nat (4 * d)) st2 = Done (S, st3)"
    and loop: "ranges_loop pmm_ops p (of_nat c) (of_nat b) (of_nat d) (bv_data bv) C P S (of_nat n) 0 0 st3 =
      Done (with_mem p m' st3)" and keep: "dt_prop_objs st3 = dt_prop_objs st"
  shows "property_rewrite_ranges pmm_ops p node a st = Done ((with_mem p m' st3)\<lparr>dt_prop_objs :=
    (dt_prop_objs st)(a \<mapsto> q\<lparr>pr_type := RANGES, pr_data := D_range (of_nat n) C P S\<rparr>)\<rparr>)"
proof -
  let ?e = "4 * c + 4 * b + 4 * d"
  have e: "ucast (4 * (of_nat c :: u32) + 4 * of_nat b + 4 * of_nat d) = (of_nat ?e :: u64)"
    using cells(4-6) by auto
  note div = ranges_division [OF cells(4-6) len]
  have up: "upd_prop a (\<lambda>q. q\<lparr>pr_type := RANGES, pr_data := D_range (of_nat n) C P S\<rparr>) (with_mem p m' st3) =
      Done ((with_mem p m' st3)\<lparr>dt_prop_objs :=
        (dt_prop_objs st)(a \<mapsto> q\<lparr>pr_type := RANGES, pr_data := D_range (of_nat n) C P S\<rparr>)\<rparr>)"
    using objs(1) keep by (simp add: upd_prop_def get_prop_def)
  have sz: "of_nat (4 * c) * of_nat n = (of_nat (4 * c * n) :: u64)"
    "of_nat (4 * d) * of_nat n = (of_nat (4 * d * n) :: u64)"
    by simp_all
  have "bv_size bv \<noteq> 0" using len cells(4) by (auto simp flip: unat_eq_0)
  moreover have "\<not> (of_nat c :: u32) > 3" "\<not> (of_nat d :: u32) > 2" using cells(4,6) by auto
  ultimately show ?thesis
    unfolding property_rewrite_ranges_def objs(1,3,4) raw_of_def objs(2) bind_outcome.simps prop_data.case Let_def
      cells(1-3) e div(1,2) cells_offset [OF cells(4)] cells_offset [OF cells(6)] sz room prod.case
    using div(3,4) loop up by (simp add: room del: of_nat_add of_nat_mult)
qed

text \<open>
  C20. Decoding of \<^verbatim>\<open>ranges\<close>. Take a raw property whose value is a whole number of entries, at
  most a thousand, of a child address, a parent address and a size of one or two cells each, as the node and
  its parent say, in memory that the bump allocator does not own. If a parent address has no more cells than a
  child address and the allocator has room for the arrays, the property becomes a \<^verbatim>\<open>RANGES\<close> with
  the number of entries and the three arrays, and element \<open>k\<close> of each array, read as a number
  of the machine, is the big-endian number in entry \<open>k\<close> of the blob.
\<close>

theorem dt_ranges_decoding:
  assumes inv: "bump_inv pmm_ops (pmm_sound buf) (pmm_reserved buf) p (dt_bump st, dt_sup st)"
    and objs: "get_prop a st = Done q" "pr_data q = D_raw bv" "get_node node st = Done nd"
      "get_node (nd_parent nd) st = Done pnd"
    and cells: "nd_address_cells nd = of_nat c" "nd_address_cells pnd = of_nat b" "nd_size_cells nd = of_nat d"
      "c \<in> {1, 2}" "b \<in> {1, 2}" "d \<in> {1, 2}" and fit: "b \<le> c"
    and len: "unat (bv_size bv) = (4 * c + 4 * b + 4 * d) * n" "0 < n" "n \<le> 1000"
    and free: "\<forall>x. in_range x (bv_data bv, unat (bv_size bv)) \<longrightarrow> hhdm_virt_to_phys p x \<notin>
      bump_owned pmm_ops (pmm_reserved buf) p (dt_bump st, dt_sup st)"
    and room: "dt_alloc pmm_ops p (of_nat (4 * c * n)) (of_nat (4 * c)) st = Done (C, st1)"
      "bm_current_region (dt_bump st1) \<noteq> hhdm_phys_to_virt p 0"
      "dt_alloc pmm_ops p (of_nat (4 * c * n)) (of_nat (4 * c)) st1 = Done (P, st2)"
      "bm_current_region (dt_bump st2) \<noteq> hhdm_phys_to_virt p 0"
      "dt_alloc pmm_ops p (of_nat (4 * d * n)) (of_nat (4 * d)) st2 = Done (S, st3)"
      "bm_current_region (dt_bump st3) \<noteq> hhdm_phys_to_virt p 0"
  shows "\<exists>st'. property_rewrite_ranges pmm_ops p node a st = Done st' \<and>
    dt_prop_objs st' = (dt_prop_objs st)(a \<mapsto> q\<lparr>pr_type := RANGES, pr_data := D_range (of_nat n) C P S\<rparr>) \<and>
    (\<forall>k < n. \<forall>f \<in> {(C, 4 * c, 0), (P, 4 * b, 4 * c), (S, 4 * d, 4 * c + 4 * b)}.
      field_decoded (dt_mem pmm_ops p st) (dt_mem pmm_ops p st') (bv_data bv) (4 * c + 4 * b + 4 * d) k f)"
proof -
  let ?e = "4 * c + 4 * b + 4 * d" and ?fs = "[(C, 4 * c, 0), (P, 4 * b, 4 * c), (S, 4 * d, 4 * c + 4 * b)]"
  let ?src = "bv_data bv"
  define m' where "m' = copy_entries ?src ?e ?fs 0 n (dt_mem pmm_ops p st3)"
  note R = ranges_arrays [OF inv cells(4,6) len(2,3) free [unfolded len(1)] room]
  have pos: "0 < c" "0 < b" using cells by auto
  have small: "?e * n \<le> 2 ^ 56" "4 * c * n \<le> 2 ^ 56" "4 * b * n \<le> 2 ^ 56" "4 * d * n \<le> 2 ^ 56" "n < 2 ^ 64"
    using cells(4-6) len(3) by auto
  have "part P (4 * b) 0 n \<subseteq> part P (4 * c) 0 n" using fit by (intro part_less) simp
  then have "part C (4 * c) 0 n \<inter> part P (4 * b) 0 n = {}" "part P (4 * b) 0 n \<inter> part S (4 * d) 0 n = {}"
    "part ?src ?e 0 n \<inter> part P (4 * b) 0 n = {}"
    using R(7,9,11) by blast+
  then have ok: "fields_ok ?src ?e n ?fs"
    using R(8,10,12) small pos by (auto simp: fields_ok_def)
  have "4 * b * n \<le> 4 * c * n" using fit by simp
  then have P: "unat P + 4 * b * n \<le> 2 ^ 64" using R(5) by linarith
  have loop: "ranges_loop pmm_ops p (of_nat c) (of_nat b) (of_nat d) ?src C P S (of_nat n) 0 0 st3 =
      Done (with_mem p m' st3)"
    using ranges_loop_copies [OF cells(4-6) small(5) R(4,1) P R(2) R(6,3), of 0 p ?src st3] by (simp add: m'_def)
  have "field_decoded (dt_mem pmm_ops p st) m' ?src ?e k f" if "k < n" "f \<in> set ?fs" for k f
    unfolding m'_def by (rule filled_decoded [OF ok that(2,1)]) (rule R(13))
  moreover define st' where "st' = (with_mem p m' st3)\<lparr>dt_prop_objs :=
    (dt_prop_objs st)(a \<mapsto> q\<lparr>pr_type := RANGES, pr_data := D_range (of_nat n) C P S\<rparr>)\<rparr>"
  moreover have "dt_mem pmm_ops p st' = m'" by (simp add: st'_def dt_mem_def with_mem_def)
  ultimately show ?thesis
    using ranges_run [OF objs cells len room(1,3,5) loop R(14)]
    by (intro exI [of _ st']) (simp add: st'_def del: of_nat_add of_nat_mult)
qed

section \<open>An array that is too short\<close>

text \<open>What the loop stores for one entry when the sizes lie right behind a parent address of one cell.\<close>

lemma overrun_memory:
  fixes P C src :: u64
  assumes apart: "part P 4 0 1 \<inter> part (P + 4) 4 0 1 = {}" "part src 16 0 1 \<inter> part C 4 0 1 = {}"
    "part src 16 0 1 \<inter> part P 4 0 1 = {}" "part src 16 0 1 \<inter> part (P + 4) 4 0 1 = {}"
  shows "le_value (load_bytes 8 (copy_entries src 16 [(C, 4, 0), (P, 8, 4), (P + 4, 4, 12)] 0 1 m) P) =
    be_value (load_bytes 4 m (src + 8)) + 2 ^ 32 * be_value (load_bytes 4 m (src + 12))"
proof -
  define m1 where "m1 = store_bytes m C (rev (load_bytes 4 m src))"
  define m2 where "m2 = store_bytes m1 P (rev (load_bytes 8 m1 (src + 4)))"
  define m' where "m' = store_bytes m2 (P + 4) (rev (load_bytes 4 m2 (src + 12)))"
  have range: "x \<in> part D 4 0 1 \<longleftrightarrow> in_range x (D, 4)" for x D by (simp add: part_def in_range_def)
  have wide: "in_range x (P, 8) \<longleftrightarrow> in_range x (P, 4) \<or> in_range x (P + 4, 4)" for x
    using in_range_part [of 4 4 x P] by (auto simp: in_range_def)
  have frame: "load_bytes 4 M (src + of_nat k) = load_bytes 4 m (src + of_nat k)"
    if "k + 4 \<le> 16" "\<And>x. x \<in> part src 16 0 1 \<Longrightarrow> M x = m x" for M and k :: nat
    using entry_part [of 16 1 0 k 4 _ src] that by (intro load_bytes_frame) auto
  have src: "m1 x = m x" "m2 x = m x" if "x \<in> part src 16 0 1" for x
  proof -
    have "\<not> in_range x (C, 4)" "\<not> in_range x (P, 8)"
      using that apart(2-4) unfolding wide range [symmetric] by (auto simp: disjoint_iff)
    then show "m1 x = m x" "m2 x = m x" by (simp_all add: m1_def m2_def store_bytes_other)
  qed
  have "load_bytes 4 m' P = load_bytes 4 m2 P"
  proof (rule load_bytes_frame)
    fix x assume "in_range x (P, 4)"
    then have "\<not> in_range x (P + 4, 4)" using apart(1) unfolding range [symmetric] by auto
    then show "m' x = m2 x" by (simp add: m'_def store_bytes_other)
  qed simp
  also have "\<dots> = take 4 (rev (load_bytes 8 m1 (src + 4)))"
  proof -
    have "load_bytes 8 m2 P = rev (load_bytes 8 m1 (src + 4))"
      using load_store_bytes [of "rev (load_bytes 8 m1 (src + 4))" m1 P] by (simp add: m2_def)
    then show ?thesis using load_bytes_split [of 4 4 m2 P] by (simp add: append_eq_conv_conj)
  qed
  also have "\<dots> = rev (load_bytes 4 m1 (src + 8))"
    using load_bytes_split [of 4 4 m1 "src + 4"] by (simp add: add.commute)
  also have "load_bytes 4 m1 (src + 8) = load_bytes 4 m (src + 8)"
    using frame [of 8 m1] src(1) by simp
  finally have low: "load_bytes 4 m' P = rev (load_bytes 4 m (src + 8))" .
  have high: "load_bytes 4 m' (P + 4) = rev (load_bytes 4 m (src + 12))"
    using load_store_bytes [of "rev (load_bytes 4 m2 (src + 12))" m2 "P + 4"] frame [of 12 m2] src(2)
    by (simp add: m'_def)
  have "le_value (load_bytes 8 m' P) = be_value (load_bytes 4 m (src + 8)) + 2 ^ 32 * be_value (load_bytes 4 m (src + 12))"
    using load_bytes_split [of 4 4 m' P] by (simp add: low high le_value_append le_value_rev)
  then show ?thesis by (simp add: copy_entries_def copy_field_def m'_def m2_def m1_def)
qed

text \<open>
  C21. The overrun of the parent addresses. If the addresses of the parent have two cells and those of the node one,
  an element of the array of parent addresses is stored in eight bytes, of which the block has four.
  When the array of sizes lies behind it, as consecutive blocks of a region do, the size replaces
  the upper half of the parent address: the property claims a parent address whose low word is that of
  the blob and whose high word is the size.
\<close>

theorem dt_ranges_overrun:
  assumes inv: "bump_inv pmm_ops (pmm_sound buf) (pmm_reserved buf) p (dt_bump st, dt_sup st)"
    and objs: "get_prop a st = Done q" "pr_data q = D_raw bv" "get_node node st = Done nd"
      "get_node (nd_parent nd) st = Done pnd"
    and cells: "nd_address_cells nd = 1" "nd_address_cells pnd = 2" "nd_size_cells nd = 1"
    and len: "bv_size bv = 16"
    and free: "\<forall>x. in_range x (bv_data bv, 16) \<longrightarrow> hhdm_virt_to_phys p x \<notin>
      bump_owned pmm_ops (pmm_reserved buf) p (dt_bump st, dt_sup st)"
    and room: "dt_alloc pmm_ops p 4 4 st = Done (C, st1)"
      "bm_current_region (dt_bump st1) \<noteq> hhdm_phys_to_virt p 0"
      "dt_alloc pmm_ops p 4 4 st1 = Done (P, st2)"
      "bm_current_region (dt_bump st2) \<noteq> hhdm_phys_to_virt p 0"
      "dt_alloc pmm_ops p 4 4 st2 = Done (P + 4, st3)"
      "bm_current_region (dt_bump st3) \<noteq> hhdm_phys_to_virt p 0"
  shows "\<exists>st'. property_rewrite_ranges pmm_ops p node a st = Done st' \<and>
    dt_prop_objs st' = (dt_prop_objs st)(a \<mapsto> q\<lparr>pr_type := RANGES, pr_data := D_range 1 C P (P + 4)\<rparr>) \<and>
    le_value (load_bytes 8 (dt_mem pmm_ops p st') P) =
      be_value (load_bytes 4 (dt_mem pmm_ops p st) (bv_data bv + 8)) +
      2 ^ 32 * be_value (load_bytes 4 (dt_mem pmm_ops p st) (bv_data bv + 12))"
proof -
  let ?src = "bv_data bv" and ?S = "P + 4" and ?m = "dt_mem pmm_ops p st3"
  note R = ranges_arrays [where c = 1 and d = 1 and n = 1 and e = 16 and src = ?src and S = ?S,
      OF inv _ _ _ _ _ _ room(2) _ room(4) _ room(6), simplified, OF free room(1,3,5)]
  have "unat P \<noteq> 18446744073709551612"
  proof
    assume "unat P = 18446744073709551612"
    then have "P = 18446744073709551612" by (simp add: word_unat_eq_iff)
    with R(3) show False by simp
  qed
  then have sum: "unat ?S = unat P + 4" using R(5) by (subst unat_add_nowrap) simp_all
  define m' where "m' = copy_entries ?src 16 [(C, 4, 0), (P, 8, 4), (?S, 4, 12)] 0 1 ?m"
  have loop: "ranges_loop pmm_ops p (of_nat 1) (of_nat 2) (of_nat 1) ?src C P ?S (of_nat 1) 0 0 st3 =
      Done (with_mem p m' st3)"
    using ranges_loop_copies [of 1 2 1 1 C P ?S 0 p ?src st3] R(1-6) sum by (simp add: m'_def)
  define st' where "st' = (with_mem p m' st3)\<lparr>dt_prop_objs :=
    (dt_prop_objs st)(a \<mapsto> q\<lparr>pr_type := RANGES, pr_data := D_range (of_nat 1) C P ?S\<rparr>)\<rparr>"
  have run: "property_rewrite_ranges pmm_ops p node a st = Done st'"
    unfolding st'_def by (rule ranges_run [OF objs _ _ _ _ _ _ _ _ _ _ _ _ loop R(14)])
      (use cells len room in simp_all)
  have "load_bytes 4 ?m (?src + of_nat k) = load_bytes 4 (dt_mem pmm_ops p st) (?src + of_nat k)"
    if "k + 4 \<le> 16" for k :: nat
    using entry_part [of 16 1 0 k 4 _ ?src] that R(13) by (intro load_bytes_frame) auto
  from this [of 8] this [of 12] have "le_value (load_bytes 8 m' P) =
      be_value (load_bytes 4 (dt_mem pmm_ops p st) (?src + 8)) +
      2 ^ 32 * be_value (load_bytes 4 (dt_mem pmm_ops p st) (?src + 12))"
    using overrun_memory [of P ?src C ?m] R(9-12) by (simp add: m'_def)
  moreover have "dt_mem pmm_ops p st' = m'" by (simp add: st'_def dt_mem_def with_mem_def)
  ultimately show ?thesis
    using run by (intro exI [of _ st']) (simp add: st'_def)
qed

text \<open>A small machine: a node at \<^verbatim>\<open>0x100\<close> with \<open>c\<close> address cells below one with \<open>b\<close>.\<close>

definition demo_bus :: "u32 \<Rightarrow> u64 \<Rightarrow> node" where
  "demo_bus c parent = \<lparr>nd_name = str_view_empty, nd_address_cells = c, nd_size_cells = 1,
     nd_properties = 0, nd_parent = parent, nd_children = 0, nd_next_sibling = 0\<rparr>"

definition demo_ranges_property :: property where
  "demo_ranges_property = \<lparr>pr_name = str_view_empty, pr_next = 0, pr_type = RAW,
     pr_data = D_raw \<lparr>bv_data = 0xFFFFFFC000100000, bv_size = 16\<rparr>\<rparr>"

lemma demo_ranges_machine:
  assumes "c \<in> {1, 2}"
  obtains st st1 st2 st3 :: "pmm dt_state"
    where "bump_inv pmm_ops (pmm_sound demo_buf) (pmm_reserved demo_buf) demo_platform (dt_bump st, dt_sup st)"
    and "get_prop 0x50 st = Done demo_ranges_property"
    and "get_node 0x100 st = Done (demo_bus (of_nat c) 0x200)" and "get_node 0x200 st = Done (demo_bus b 0)"
    and "\<forall>x. in_range x (0xFFFFFFC000100000, 16) \<longrightarrow>
      hhdm_virt_to_phys demo_platform x \<notin> bump_owned pmm_ops (pmm_reserved demo_buf) demo_platform (dt_bump st, dt_sup st)"
    and "dt_alloc pmm_ops demo_platform (of_nat (4 * c * 1)) (of_nat (4 * c)) st = Done (0xFFFFFFC000200018, st1)"
    and "dt_alloc pmm_ops demo_platform (of_nat (4 * c * 1)) (of_nat (4 * c)) st1 =
      Done (0xFFFFFFC000200018 + of_nat (4 * c), st2)"
    and "dt_alloc pmm_ops demo_platform (of_nat (4 * 1 * 1)) (of_nat (4 * 1)) st2 =
      Done (0xFFFFFFC000200018 + of_nat (8 * c), st3)"
    and "dt_bump st1 = dt_bump st" and "dt_bump st2 = dt_bump st" and "dt_bump st3 = dt_bump st"
    and "bm_current_region (dt_bump st) \<noteq> hhdm_phys_to_virt demo_platform 0"
proof -
  let ?p = demo_platform and ?r = "0xFFFFFFC000200000 :: u64"
  obtain s and b1 :: bump_alloc where sound: "pmm_sound demo_buf s" and list: "bm_region_list b1 \<noteq> 0"
    and reg: "bump_region ?p (pmm_reserved demo_buf s) (pm_mem s) (bm_current_region b1) 24 65536"
    and at: "bm_current_region b1 = ?r" and here: "bm_current_region b1 \<noteq> hhdm_phys_to_virt ?p 0"
    and bump: "bump_inv pmm_ops (pmm_sound demo_buf) (pmm_reserved demo_buf) ?p (b1, s)"
    and owned: "\<And>x. in_range x (0xFFFFFFC000100000, 16) \<Longrightarrow>
      hhdm_virt_to_phys ?p x \<notin> bump_owned pmm_ops (pmm_reserved demo_buf) ?p (b1, s)"
    by (rule demo_bump_machine) blast
  define st where "st = (dt_boot s out_boot)\<lparr>dt_bump := b1,
    dt_node_objs := [0x100 \<mapsto> demo_bus (of_nat c) 0x200, 0x200 \<mapsto> demo_bus b 0],
    dt_prop_objs := [0x50 \<mapsto> demo_ranges_property]\<rparr>"
  have sz: "(of_nat (4 * c) :: u64) = 2 ^ Suc c" "unat (of_nat (4 * c) :: u64) = 4 * c" using assms by auto
  have dvd: "2 ^ Suc c dvd unat (bm_current_region b1 + of_nat 24)"
    "2 ^ Suc c dvd unat (bm_current_region b1 + of_nat (24 + 4 * c))"
    "2 ^ 2 dvd unat (bm_current_region b1 + of_nat (24 + 4 * c + 4 * c))"
    using assms by (auto simp: at)
  obtain s1 where a: "bump_alloc_aligned pmm_ops ?p (of_nat (4 * c)) (2 ^ Suc c) (b1, s) = Done (?r + of_nat 24, b1, s1)"
    "pmm_sound demo_buf s1"
    "bump_region ?p (pmm_reserved demo_buf s1) (pm_mem s1) (bm_current_region b1) (24 + 4 * c) 65536"
    by (rule bump_alloc_room [OF sound list reg, of "Suc c" "of_nat (4 * c)"])
      (use assms sz dvd(1) at in auto)
  obtain s2 where a2: "bump_alloc_aligned pmm_ops ?p (of_nat (4 * c)) (2 ^ Suc c) (b1, s1) =
      Done (?r + of_nat (24 + 4 * c), b1, s2)"
    "pmm_sound demo_buf s2"
    "bump_region ?p (pmm_reserved demo_buf s2) (pm_mem s2) (bm_current_region b1) (24 + 4 * c + 4 * c) 65536"
    by (rule bump_alloc_room [OF a(2) list a(3), of "Suc c" "of_nat (4 * c)"])
      (use assms sz dvd(2) at in auto)
  obtain s3 where a3: "bump_alloc_aligned pmm_ops ?p 4 (2 ^ 2) (b1, s2) = Done (?r + of_nat (24 + 4 * c + 4 * c), b1, s3)"
    by (rule bump_alloc_room [OF a2(2) list a2(3), of 2 4]) (use assms dvd(3) at in auto)
  show ?thesis
  proof (rule that [of st "st\<lparr>dt_sup := s1\<rparr>" "st\<lparr>dt_sup := s2\<rparr>" "st\<lparr>dt_sup := s3\<rparr>"])
    show "dt_alloc pmm_ops ?p (of_nat (4 * c * 1)) (of_nat (4 * c)) st = Done (0xFFFFFFC000200018, st\<lparr>dt_sup := s1\<rparr>)"
      "dt_alloc pmm_ops ?p (of_nat (4 * c * 1)) (of_nat (4 * c)) (st\<lparr>dt_sup := s1\<rparr>) =
        Done (0xFFFFFFC000200018 + of_nat (4 * c), st\<lparr>dt_sup := s2\<rparr>)"
      "dt_alloc pmm_ops ?p (of_nat (4 * 1 * 1)) (of_nat (4 * 1)) (st\<lparr>dt_sup := s2\<rparr>) =
        Done (0xFFFFFFC000200018 + of_nat (8 * c), st\<lparr>dt_sup := s3\<rparr>)"
      using a(1) a2(1) a3 sz(1) by (simp_all add: dt_alloc_bump st_def dt_boot_def)
  qed (use bump owned here in \<open>simp_all add: st_def dt_boot_def get_prop_def get_node_def deref_def\<close>)
qed

theorem dt_ranges_overrun_witness:
  "\<exists>(st :: pmm dt_state) st' C P. property_rewrite_ranges pmm_ops demo_platform 0x100 0x50 st = Done st' \<and>
    dt_prop_objs st' 0x50 = Some (demo_ranges_property\<lparr>pr_type := RANGES, pr_data := D_range 1 C P (P + 4)\<rparr>) \<and>
    le_value (load_bytes 8 (dt_mem pmm_ops demo_platform st') P) =
      be_value (load_bytes 4 (dt_mem pmm_ops demo_platform st) 0xFFFFFFC000100008) +
      2 ^ 32 * be_value (load_bytes 4 (dt_mem pmm_ops demo_platform st) 0xFFFFFFC00010000C)"
proof (rule demo_ranges_machine [of 1 2])
  fix st st1 st2 st3 :: "pmm dt_state"
  let ?p = demo_platform
  assume inv: "bump_inv pmm_ops (pmm_sound demo_buf) (pmm_reserved demo_buf) ?p (dt_bump st, dt_sup st)"
    and objs: "get_prop 0x50 st = Done demo_ranges_property" "get_node 0x100 st = Done (demo_bus (of_nat 1) 0x200)"
      "get_node 0x200 st = Done (demo_bus 2 0)"
    and free: "\<forall>x. in_range x (0xFFFFFFC000100000, 16) \<longrightarrow>
      hhdm_virt_to_phys ?p x \<notin> bump_owned pmm_ops (pmm_reserved demo_buf) ?p (dt_bump st, dt_sup st)"
    and room: "dt_alloc pmm_ops ?p (of_nat (4 * 1 * 1)) (of_nat (4 * 1)) st = Done (0xFFFFFFC000200018, st1)"
      "dt_alloc pmm_ops ?p (of_nat (4 * 1 * 1)) (of_nat (4 * 1)) st1 = Done (0xFFFFFFC000200018 + of_nat (4 * 1), st2)"
      "dt_alloc pmm_ops ?p (of_nat (4 * 1 * 1)) (of_nat (4 * 1)) st2 = Done (0xFFFFFFC000200018 + of_nat (8 * 1), st3)"
    and here: "dt_bump st1 = dt_bump st" "dt_bump st2 = dt_bump st" "dt_bump st3 = dt_bump st"
      "bm_current_region (dt_bump st) \<noteq> hhdm_phys_to_virt ?p 0"
  have "get_node (nd_parent (demo_bus 1 0x200)) st = Done (demo_bus 2 0)"
    "pr_data demo_ranges_property = D_raw \<lparr>bv_data = 0xFFFFFFC000100000, bv_size = 16\<rparr>"
    using objs by (simp_all add: demo_bus_def demo_ranges_property_def)
  then obtain st' where "property_rewrite_ranges pmm_ops ?p 0x100 0x50 st = Done st'"
    "dt_prop_objs st' = (dt_prop_objs st)(0x50 \<mapsto> demo_ranges_property\<lparr>pr_type := RANGES,
      pr_data := D_range 1 0xFFFFFFC000200018 0xFFFFFFC00020001C (0xFFFFFFC00020001C + 4)\<rparr>)"
    "le_value (load_bytes 8 (dt_mem pmm_ops ?p st') 0xFFFFFFC00020001C) =
      be_value (load_bytes 4 (dt_mem pmm_ops ?p st) (0xFFFFFFC000100000 + 8)) +
      2 ^ 32 * be_value (load_bytes 4 (dt_mem pmm_ops ?p st) (0xFFFFFFC000100000 + 12))"
    using dt_ranges_overrun [OF inv objs(1) _ objs(2), of "\<lparr>bv_data = 0xFFFFFFC000100000, bv_size = 16\<rparr>"
        "demo_bus 2 0" "0xFFFFFFC000200018" st1 "0xFFFFFFC00020001C" st2 st3] free room here
    by (auto simp: demo_bus_def)
  then show ?thesis
    by (intro exI [of _ st] exI [of _ st'] exI [of _ "0xFFFFFFC000200018"] exI [of _ "0xFFFFFFC00020001C"]) simp
qed simp

theorem dt_ranges_decoding_witness:
  "\<exists>(st :: pmm dt_state) st' C P S. property_rewrite_ranges pmm_ops demo_platform 0x100 0x50 st = Done st' \<and>
    dt_prop_objs st' 0x50 = Some (demo_ranges_property\<lparr>pr_type := RANGES, pr_data := D_range 1 C P S\<rparr>) \<and>
    field_decoded (dt_mem pmm_ops demo_platform st) (dt_mem pmm_ops demo_platform st') 0xFFFFFFC000100000 16 0 (P, 4, 8)"
proof (rule demo_ranges_machine [of 2 1])
  fix st st1 st2 st3 :: "pmm dt_state"
  let ?p = demo_platform
  assume inv: "bump_inv pmm_ops (pmm_sound demo_buf) (pmm_reserved demo_buf) ?p (dt_bump st, dt_sup st)"
    and objs: "get_prop 0x50 st = Done demo_ranges_property" "get_node 0x100 st = Done (demo_bus (of_nat 2) 0x200)"
      "get_node 0x200 st = Done (demo_bus 1 0)"
    and free: "\<forall>x. in_range x (0xFFFFFFC000100000, 16) \<longrightarrow>
      hhdm_virt_to_phys ?p x \<notin> bump_owned pmm_ops (pmm_reserved demo_buf) ?p (dt_bump st, dt_sup st)"
    and room: "dt_alloc pmm_ops ?p (of_nat (4 * 2 * 1)) (of_nat (4 * 2)) st = Done (0xFFFFFFC000200018, st1)"
      "dt_alloc pmm_ops ?p (of_nat (4 * 2 * 1)) (of_nat (4 * 2)) st1 = Done (0xFFFFFFC000200018 + of_nat (4 * 2), st2)"
      "dt_alloc pmm_ops ?p (of_nat (4 * 1 * 1)) (of_nat (4 * 1)) st2 = Done (0xFFFFFFC000200018 + of_nat (8 * 2), st3)"
    and here: "dt_bump st1 = dt_bump st" "dt_bump st2 = dt_bump st" "dt_bump st3 = dt_bump st"
      "bm_current_region (dt_bump st) \<noteq> hhdm_phys_to_virt ?p 0"
  have "get_node (nd_parent (demo_bus (of_nat 2) 0x200)) st = Done (demo_bus 1 0)"
    "pr_data demo_ranges_property = D_raw \<lparr>bv_data = 0xFFFFFFC000100000, bv_size = 16\<rparr>"
    using objs by (simp_all add: demo_bus_def demo_ranges_property_def)
  then obtain st' where "property_rewrite_ranges pmm_ops ?p 0x100 0x50 st = Done st'"
    "dt_prop_objs st' = (dt_prop_objs st)(0x50 \<mapsto> demo_ranges_property\<lparr>pr_type := RANGES,
      pr_data := D_range (of_nat 1) 0xFFFFFFC000200018 0xFFFFFFC000200020 0xFFFFFFC000200028\<rparr>)"
    and dec: "\<forall>k < 1. \<forall>f \<in> {(0xFFFFFFC000200018, 4 * 2, 0), (0xFFFFFFC000200020, 4 * 1, 4 * 2),
        (0xFFFFFFC000200028, 4 * 1, 4 * 2 + 4 * 1)}.
      field_decoded (dt_mem pmm_ops ?p st) (dt_mem pmm_ops ?p st') 0xFFFFFFC000100000 (4 * 2 + 4 * 1 + 4 * 1) k f"
    using dt_ranges_decoding [OF inv objs(1) _ objs(2), of "\<lparr>bv_data = 0xFFFFFFC000100000, bv_size = 16\<rparr>"
        "demo_bus 1 0" 2 1 1 1 "0xFFFFFFC000200018" st1 "0xFFFFFFC000200020" st2 "0xFFFFFFC000200028" st3] free room here
    by (auto simp: demo_bus_def)
  moreover have "field_decoded (dt_mem pmm_ops ?p st) (dt_mem pmm_ops ?p st') 0xFFFFFFC000100000 16 0
      (0xFFFFFFC000200020, 4, 8)"
    using dec by simp
  ultimately show ?thesis
    by (intro exI [of _ st] exI [of _ st'] exI [of _ "0xFFFFFFC000200018"] exI [of _ "0xFFFFFFC000200020"]
      exI [of _ "0xFFFFFFC000200028"]) simp
qed simp

end
