(* ===== verification/Kernel_Entry.thy ===== *)
theory Kernel_Entry
  imports Pmm_Pages Uart Device_Tree_Print
begin

text \<open>
  The entry point of the kernel, \<^verbatim>\<open>kernel/src/kernel_entry.cpp\<close>: output, platform
  information, memory manager, device tree, framebuffer. The state is the state of the
  device tree code; the page supply in it is the memory manager.
\<close>

text \<open>The function passed to \<^verbatim>\<open>fmt::initialize\<close>: the log holds the writes to the device.\<close>

definition uart_putchar :: "platform_info \<Rightarrow> u8 \<Rightarrow> (u64 \<times> u8) list \<Rightarrow> (u64 \<times> u8) list" where
  "uart_putchar p c written = uart_send (uart_at (hhdm_phys_to_virt p 0x10000000)) c written"

text \<open>\<^verbatim>\<open>panic(err.str())\<close>.\<close>

definition panic_error :: "error \<Rightarrow> out \<Rightarrow> 'a outcome" where
  "panic_error err o1 =
     bind_outcome (error_str err) (\<lambda>msg.
     bind_outcome (panic_message [lit msg] o1) (\<lambda>_. Halt (Panic msg)))"

section \<open>The memory map\<close>

function memmap_loop :: "platform_info \<Rightarrow> size_t \<Rightarrow> pmm dt_state \<Rightarrow> pmm dt_state outcome" where
  "memmap_loop p i st =
     (if i < memmap_count p then
        let e = memmap_entry p i; m = dt_mem pmm_ops p st
        in if entry_type m e = LIMINE_MEMMAP_USABLE then
             bind_outcome (add_region (entry_base m e) (entry_length m e) (dt_sup st)) (\<lambda>(err, s).
               if is_err err then panic_error err (dt_out st)
               else memmap_loop p (i + 1) (st\<lparr>dt_sup := s\<rparr>))
           else memmap_loop p (i + 1) st
      else Done st)"
  by pat_completeness auto
termination
  by (relation "measure (\<lambda>(p, i, st). unat (memmap_count p) - unat i)")
    (auto simp: unat_Suc_less word_less_nat_alt)

declare memmap_loop.simps [simp del]

section \<open>The framebuffer\<close>

definition fb_address :: "mem \<Rightarrow> u64 \<Rightarrow> u64" where
  "fb_address m fb = load64 m fb"

definition fb_pitch :: "mem \<Rightarrow> u64 \<Rightarrow> u64" where
  "fb_pitch m fb = load64 m (fb + 24)"

text \<open>The address and the pitch are read again for each pixel.\<close>

function framebuffer_loop :: "platform_info \<Rightarrow> u64 \<Rightarrow> size_t \<Rightarrow> pmm dt_state \<Rightarrow> pmm dt_state outcome"
where
  "framebuffer_loop p fb i st =
     (if i < 100 then
        let m = dt_mem pmm_ops p st
        in bind_outcome (dt_store pmm_ops p
             (fb_address m fb + 4 * (i * (fb_pitch m fb div 4) + i)) (bytes_of 4 (0xFFFFFF :: u32)) st)
             (\<lambda>st1. framebuffer_loop p fb (i + 1) st1)
      else Done st)"
  by pat_completeness auto
termination
  by (relation "measure (\<lambda>(p, fb, i, st). 100 - unat i)")
    (simp, simp add: unat_Suc_less [of _ 100], simp add: word_less_nat_alt)

declare framebuffer_loop.simps [simp del]

section \<open>The entry point\<close>

text \<open>What follows the memory map; the result is the state in which the kernel spins.\<close>

definition kernel_display :: "platform_info \<Rightarrow> error \<times> pmm dt_state \<Rightarrow> pmm dt_state outcome" where
  "kernel_display p = (\<lambda>(err, st1).
     if \<not> is_ok err then bind_outcome (error_str err) (\<lambda>_. Halt (Assertion ''err.is_ok()''))
     else
       bind_outcome (framebuffer_loop p (load64 (dt_mem pmm_ops p st1) (framebuffers p)) 0 st1)
         (print_device_tree pmm_ops p))"

definition kernel_devices :: "platform_info \<Rightarrow> str_view \<Rightarrow> pmm dt_state \<Rightarrow> pmm dt_state outcome" where
  "kernel_devices p slash st =
     bind_outcome (parse_from_blob pmm_ops p slash (device_tree_blob p) st) (kernel_display p)"

text \<open>
  \<open>putchar\<close> and \<open>buf\<close> are the addresses of \<^verbatim>\<open>uart_putchar\<close> and of the manager's buffer, \<open>m\<close> is
  physical memory as the boot loader leaves it, \<open>vm\<close> the same memory as the kernel's pointers
  see it.
\<close>

definition kernel_main ::
  "u64 \<Rightarrow> u64 \<Rightarrow> str_view \<Rightarrow> limine_requests \<Rightarrow> mem \<Rightarrow> mem \<Rightarrow> pmm dt_state outcome" where
  "kernel_main putchar buf slash q vm m =
     (let o1 = snd (fmt_initialize putchar out_boot)
      in bind_outcome (parse_platform_info vm q) (\<lambda>p.
         if LIMINE_PAGING_MODE_RISCV_SV39 \<noteq> mode p
           then Halt (Assertion ''LIMINE_PAGING_MODE_RISCV_SV39 == pinfo->mode'')
         else
           bind_outcome (pmm_initialize buf FIRST_FIT (pmm_boot m)) (\<lambda>s.
           bind_outcome (memmap_loop p 0 (dt_boot s o1)) (\<lambda>st.
           bind_outcome (fmt_println [lit ''PMM free bytes: '', print_hex (free_memory (dt_sup st))]
               (dt_out st)) (\<lambda>o2.
           kernel_devices p slash (st\<lparr>dt_out := o2\<rparr>))))))"

definition kernel_cxx_entry ::
  "u64 \<Rightarrow> u64 \<Rightarrow> str_view \<Rightarrow> limine_requests \<Rightarrow> mem \<Rightarrow> mem \<Rightarrow> pmm dt_state outcome" where
  "kernel_cxx_entry putchar buf slash q vm m =
     bind_outcome (kernel_main putchar buf slash q vm m) (\<lambda>_. Halt Spin)"

end
