(* ===== verification/Device_Tree_Links.thy ===== *)
theory Device_Tree_Links
  imports Device_Tree_Pass Device_Tree_Parse
begin

text \<open>
  What the second pass over the device tree and its printer do to the tree that the first
  pass has linked. The pass keeps every link and every name, and adds only lines to the
  output; so the tree of the blob is still there when it is printed. Printing linked nodes
  returns only if every value can be shown, and then the listing has the shape of the tree.
\<close>

section \<open>The frame of the pass\<close>

text \<open>What links the objects: everything but the cells of a node and the value of a property.\<close>

definition node_link :: "node \<Rightarrow> str_view \<times> u64 \<times> u64 \<times> u64 \<times> u64" where
  "node_link nd = (nd_name nd, nd_properties nd, nd_parent nd, nd_children nd, nd_next_sibling nd)"

definition prop_link :: "property \<Rightarrow> str_view \<times> u64" where
  "prop_link q = (pr_name q, pr_next q)"

definition same_objs :: "('a \<Rightarrow> 'b) \<Rightarrow> 'a objs \<Rightarrow> 'a objs \<Rightarrow> bool" where
  "same_objs f objs objs' \<longleftrightarrow> (\<forall>a. map_option f (objs' a) = map_option f (objs a))"

text \<open>Output is only appended, to the sink that was set.\<close>

definition more_output :: "out \<Rightarrow> out \<Rightarrow> bool" where
  "more_output o1 o2 \<longleftrightarrow> out_ready o1 \<longrightarrow> out_ready o2 \<and> out_put_char o2 = out_put_char o1 \<and>
     (\<exists>t. out_log o2 = out_log o1 @ map (Pair (out_put_char o1)) t)"

definition pass_frame :: "'s dt_state \<Rightarrow> 's dt_state \<Rightarrow> bool" where
  "pass_frame st st' \<longleftrightarrow> same_objs node_link (dt_node_objs st) (dt_node_objs st') \<and>
     same_objs prop_link (dt_prop_objs st) (dt_prop_objs st') \<and>
     dt_nodes st' = dt_nodes st \<and> dt_root st' = dt_root st \<and> dt_initialized st' = dt_initialized st \<and>
     more_output (dt_out st) (dt_out st')"

named_theorems frame_intros

lemma same_objs_refl: "same_objs f objs objs"
  by (simp add: same_objs_def)

lemma same_objs_upd:
  "same_objs f objs0 objs \<Longrightarrow> objs a = Some x \<Longrightarrow> (\<And>x. f (g x) = f x) \<Longrightarrow> same_objs f objs0 (objs(a := Some (g x)))"
  by (auto simp: same_objs_def) (metis option.map(2))

lemma more_output_refl: "more_output o1 o1"
  by (simp add: more_output_def)

lemma more_output_trans: "more_output o1 o2 \<Longrightarrow> more_output o2 o3 \<Longrightarrow> more_output o1 o3"
  by (clarsimp simp: more_output_def) (metis map_append)

lemma more_output_shows: "(out_ready o1 \<Longrightarrow> shows_text t o1 (Done o2)) \<Longrightarrow> more_output o1 o2"
  by (auto simp: shows_text_def more_output_def)

lemma pass_frame_refl: "pass_frame st st"
  by (simp add: pass_frame_def same_objs_refl more_output_refl)

text \<open>The elementary effects.\<close>

lemma frame_memory [frame_intros]:
  "dt_store ops p a bs st = Done st' \<Longrightarrow> pass_frame st0 st \<Longrightarrow> pass_frame st0 st'"
  "dt_alloc ops p n al st = Done (x, st') \<Longrightarrow> pass_frame st0 st \<Longrightarrow> pass_frame st0 st'"
  by (auto simp: dt_store_def dt_alloc_def bind_outcome_Done_iff pass_frame_def split: if_split_asm)

lemma frame_upd_prop [frame_intros]:
  "upd_prop a f st = Done st' \<Longrightarrow> (\<And>q. prop_link (f q) = prop_link q) \<Longrightarrow> pass_frame st0 st \<Longrightarrow> pass_frame st0 st'"
  by (auto simp: upd_prop_def bind_outcome_Done_iff deref_def pass_frame_def intro!: same_objs_upd [where g = f]
      split: if_split_asm option.split_asm)

lemma frame_upd_node [frame_intros]:
  "upd_node a f st = Done st' \<Longrightarrow> (\<And>n. node_link (f n) = node_link n) \<Longrightarrow> pass_frame st0 st \<Longrightarrow> pass_frame st0 st'"
  by (auto simp: upd_node_def bind_outcome_Done_iff deref_def pass_frame_def intro!: same_objs_upd [where g = f]
      split: if_split_asm option.split_asm)

lemma frame_println [frame_intros]:
  assumes "fmt_println prs (dt_out st) = Done o1" and "list_all2 piece ts prs" and "pass_frame st0 st"
  shows "pass_frame st0 (st\<lparr>dt_out := o1\<rparr>)"
proof -
  have "more_output (dt_out st) o1"
    using shows_print(2) [OF assms(2), of "dt_out st"] assms(1)
    by (intro more_output_shows [where t = "concat ts @ [0x0A]"]) simp
  then show ?thesis
    using assms(3) by (auto simp: pass_frame_def intro: more_output_trans)
qed

text \<open>The loops that fill arrays.\<close>

lemma frame_store_cells [frame_intros]:
  "store_view ops p arr j v st = Done st' \<Longrightarrow> pass_frame st0 st \<Longrightarrow> pass_frame st0 st'"
  "store_address ops p zero_ok wide cells arr i src st = Done st' \<Longrightarrow> pass_frame st0 st \<Longrightarrow> pass_frame st0 st'"
  "store_size ops p cells arr i src st = Done st' \<Longrightarrow> pass_frame st0 st \<Longrightarrow> pass_frame st0 st'"
  by (auto simp: store_view_def store_address_def store_size_def Let_def split: if_split_asm
      intro: frame_memory)

lemma frame_reg_loop [frame_intros]:
  "reg_loop ops p ac sc buf aa sa n i j st = Done st' \<Longrightarrow> pass_frame st0 st \<Longrightarrow> pass_frame st0 st'"
proof (induction ops p ac sc buf aa sa n i j st rule: reg_loop.induct)
  case (1 ops p ac sc buf aa sa n i j st)
  show ?case
  proof (cases "i < n")
    case True
    then show ?thesis
      using 1(2) by (subst (asm) reg_loop.simps)
        (auto simp: bind_outcome_Done_iff Let_def
          intro: 1(1) [OF True refl] frame_store_cells(3) [OF _ frame_store_cells(2) [OF _ 1(3)]])
  next
    case False
    then show ?thesis using 1(2,3) by (subst (asm) reg_loop.simps) simp
  qed
qed

lemma frame_ranges_loop [frame_intros]:
  "ranges_loop ops p c pa sz buf cb pb sa n i j st = Done st' \<Longrightarrow> pass_frame st0 st \<Longrightarrow> pass_frame st0 st'"
proof (induction ops p c pa sz buf cb pb sa n i j st rule: ranges_loop.induct)
  case (1 ops p c pa sz buf cb pb sa n i j st)
  show ?case
  proof (cases "i < n")
    case True
    then show ?thesis
      using 1(2) by (subst (asm) ranges_loop.simps)
        (auto simp: bind_outcome_Done_iff Let_def intro: 1(1) [OF True refl refl]
          frame_store_cells(3) [OF _ frame_store_cells(2) [OF _ frame_store_cells(2) [OF _ 1(3)]]])
  next
    case False
    then show ?thesis using 1(2,3) by (subst (asm) ranges_loop.simps) simp
  qed
qed

lemma frame_compatible_loop:
  "compatible_loop ops p raw arr i j st = Some y \<Longrightarrow>
    pass_frame st0 st \<longrightarrow> (\<forall>st'. y = Done st' \<longrightarrow> pass_frame st0 st')"
proof (rule compatible_loop.raw_induct [where P = "\<lambda>ops p raw arr i j st y.
    pass_frame st0 st \<longrightarrow> (\<forall>st'. y = Done st' \<longrightarrow> pass_frame st0 st')"], goal_cases)
  case (1 loop ops p raw arr i j st y)
  then show ?case
    by (fastforce simp: bind_loop_Done_iff split: if_split_asm dest: frame_store_cells(1))
qed

lemma prop_link_simps [simp]:
  "prop_link (q\<lparr>pr_type := t\<rparr>) = prop_link q" "prop_link (q\<lparr>pr_data := d\<rparr>) = prop_link q"
  by (simp_all add: prop_link_def)

lemma node_link_simps [simp]:
  "node_link (n\<lparr>nd_address_cells := w\<rparr>) = node_link n" "node_link (n\<lparr>nd_size_cells := w\<rparr>) = node_link n"
  by (simp_all add: node_link_def)

text \<open>The rewritings of one property.\<close>

lemma frame_compatible [frame_intros]:
  assumes "rewrite_compatible ops p a st = Done st'" and "pass_frame st0 st"
  shows "pass_frame st0 st'"
  using assms(1)
proof (rule rewrite_compatibleE)
  fix q raw arr st1 st2 st3 st4 n
  assume al: "dt_alloc ops p (8 * (count_zeros (dt_mem ops p st) raw + 1)) 8 st = Done (arr, st1)"
    and u: "upd_prop a (\<lambda>q. q\<lparr>pr_data := D_compatible_array arr\<rparr>) st1 = Done st2"
    and l: "compatible_loop ops p raw arr 0 0 st2 = Some (Done st3)"
    and s: "store_view ops p arr (count_zeros (dt_mem ops p st) raw) str_view_empty st3 = Done st4"
    and v: "upd_prop a (\<lambda>q. q\<lparr>pr_type := COMPATIBLE\<rparr>) st4 = Done st'"
  have "pass_frame st0 st2"
    by (rule frame_upd_prop [OF u _ frame_memory(2) [OF al assms(2)]]) simp
  then have "pass_frame st0 st4"
    using frame_compatible_loop [OF l] frame_store_cells(1) [OF s] by blast
  then show "pass_frame st0 st'"
    by (rule frame_upd_prop [OF v, rotated]) simp
qed

lemma frame_values [frame_intros]:
  "rewrite_u32 ops p t f a st = Done (w, st') \<Longrightarrow> pass_frame st0 st \<Longrightarrow> pass_frame st0 st'"
  "rewrite_view t g a st = Done st' \<Longrightarrow> pass_frame st0 st \<Longrightarrow> pass_frame st0 st'"
  "rewrite_status ops p a st = Done st' \<Longrightarrow> pass_frame st0 st \<Longrightarrow> pass_frame st0 st'"
  by (auto simp: rewrite_u32_def rewrite_view_def rewrite_status_def Let_def bind_outcome_Done_iff
      split: if_split_asm elim!: frame_upd_prop)

lemma frame_arrays [frame_intros]:
  "property_rewrite_reg ops p node a st = Done st' \<Longrightarrow> pass_frame st0 st \<Longrightarrow> pass_frame st0 st'"
  "property_rewrite_ranges ops p node a st = Done st' \<Longrightarrow> pass_frame st0 st \<Longrightarrow> pass_frame st0 st'"
  unfolding property_rewrite_reg_def property_rewrite_ranges_def
  by (auto simp: Let_def bind_outcome_Done_iff split: if_split_asm
      elim!: frame_upd_prop frame_reg_loop frame_ranges_loop frame_memory(2))

lemma rewrite_property_frame:
  assumes "pass_frame st0 st" and "rewrite_property ops p node a st = Done (r, st')"
  shows "pass_frame st0 st'"
proof -
  note vals = frame_values [OF _ assms(1)] frame_compatible [OF _ assms(1)]
  have cells: "pass_frame st0 st'" if "rewrite_u32 ops p t f a st = Done (w, st1)"
    "upd_node node g st1 = Done st'" "\<And>n. node_link (g n) = node_link n" for t f w g st1 st'
    by (rule frame_upd_node [OF that(2,3) vals(1) [OF that(1)]])
  have unh: "list_all2 piece [ascii ''Unhandled device tree property: '', sv_bytes m v]
      [lit ''Unhandled device tree property: '', print_str_view m v]" for m v
    by (simp add: piece_lit piece_str_view)
  show ?thesis
    using assms(2) assms(1) unfolding rewrite_property_def
    by (auto simp: bind_outcome_Done_iff Let_def split: if_split_asm
        intro: vals cells frame_upd_prop frame_println [OF _ unh])
qed

lemma rewrite_late_frame:
  assumes "pass_frame st0 st" and "rewrite_late ops p node a st = Done st'"
  shows "pass_frame st0 st'"
  using assms(2) frame_arrays [OF _ assms(1)] assms(1)
  by (auto simp: rewrite_late_def bind_outcome_Done_iff Let_def split: if_split_asm)

interpretation framed_pass: pass_invariant ops p "pass_frame st0" for ops p st0
  by unfold_locales (fact rewrite_property_frame, fact rewrite_late_frame)

section \<open>Links without values\<close>

fun props_links :: "property objs \<Rightarrow> u64 \<Rightarrow> str_view list \<Rightarrow> bool" where
  "props_links P a [] \<longleftrightarrow> a = 0"
| "props_links P a (n # ns) \<longleftrightarrow> a \<noteq> 0 \<and> (\<exists>q. P a = Some q \<and> pr_name q = n \<and> props_links P (pr_next q) ns)"

text \<open>
  The node at \<open>a\<close> and what is linked below it is the tree, whatever the cells and the values
  are; lists are linked from the last element to the first.
\<close>

inductive tree_links :: "node objs \<Rightarrow> property objs \<Rightarrow> u64 \<Rightarrow> u64 \<Rightarrow> dt_tree \<Rightarrow> bool"
  and trees_links :: "node objs \<Rightarrow> property objs \<Rightarrow> u64 \<Rightarrow> u64 \<Rightarrow> dt_tree list \<Rightarrow> bool"
  for N P where
  tree_links: "a \<noteq> 0 \<Longrightarrow> N a = Some nd \<Longrightarrow> nd_name nd = name \<Longrightarrow> nd_parent nd = parent \<Longrightarrow>
    props_links P (nd_properties nd) (map fst (rev ps)) \<Longrightarrow>
    trees_links N P (nd_children nd) a (rev ts) \<Longrightarrow> tree_links N P a parent (Dt_node name ps ts)"
| links_end: "trees_links N P 0 parent []"
| links_more: "tree_links N P a parent t \<Longrightarrow> N a = Some nd \<Longrightarrow>
    trees_links N P (nd_next_sibling nd) parent ts \<Longrightarrow> trees_links N P a parent (t # ts)"

inductive_cases tree_linksE: "tree_links N P a parent t"

lemma props_at_links: "props_at P a ps 0 \<Longrightarrow> props_links P a (map fst ps)"
  by (induction ps arbitrary: a) auto

lemma tree_at_links:
  "tree_at N P a parent sib t \<Longrightarrow> tree_links N P a parent t \<and> (\<exists>nd. N a = Some nd \<and> nd_next_sibling nd = sib)"
  "trees_at N P a parent ts b \<Longrightarrow> b = 0 \<longrightarrow> trees_links N P a parent ts"
proof (induction rule: tree_at_trees_at.inducts)
  case (tree_at a name h parent c sib ps ts)
  then show ?case by (auto intro!: tree_links props_at_links simp flip: rev_map)
qed (auto intro: links_end links_more)

text \<open>The pass keeps a tree, and so does a new name of its root.\<close>

lemma same_objs_Some:
  "same_objs f objs objs' \<Longrightarrow> objs a = Some x \<Longrightarrow> \<exists>y. objs' a = Some y \<and> f y = f x"
  by (auto simp: same_objs_def dest!: spec [of _ a])

lemma props_links_same:
  "same_objs prop_link P P' \<Longrightarrow> props_links P a ns \<Longrightarrow> props_links P' a ns"
  by (induction ns arbitrary: a) (auto simp: prop_link_def dest: same_objs_Some)

lemma tree_links_same:
  assumes "same_objs node_link N N'" and "same_objs prop_link P P'"
  shows "tree_links N P a parent t \<Longrightarrow> tree_links N' P' a parent t"
    and "trees_links N P a parent ts \<Longrightarrow> trees_links N' P' a parent ts"
proof (induction rule: tree_links_trees_links.inducts)
  case (tree_links a nd name parent ps ts)
  obtain nd' where nd': "N' a = Some nd'" "node_link nd' = node_link nd"
    using same_objs_Some [OF assms(1) tree_links(4)] by blast
  with tree_links props_links_same [OF assms(2)] show ?case
    by (intro tree_links_trees_links.tree_links [of a _ nd']) (simp_all add: node_link_def)
next
  case (links_more a parent t nd ts)
  obtain nd' where "N' a = Some nd'" "node_link nd' = node_link nd"
    using same_objs_Some [OF assms(1) links_more(3)] by blast
  with links_more show ?case
    by (intro tree_links_trees_links.links_more [of _ _ a parent t nd']) (simp_all add: node_link_def)
qed (rule links_end)

lemma tree_links_rename:
  fixes s :: str_view
  assumes "N r = Some nd0" and "nd_parent nd0 = 0"
  defines "N' \<equiv> N(r := Some (nd0\<lparr>nd_name := s\<rparr>))"
  shows "tree_links N P a parent t \<Longrightarrow> parent \<noteq> 0 \<longrightarrow> tree_links N' P a parent t"
    and "trees_links N P a parent ts \<Longrightarrow> parent \<noteq> 0 \<longrightarrow> trees_links N' P a parent ts"
proof (induction rule: tree_links_trees_links.inducts)
  case (tree_links a nd name parent ps ts)
  then show ?case
    using assms by (cases "a = r") (auto intro!: tree_links_trees_links.tree_links)
next
  case (links_more a parent t nd ts)
  show ?case
  proof
    assume parent: "parent \<noteq> 0"
    have "N a = Some nd \<and> nd_parent nd = parent"
      using links_more(1,3) by (auto elim: tree_linksE)
    then have "N' a = Some nd" using parent assms by auto
    with links_more parent show "trees_links N' P a parent (t # ts)"
      by (auto intro: tree_links_trees_links.links_more)
  qed
qed (simp add: links_end)

fun rename_root :: "str_view \<Rightarrow> dt_tree \<Rightarrow> dt_tree" where
  "rename_root s (Dt_node name ps ts) = Dt_node s ps ts"

lemma tree_links_new_root:
  assumes "tree_links N P r 0 t" and "N r = Some nd"
  shows "tree_links (N(r := Some (nd\<lparr>nd_name := s\<rparr>))) P r 0 (rename_root s t)"
proof -
  obtain name ps ts where t: "t = Dt_node name ps ts" "r \<noteq> 0" "nd_parent nd = 0"
    "props_links P (nd_properties nd) (map fst (rev ps))" "trees_links N P (nd_children nd) r (rev ts)"
    using assms by (auto elim: tree_linksE)
  with tree_links_rename(2) [OF assms(2) t(3,5)] show ?thesis
    by (auto intro!: tree_links)
qed

section \<open>Printing linked nodes\<close>

text \<open>The names in a listing, and the names that a tree of views has in memory.\<close>

datatype name_tree = Names (nt_name: "u8 list") (nt_props: "u8 list list") (nt_children: "name_tree list")

fun listed_names :: "dt_listing \<Rightarrow> name_tree" where
  "listed_names (Listing name ps ls) = Names name (map fst ps) (map listed_names ls)"

fun tree_names :: "mem \<Rightarrow> dt_tree \<Rightarrow> name_tree" where
  "tree_names m (Dt_node name ps ts) =
     Names (sv_bytes m name) (map (sv_bytes m) (map fst (rev ps))) (rev (map (tree_names m) ts))"

lemma print_views_Done:
  "print_views m arr i o1 = Some y \<Longrightarrow> (\<forall>o2. y = Done o2 \<longrightarrow> (\<exists>vs. views_at m arr i vs))"
proof (rule print_views.raw_induct [where P = "\<lambda>m arr i o1 y. \<forall>o2. y = Done o2 \<longrightarrow> (\<exists>vs. views_at m arr i vs)"], goal_cases)
  case (1 loop m arr i o1 y)
  note IH = 1(2) [rule_format]
  show ?case
  proof (intro allI impI)
    fix o2 assume y: "y = Done o2"
    show "\<exists>vs. views_at m arr i vs"
    proof (cases "sv_size (load_view m arr i) = 0")
      case True
      then show ?thesis by (intro exI [of _ "[]"]) simp
    next
      case False
      then obtain o3 where "loop m arr (i + 1) o3 = Some y"
        using 1(3) unfolding y by (auto simp: bind_loop_Done_iff)
      then obtain vs where "views_at m arr (i + 1) vs" using IH y by blast
      with False show ?thesis by (intro exI [of _ "load_view m arr i # vs"]) simp
    qed
  qed
qed

lemma print_value_Done:
  assumes "print_value m q o1 = Done o2"
  shows "\<exists>t. shows_value m q t"
  using assms unfolding print_value_def shows_value_def
  by (cases "pr_type q"; cases "pr_data q")
    (simp_all, auto simp: bind_outcome_Done_iff join_spin_Done_iff dest: print_views_Done)

lemma print_properties_Done:
  assumes "m = dt_mem ops p st" and "P = dt_prop_objs st"
  shows "props_links P a ns \<Longrightarrow> print_properties ops p st a d o1 = Some (Done o2) \<Longrightarrow>
    \<exists>ps. props_listed m P a ps \<and> map fst ps = map (sv_bytes m) ns"
proof (induction ns arbitrary: a o1)
  case Nil
  then show ?case by (intro exI [of _ "[]"]) simp
next
  case (Cons n ns)
  obtain q where q: "a \<noteq> 0" "P a = Some q" "pr_name q = n" "props_links P (pr_next q) ns"
    using Cons.prems(1) by auto
  then have "get_prop a st = Done q" by (simp add: get_prop_def deref_def assms(2))
  then obtain o3 o4 where "print_value m q o3 = Done o4"
    and rest: "print_properties ops p st (pr_next q) d o4 = Some (Done o2)"
    using Cons.prems(2) q(1)
    by (subst (asm) print_properties.simps) (auto simp: bind_loop_Done_iff assms(1))
  then obtain t where "shows_value m q t" using print_value_Done by blast
  moreover obtain ps where "props_listed m P (pr_next q) ps" "map fst ps = map (sv_bytes m) ns"
    using Cons.IH [OF q(4) rest] by blast
  ultimately show ?case
    using q by (intro exI [of _ "(sv_bytes m n, t) # ps"]) simp
qed

text \<open>
  Printing returns only if every value can be shown: the nodes then show a listing with the
  names of the tree.
\<close>

lemma print_node_Done:
  assumes "print_node_recursive ops p st a d o1 = Done o2" and "get_node a st = Done nd" and "a \<noteq> 0"
  obtains o3 o4 where "print_node ops p st a d o1 = Done o4"
    and "print_properties ops p st (nd_properties nd) d o3 = Some (Done o4)"
    and "print_children ops p st (nd_children nd) (d + 1) o4 = Some (Done o2)"
  using assms
  by (auto simp: print_node_recursive_def print_node_def bind_outcome_Done_iff join_spin_Done_iff)

lemma print_links_Done:
  assumes "m = dt_mem ops p st" and "N = dt_node_objs st" and "P = dt_prop_objs st"
  shows "tree_links N P a parent t \<Longrightarrow> \<forall>d o1 o2. print_node_recursive ops p st a d o1 = Done o2 \<longrightarrow>
      (\<exists>l. node_listed m N P a l \<and> listed_names l = tree_names m t)"
    and "trees_links N P a parent ts \<Longrightarrow> \<forall>d o1 o2. print_children ops p st a d o1 = Some (Done o2) \<longrightarrow>
      (\<exists>ls. nodes_listed m N P a ls \<and> map listed_names ls = map (tree_names m) ts)"
proof (induction rule: tree_links_trees_links.inducts)
  case (tree_links a nd name parent ps ts)
  show ?case
  proof (intro allI impI)
    fix d o1 o2 assume run: "print_node_recursive ops p st a d o1 = Done o2"
    have "get_node a st = Done nd" using tree_links(1,4) by (simp add: get_node_def deref_def assms(2))
    then obtain o3 o4 where props: "print_properties ops p st (nd_properties nd) d o3 = Some (Done o4)"
      and children: "print_children ops p st (nd_children nd) (d + 1) o4 = Some (Done o2)"
      using print_node_Done [OF run _ tree_links(1)] by blast
    obtain qs where qs: "props_listed m P (nd_properties nd) qs" "map fst qs = map (sv_bytes m) (map fst (rev ps))"
      using print_properties_Done [OF assms(1,3) tree_links(5) props] by blast
    obtain ls where ls: "nodes_listed m N P (nd_children nd) ls"
      "map listed_names ls = map (tree_names m) (rev ts)"
      using tree_links(7) children by blast
    have "node_listed m N P a (Listing (sv_bytes m (nd_name nd)) qs ls)"
      by (rule node_listed [OF tree_links(1,4) qs(1) ls(1)])
    then show "\<exists>l. node_listed m N P a l \<and> listed_names l = tree_names m (Dt_node name ps ts)"
      using qs(2) ls(2) tree_links(2)
      by (intro exI [of _ "Listing (sv_bytes m (nd_name nd)) qs ls"]) (simp add: rev_map)
  qed
next
  case (links_end parent)
  show ?case by (intro allI impI exI [of _ "[]"]) (simp add: nodes_end)
next
  case (links_more a parent t nd ts)
  have a: "a \<noteq> 0" using links_more(1) by (auto elim: tree_linksE)
  then have get: "get_node a st = Done nd" using links_more(3) by (simp add: get_node_def deref_def assms(2))
  show ?case
  proof (intro allI impI)
    fix d o1 o2 assume "print_children ops p st a d o1 = Some (Done o2)"
    then obtain o3 o4 where "print_node ops p st a d o1 = Done o3"
      "print_children ops p st (nd_children nd) (d + 1) o3 = Some (Done o4)"
      and rest: "print_children ops p st (nd_next_sibling nd) d o4 = Some (Done o2)"
      using a get
      by (subst (asm) print_children.simps) (auto simp: bind_loop_Done_iff bind_eq_Some_conv)
    then have "print_node_recursive ops p st a d o1 = Done o4"
      using a get by (simp add: print_node_recursive_def)
    then obtain l where "node_listed m N P a l" "listed_names l = tree_names m t"
      using links_more(2) by blast
    moreover obtain ls where "nodes_listed m N P (nd_next_sibling nd) ls"
      "map listed_names ls = map (tree_names m) ts"
      using links_more(5) rest by blast
    ultimately show "\<exists>ls. nodes_listed m N P a ls \<and> map listed_names ls = map (tree_names m) (t # ts)"
      using links_more(3) by (intro exI [of _ "l # ls"]) (auto intro: nodes_link)
  qed
qed

lemma print_tree_Done:
  assumes "print_device_tree ops p st = Done st'" and "out_ready (dt_out st)" and "dt_initialized st"
    and "tree_links (dt_node_objs st) (dt_prop_objs st) (dt_root st) parent t"
  obtains l o2 where "st' = st\<lparr>dt_out := o2\<rparr>" and "listed_names l = tree_names (dt_mem ops p st) t"
    and "node_listed (dt_mem ops p st) (dt_node_objs st) (dt_prop_objs st) (dt_root st) l"
    and "out_log o2 = out_log (dt_out st) @ map (Pair (out_put_char (dt_out st)))
      (ascii ''Printing the device tree:'' @ [0x0A] @ listing_text 0 l)"
proof -
  obtain o1 o2 where "print_node_recursive ops p st (dt_root st) 0 o1 = Done o2"
    using assms(1,3) by (auto simp: print_device_tree_def bind_outcome_Done_iff)
  then obtain l where l: "node_listed (dt_mem ops p st) (dt_node_objs st) (dt_prop_objs st) (dt_root st) l"
    "listed_names l = tree_names (dt_mem ops p st) t"
    using print_links_Done(1) [OF refl refl refl assms(4)] by blast
  show ?thesis
    by (rule print_tree_listing [OF assms(2), of ops p l])
      (use l assms(1,3) that [OF _ l(2,1)] in auto)
qed

section \<open>The pass as a whole\<close>

text \<open>A pass keeps the tree of its root; if it succeeds, the root has a new name.\<close>

lemma rewrite_pass_links:
  assumes "rewrite_pass ops p slash st = Done (e, st')"
    and "tree_links (dt_node_objs st) (dt_prop_objs st) (stack_index sizeof_node (dt_nodes st) 0) 0 t"
  shows "more_output (dt_out st) (dt_out st')"
    and "is_ok e \<Longrightarrow> dt_initialized st' \<and> dt_root st' = stack_index sizeof_node (dt_nodes st) 0"
    and "tree_links (dt_node_objs st') (dt_prop_objs st') (stack_index sizeof_node (dt_nodes st) 0) 0
      (if is_ok e then rename_root slash t else t)"
proof -
  let ?root = "stack_index sizeof_node (dt_nodes st) 0"
  have no_err: "\<not> is_ok (error_push err DT_REWRITE_FAILED)" for err
    using is_err_push [of DT_REWRITE_FAILED err] by (simp add: is_err_def)
  have "more_output (dt_out st) (dt_out st') \<and>
    (is_ok e \<longrightarrow> dt_initialized st' \<and> dt_root st' = ?root) \<and>
    tree_links (dt_node_objs st') (dt_prop_objs st') ?root 0 (if is_ok e then rename_root slash t else t)"
  proof (cases "st_size (dt_nodes st) = 0")
    case True
    then show ?thesis using assms by (auto simp: rewrite_pass_def more_output_refl)
  next
    case False
    obtain st1 err st2 where one: "upd_node ?root (\<lambda>n. n\<lparr>nd_address_cells := 2, nd_size_cells := 1\<rparr>)
        (st\<lparr>dt_root := ?root\<rparr>) = Done st1"
      and rec: "recursive_property_rewrite ops p ?root st1 = Done (err, st2)"
      and tail: "(if is_err err then Done (error_push err DT_REWRITE_FAILED, st2)
           else bind_outcome (upd_node ?root (\<lambda>n. n\<lparr>nd_name := slash\<rparr>)
               (st2\<lparr>dt_initialized := True\<rparr>)) (\<lambda>st3. Done (error_of SUCCESS, st3))) = Done (e, st')"
      using assms(1) False by (auto simp: rewrite_pass_def Let_def bind_outcome_Done_iff)
    have "pass_frame (st\<lparr>dt_root := ?root\<rparr>) st1"
      by (rule frame_upd_node [OF one _ pass_frame_refl]) simp
    then have frame: "pass_frame (st\<lparr>dt_root := ?root\<rparr>) st2"
      using framed_pass.recursive_keeps [OF rec] by blast
    then have two: "tree_links (dt_node_objs st2) (dt_prop_objs st2) ?root 0 t"
      using tree_links_same(1) assms(2) by (fastforce simp: pass_frame_def)
    show ?thesis
    proof (cases "is_err err")
      case True
      then show ?thesis using tail frame two no_err by (auto simp: pass_frame_def)
    next
      case False
      then have "upd_node ?root (\<lambda>n. n\<lparr>nd_name := slash\<rparr>) (st2\<lparr>dt_initialized := True\<rparr>) = Done st'"
        and e: "is_ok e" using tail by (auto simp: bind_outcome_Done_iff)
      then obtain nd where nd: "dt_node_objs st2 ?root = Some nd" "st' = st2\<lparr>dt_initialized := True,
          dt_node_objs := (dt_node_objs st2)(?root := Some (nd\<lparr>nd_name := slash\<rparr>))\<rparr>"
        by (auto simp: upd_node_def bind_outcome_Done_iff deref_def split: if_split_asm option.split_asm)
      then show ?thesis
        using tree_links_new_root [OF two nd(1)] frame e by (simp add: pass_frame_def)
    qed
  qed
  then show "more_output (dt_out st) (dt_out st')"
    "is_ok e \<Longrightarrow> dt_initialized st' \<and> dt_root st' = ?root"
    "tree_links (dt_node_objs st') (dt_prop_objs st') ?root 0 (if is_ok e then rename_root slash t else t)"
    by blast+
qed



end
