(* ===== verification/Kernel_Properties.thy ===== *)
theory Kernel_Properties
  imports Kernel_Entry Device_Tree_Properties Device_Tree_Links Output_Properties
begin

text \<open>
  What the entry point does before it turns to the devices: the usable regions of the boot
  loader's memory map become the table of the memory manager.
\<close>

section \<open>The memory map\<close>

text \<open>The usable areas among the entries from \<open>i\<close> on.\<close>

definition entry_area :: "platform_info \<Rightarrow> mem \<Rightarrow> nat \<Rightarrow> u64 \<times> u64" where
  "entry_area p m i = (entry_base m (memmap_entry p (of_nat i)), entry_length m (memmap_entry p (of_nat i)))"

definition usable_areas :: "platform_info \<Rightarrow> mem \<Rightarrow> nat \<Rightarrow> (u64 \<times> u64) list" where
  "usable_areas p m i = map (entry_area p m)
     (filter (\<lambda>j. entry_type m (memmap_entry p (of_nat j)) = LIMINE_MEMMAP_USABLE)
       [i..<unat (memmap_count p)])"

lemma usable_areas_Nil: "unat (memmap_count p) \<le> i \<Longrightarrow> usable_areas p m i = []"
  by (simp add: usable_areas_def)

lemma usable_areas_step:
  "i < unat (memmap_count p) \<Longrightarrow> usable_areas p m i =
    (if entry_type m (memmap_entry p (of_nat i)) = LIMINE_MEMMAP_USABLE
     then entry_area p m i # usable_areas p m (Suc i) else usable_areas p m (Suc i))"
  by (simp add: usable_areas_def upt_conv_Cons)

text \<open>
  The protocol's promise about the memory map: usable areas are whole pages of physical
  memory, below the limit and apart from each other. No entry lies in the buffer of
  the manager.
\<close>

definition areas_apart :: "u64 \<times> u64 \<Rightarrow> u64 \<times> u64 \<Rightarrow> bool" where
  "areas_apart a b \<longleftrightarrow> unat (fst a) + unat (snd a) < unat (fst b) \<or> unat (fst b) + unat (snd b) \<le> unat (fst a)"

definition map_promise :: "u64 \<Rightarrow> platform_info \<Rightarrow> mem \<Rightarrow> bool" where
  "map_promise buf p m \<longleftrightarrow>
     (\<forall>a \<in> set (usable_areas p m 0). area_ok (unat (fst a)) (unat (snd a))) \<and>
     sorted_wrt areas_apart (usable_areas p m 0) \<and>
     (\<forall>i x. i < memmap_count p \<longrightarrow> in_range x (memmap_entry p i, 24) \<longrightarrow>
       \<not> in_range (hhdm_virt_to_phys p x) (buf, 1576))"

section \<open>Adding the areas\<close>

text \<open>The manager after \<open>initialize\<close> and the areas \<open>as\<close>.\<close>

definition managing :: "u64 \<Rightarrow> mem \<Rightarrow> (u64 \<times> u64) list \<Rightarrow> pmm \<Rightarrow> bool" where
  "managing buf m as s \<longleftrightarrow> pmm_inv buf s \<and> pm_pol s = FIRST_FIT \<and>
     pmm_view s = map (\<lambda>(b, l). fresh_view (unat b) (unat l)) as \<and>
     unat (m_free (pm_block_allocator s)) + 2 * length as = 64 \<and>
     (\<forall>x. \<not> in_range x (buf, 1576) \<longrightarrow> pm_mem s x = m x)"

lemma managing_regions:
  assumes "managing buf m as s"
  shows "map (\<lambda>R. (mr_base R, mr_length R)) (active_regions s) = as" "unat (pm_region_count s) = length as"
proof -
  have view: "map (view_region (pm_mem s)) (active_regions s) =
      map (\<lambda>(b, l). fresh_view (unat b) (unat l)) as"
    using assms by (simp add: managing_def pmm_view_def)
  then have "map (\<lambda>V. (av_base V, av_length V)) (map (view_region (pm_mem s)) (active_regions s)) =
      map (\<lambda>V. (av_base V, av_length V)) (map (\<lambda>(b, l). fresh_view (unat b) (unat l)) as)"
    by simp
  then have "map (map_prod unat unat) (map (\<lambda>R. (mr_base R, mr_length R)) (active_regions s)) =
      map (map_prod unat unat) as"
    by (simp add: view_region_def fresh_view_def o_def split_def map_prod_def)
  moreover have "inj (map_prod (unat :: u64 \<Rightarrow> nat) (unat :: u64 \<Rightarrow> nat))"
    by (intro prod.inj_map) (simp_all add: inj_on_def word_unat_eq_iff)
  ultimately show "map (\<lambda>R. (mr_base R, mr_length R)) (active_regions s) = as"
    by (metis (no_types) inj_map_eq_map)
  then have "length (active_regions s) = length as" by (metis length_map)
  then show "unat (pm_region_count s) = length as"
    using assms length_active_regions [of buf s] by (simp add: managing_def)
qed

lemma managing_start:
  assumes "buf_ok buf"
  obtains s where "pmm_initialize buf FIRST_FIT (pmm_boot m) = Done s" and "managing buf m [] s"
proof -
  obtain s where "pmm_initialize buf FIRST_FIT (pmm_boot m) = Done s" "pmm_inv buf s"
    "pm_pol s = FIRST_FIT" "active_regions s = []" "m_free (pm_block_allocator s) = 64"
    "\<And>x. \<not> in_range x (buf, 1576) \<Longrightarrow> pm_mem s x = m x"
    by (rule initialize_ok [OF assms, of FIRST_FIT m]) blast
  then show ?thesis by (intro that [of s]) (simp_all add: managing_def pmm_view_def)
qed

lemma add_area:
  assumes "managing buf m as s" and "buf_ok buf" and "area_ok (unat b) (unat l)"
    and "\<forall>a \<in> set as. areas_apart a (b, l)"
  shows "if length as < 16
    then \<exists>s'. add_region b l s = Done (error_of SUCCESS, s') \<and> managing buf m (as @ [(b, l)]) s'
    else add_region b l s = Done (error_of PMM_REGION_LIST_FULL, s)"
proof -
  have inv: "pmm_inv buf s" using assms(1) by (simp add: managing_def)
  have b: "0 < unat b" "0 < unat l" "4096 dvd unat b" "4096 dvd unat l" "unat b + unat l \<le> phys_limit"
    using assms(3) by (simp_all add: area_ok_def)
  have len: "4096 \<le> unat l" using b(2,4) by (auto elim: dvdE)
  note u = usable_exact(1) [OF b(3)] usable_exact(2) [OF b(3,4)]
  note R = managing_regions [OF assms(1)]
  show ?thesis
  proof (cases "length as < 16")
    case True
    have far: "areas_apart (mr_base R, mr_length R) (b, l)" if "R \<in> set (active_regions s)" for R
      using assms(4) that unfolding R(1) [symmetric] by auto
    have "\<not> covers R (unat b)" if "R \<in> set (active_regions s)" for R
      using far [OF that] b(2) by (auto simp: covers_def areas_apart_def)
    then have v: "add_region_verdict s (unat b) (unat l) = SUCCESS"
      using b(1) len R(2) True u by (auto simp: add_region_verdict_def list_ex_iff)
    have nodes: "2 \<le> unat (m_free (pm_block_allocator s))"
      using assms(1) True by (simp add: managing_def)
    obtain s' N where s': "add_region b l s = Done (error_of SUCCESS, s')"
      "active_regions s' = active_regions s @ [N]" "unat (mr_base N) = usable_base (unat b)"
      "unat (mr_length N) = usable_length (unat b) (unat l)" "mr_free_bytes N = mr_length N"
      "mr_free_blocks N \<noteq> 0" "mb_base (pm_mem s') (mr_free_blocks N) = mr_base N"
      "mb_length (pm_mem s') (mr_free_blocks N) = mr_length N" "pmm_inv buf s'" "pm_pol s' = pm_pol s"
      "unat (m_free (pm_block_allocator s')) = unat (m_free (pm_block_allocator s)) - 2"
      "\<And>x. \<not> in_range x (buf, 1576) \<Longrightarrow> pm_mem s' x = pm_mem s x"
      "\<And>j x. j < used_nodes s \<Longrightarrow> in_range x (node_addr buf j, 24) \<Longrightarrow> pm_mem s' x = pm_mem s x"
      by (rule add_region_success [OF inv assms(2) nodes b(5) _ v])
        (use far u in \<open>force simp: areas_apart_def\<close>)+
    have "view_region (pm_mem s') N = fresh_view (unat b) (unat l)"
      using s'(3-8) u by (simp add: view_region_def region_block_def fresh_view_def)
    then have "pmm_view s' = pmm_view s @ [fresh_view (unat b) (unat l)]"
      using pmm_view_append [OF inv s'(2,13)] by simp
    then have "managing buf m (as @ [(b, l)]) s'"
      using assms(1) s'(9-12) nodes by (simp add: managing_def)
    with s'(1) True show ?thesis by auto
  next
    case False
    then have "add_region_verdict s (unat b) (unat l) = PMM_REGION_LIST_FULL"
      using b(1) R(2) by (simp add: add_region_verdict_def)
    then show ?thesis
      using False add_region_rejects [OF inv b(5), of] u len by simp
  qed
qed

text \<open>A panic with the description of an error code.\<close>

lemma panic_error_halt:
  assumes "out_put_char o1 \<noteq> 0"
  shows "panic_error (error_of c) o1 = bind_outcome (error_str (error_of c)) (\<lambda>msg. Halt (Panic msg))"
proof -
  have "\<exists>o2. panic_message [lit msg] o1 = Done o2" for msg
    using assms by (simp add: panic_message_def fmt_println_def println_with_func_def lit_sent emit_sent)
  then show ?thesis
    unfolding panic_error_def by (metis bind_outcome.simps(1) outcome.exhaust bind_outcome.simps(2))
qed

lemma entry_fields:
  assumes "map_promise buf p vm" and "vm = (\<lambda>v. m0 (hhdm_virt_to_phys p v))" and "i < memmap_count p"
    and "\<forall>x. \<not> in_range x (buf, 1576) \<longrightarrow> pm_mem (dt_sup st) x = m0 x"
  shows "entry_type (dt_mem pmm_ops p st) (memmap_entry p i) = entry_type vm (memmap_entry p i)"
    and "entry_base (dt_mem pmm_ops p st) (memmap_entry p i) = entry_base vm (memmap_entry p i)"
    and "entry_length (dt_mem pmm_ops p st) (memmap_entry p i) = entry_length vm (memmap_entry p i)"
proof -
  have same: "dt_mem pmm_ops p st x = vm x" if "in_range x (memmap_entry p i, 24)" for x
    using assms that by (auto simp: map_promise_def dt_mem_def)
  have sub: "in_range x (memmap_entry p i, 24)" if "in_range x (memmap_entry p i + of_nat k, 8)" "k \<le> 16" for x k
    using region_part [of k 8 24 x "memmap_entry p i"] that by simp
  show "entry_type (dt_mem pmm_ops p st) (memmap_entry p i) = entry_type vm (memmap_entry p i)"
    unfolding entry_type_def by (intro load64_frame same sub [of _ 16]) simp_all
  show "entry_base (dt_mem pmm_ops p st) (memmap_entry p i) = entry_base vm (memmap_entry p i)"
    unfolding entry_base_def by (intro load64_frame same sub [of _ 0]) simp_all
  show "entry_length (dt_mem pmm_ops p st) (memmap_entry p i) = entry_length vm (memmap_entry p i)"
    unfolding entry_length_def by (intro load64_frame same sub [of _ 8]) simp_all
qed

lemma memmap_loop_adds:
  assumes "buf_ok buf" and "map_promise buf p vm" and "vm = (\<lambda>v. m0 (hhdm_virt_to_phys p v))"
  shows "managing buf m0 as (dt_sup st) \<Longrightarrow> out_put_char (dt_out st) \<noteq> 0 \<Longrightarrow>
    as @ usable_areas p vm (unat i) = usable_areas p vm 0 \<Longrightarrow>
    if length (usable_areas p vm 0) \<le> 16
    then \<exists>s. memmap_loop p i st = Done (st\<lparr>dt_sup := s\<rparr>) \<and> managing buf m0 (usable_areas p vm 0) s
    else memmap_loop p i st = Halt (Panic (error_strings ! 7))"
proof (induction "unat (memmap_count p) - unat i" arbitrary: as st i rule: less_induct)
  case less
  show ?case
  proof (cases "i < memmap_count p")
    case False
    then have "as = usable_areas p vm 0"
      using less.prems(3) usable_areas_Nil [of p "unat i" vm] by (simp add: word_less_nat_alt)
    moreover have "length as \<le> 16"
      using managing_regions(2) [OF less.prems(1)] less.prems(1) pmm_invD(2) [of buf "dt_sup st"]
      by (simp add: managing_def)
    moreover have "st\<lparr>dt_sup := dt_sup st\<rparr> = st" by simp
    moreover have "memmap_loop p i st = Done st"
      using False by (subst memmap_loop.simps) simp
    ultimately show ?thesis
      using less.prems(1) by (auto intro!: exI [of _ "dt_sup st"])
  next
    case True
    let ?e = "memmap_entry p i" let ?A = "usable_areas p vm"
    have succ: "unat (i + 1) = Suc (unat i)" by (rule unat_Suc_less [OF True])
    have shorter: "unat (memmap_count p) - unat (i + 1) < unat (memmap_count p) - unat i"
      using True by (simp add: succ word_less_nat_alt)
    have mem: "\<forall>x. \<not> in_range x (buf, 1576) \<longrightarrow> pm_mem (dt_sup st) x = m0 x"
      using less.prems(1) by (simp add: managing_def)
    note F = entry_fields [OF assms(2,3) True mem]
    show ?thesis
    proof (cases "entry_type vm ?e = LIMINE_MEMMAP_USABLE")
      case False
      then have "?A (unat i) = ?A (Suc (unat i))"
        using True usable_areas_step [of "unat i" p vm] by (simp add: word_less_nat_alt)
      moreover have "memmap_loop p i st = memmap_loop p (i + 1) st"
        using False True F(1) by (subst memmap_loop.simps) (simp add: Let_def)
      ultimately show ?thesis
        using less.hyps [OF shorter less.prems(1,2)] less.prems(3) by (simp add: succ)
    next
      case usable: True
      let ?b = "entry_base vm ?e" and ?l = "entry_length vm ?e"
      have split: "as @ (?b, ?l) # ?A (Suc (unat i)) = ?A 0"
        using usable True usable_areas_step [of "unat i" p vm] less.prems(3)
        by (simp add: word_less_nat_alt entry_area_def)
      have "area_ok (unat ?b) (unat ?l)" "\<forall>a \<in> set as. areas_apart a (?b, ?l)"
        using assms(2) unfolding map_promise_def split [symmetric] by (auto simp: sorted_wrt_append)
      note add = add_area [OF less.prems(1) assms(1) this]
      have run: "memmap_loop p i st =
          bind_outcome (add_region ?b ?l (dt_sup st)) (\<lambda>(err, s).
            if is_err err then panic_error err (dt_out st) else memmap_loop p (i + 1) (st\<lparr>dt_sup := s\<rparr>))"
        using True usable F by (subst memmap_loop.simps) (simp add: Let_def)
      show ?thesis
      proof (cases "length as < 16")
        case True
        then obtain s where s: "add_region ?b ?l (dt_sup st) = Done (error_of SUCCESS, s)"
          "managing buf m0 (as @ [(?b, ?l)]) s" using add by auto
        show ?thesis
          using less.hyps [OF shorter, of "as @ [(?b, ?l)]" "st\<lparr>dt_sup := s\<rparr>"] s split less.prems(2)
          by (simp add: run succ split: if_split_asm)
      next
        case False
        moreover have "length (?A 0) > length as" unfolding split [symmetric] by simp
        ultimately show ?thesis
          using add by (simp add: run panic_error_halt [OF less.prems(2)] error_str_def)
      qed
    qed
  qed
qed

section \<open>Booting\<close>

text \<open>The line about the free memory.\<close>

definition free_line :: "u64 \<Rightarrow> nat \<Rightarrow> (u64 \<times> u8) list \<Rightarrow> bool" where
  "free_line sink n log \<longleftrightarrow> (\<exists>digs. number_ok 16 digs \<and> read_number 16 digs = n \<and>
     log = map (Pair sink) (ascii ''PMM free bytes: '' @ ascii ''0x'' @ digs @ [0x0A]))"

lemma print_free_line:
  assumes "sink \<noteq> 0"
  obtains o2 where "fmt_println [lit ''PMM free bytes: '', print_hex (w :: u64)]
      (out_boot\<lparr>out_put_char := sink\<rparr>) = Done o2"
    and "free_line sink (unat w) (out_log o2)" and "out_ready o2" and "out_put_char o2 = sink"
proof -
  let ?o = "sent sink (ascii ''PMM free bytes: '') (out_boot\<lparr>out_put_char := sink\<rparr>)"
  have ready: "out_ready ?o" using assms by (simp add: out_ready_def out_boot_def)
  have "prints_number (map (Pair sink) (ascii ''0x'')) sink 16 (unat w) ?o (print_hex w sink ?o)"
    using prints_zero [OF assms ready, of 16 sink "ascii ''0x''"]
      prints_numberI [OF assms ready, of 16 "unat w" sink "ascii ''0x''"]
      digits_fit [of 64 16 w]
    by (simp add: print_hex_def print_literal_sent [OF assms] unat_eq_0)
  then obtain digs o2 where o2: "print_hex w sink ?o = Done o2"
    "out_log o2 = out_log ?o @ map (Pair sink) (ascii ''0x'') @ map (Pair sink) digs"
    "number_ok 16 digs" "read_number 16 digs = unat w" "out_ready o2" "out_put_char o2 = out_put_char ?o"
    by (auto simp: prints_number_def)
  show ?thesis
    by (rule that [of "sent sink [0x0A] o2"])
      (use assms o2 in \<open>auto simp: fmt_println_def println_with_func_def lit_sent emit_sent free_line_def
        out_boot_def intro!: exI [of _ digs]\<close>)
qed

text \<open>The table that the memory map gives, and the state in which the device code starts.\<close>

definition booted :: "u64 \<Rightarrow> u64 \<Rightarrow> mem \<Rightarrow> (u64 \<times> u64) list \<Rightarrow> pmm \<Rightarrow> out \<Rightarrow> bool" where
  "booted sink buf m areas s o2 \<longleftrightarrow> pmm_sound buf s \<and> alloc_ready buf s \<and>
     pmm_view s = map (\<lambda>(b, l). fresh_view (unat b) (unat l)) areas \<and>
     free_line sink (sum_list (map (\<lambda>(b, l). unat l) areas)) (out_log o2) \<and> out_ready o2 \<and>
     out_put_char o2 = sink \<and> (\<forall>x. \<not> in_range x (buf, 1576) \<longrightarrow> pm_mem s x = m x)"

lemma kernel_main_boots:
  assumes "buf_ok buf" and "sink \<noteq> 0"
    and "parse_platform_info vm q = Done p" and "mode p = LIMINE_PAGING_MODE_RISCV_SV39"
    and "vm = (\<lambda>v. m (hhdm_virt_to_phys p v))" and "map_promise buf p vm"
  defines "areas \<equiv> usable_areas p vm 0"
  shows "if length areas \<le> 16
    then \<exists>s o2. kernel_main sink buf slash q vm m = kernel_devices p slash (dt_boot s o2) \<and>
      booted sink buf m areas s o2
    else kernel_main sink buf slash q vm m =
      Halt (Panic ''PMM_REGION_LIST_FULL: Region list is full, can't add more regions.'')"
proof -
  let ?o = "out_boot\<lparr>out_put_char := sink\<rparr>"
  obtain s0 where s0: "pmm_initialize buf FIRST_FIT (pmm_boot m) = Done s0" "managing buf m [] s0"
    by (rule managing_start [OF assms(1)])
  have put: "out_put_char (dt_out (dt_boot s0 ?o)) \<noteq> 0" and sup: "dt_sup (dt_boot s0 ?o) = s0"
    using assms(2) by (simp_all add: dt_boot_def)
  have run: "kernel_main sink buf slash q vm m =
      bind_outcome (memmap_loop p 0 (dt_boot s0 ?o)) (\<lambda>st.
        bind_outcome (fmt_println [lit ''PMM free bytes: '', print_hex (free_memory (dt_sup st))] (dt_out st))
          (\<lambda>o2. kernel_devices p slash (st\<lparr>dt_out := o2\<rparr>)))"
    using assms(2-4) s0(1) by (simp add: kernel_main_def fmt_initialize_def)
  note loop = memmap_loop_adds [OF assms(1,6,5), of "[]" "dt_boot s0 ?o" 0, unfolded sup, OF s0(2) put]
  show ?thesis
  proof (cases "length areas \<le> 16")
    case False
    then show ?thesis
      using loop by (simp add: run areas_def) (simp add: error_strings_def)
  next
    case True
    then obtain s where s: "memmap_loop p 0 (dt_boot s0 ?o) = Done ((dt_boot s0 ?o)\<lparr>dt_sup := s\<rparr>)"
      "managing buf m areas s" using loop by (auto simp: areas_def)
    obtain o2 where o2: "fmt_println [lit ''PMM free bytes: '', print_hex (free_memory s)] ?o = Done o2"
      "free_line sink (unat (free_memory s)) (out_log o2)" "out_ready o2" "out_put_char o2 = sink"
      by (rule print_free_line [OF assms(2)])
    have inv: "pmm_inv buf s" using s(2) by (simp add: managing_def)
    have "unat (free_memory s) = sum_list (map (\<lambda>(b, l). unat l) areas)"
      using s(2) counters_sum(2) [OF inv] by (simp add: managing_def fresh_view_def o_def split_def)
    then have "free_line sink (sum_list (map (\<lambda>(b, l). unat l) areas)) (out_log o2)"
      using o2(2) by simp
    moreover have "kernel_main sink buf slash q vm m = kernel_devices p slash (dt_boot s o2)"
      using s(1) o2(1) by (simp add: run dt_boot_def)
    moreover have "pmm_sound buf s" "alloc_ready buf s"
      "pmm_view s = map (\<lambda>(b, l). fresh_view (unat b) (unat l)) areas"
      "\<forall>x. \<not> in_range x (buf, 1576) \<longrightarrow> pm_mem s x = m x"
      using s(2) assms(1) True by (simp_all add: managing_def pmm_sound_def alloc_ready_def)
    ultimately show ?thesis
      using True o2(3,4) by (auto simp: booted_def)
  qed
qed


definition demo_requests :: limine_requests where
  "demo_requests = \<lparr>base_revision = 0, framebuffer_req = Some (1, 0xFFFFFFC000002040), paging_mode_req = Some 0,
     memmap_req = Some (2, 0xFFFFFFC000002000), dtb_req = Some 0xFFFFFFC000001000, hhdm_req = Some 0xFFFFFFC000000000\<rparr>"

definition demo_info :: platform_info where
  "demo_info = \<lparr>framebuffer_count = 1, framebuffers = 0xFFFFFFC000002040, mode = 0, memmap_count = 2,
     memmap = 0xFFFFFFC000002008, device_tree_blob = 0xFFFFFFC000001000, hhdm_base = 0xFFFFFFC000000000\<rparr>"

lemma demo_map_words:
  "load64 demo_blob 0x2000 = 0xFFFFFFC000002008" "load64 demo_blob 0x2018 = 1"
  "load64 demo_blob 0x2020 = 0x80000000" "load64 demo_blob 0x2028 = 0x10000" "load64 demo_blob 0x2030 = 0"
  "load64 demo_blob 0x2040 = 0xFFFFFFC000002048" "load64 demo_blob 0x2048 = 0xFFFFFFC000003000"
  "load64 demo_blob 0x2060 = 4"
  by (simp_all add: load64_def load_bytes_def upt_rec demo_blob_def)

definition demo_virtual :: mem where
  "demo_virtual v = demo_blob (hhdm_virt_to_phys demo_info v)"

lemma demo_virtual_load: "load_bytes n demo_virtual v = load_bytes n demo_blob (v - 0xFFFFFFC000000000)"
  by (simp add: load_bytes_def demo_virtual_def hhdm_virt_to_phys_def demo_info_def diff_add_eq)

lemma demo_boot:
  shows "parse_platform_info demo_virtual demo_requests = Done demo_info"
    and "usable_areas demo_info demo_virtual 0 = [(0x80000000, 0x10000)]"
    and "map_promise demo_buf demo_info demo_virtual"
    and "mode demo_info = LIMINE_PAGING_MODE_RISCV_SV39"
proof -
  have load: "load64 demo_virtual v = load64 demo_blob (v - 0xFFFFFFC000000000)" for v
    by (simp add: load64_def demo_virtual_load)
  show "parse_platform_info demo_virtual demo_requests = Done demo_info"
    by (simp add: parse_platform_info_def demo_requests_def load demo_map_words)
      (simp add: demo_info_def)
  show areas: "usable_areas demo_info demo_virtual 0 = [(0x80000000, 0x10000)]"
    by (simp add: usable_areas_def demo_info_def upt_rec)
      (simp add: entry_area_def entry_type_def entry_base_def entry_length_def memmap_entry_def
        load demo_map_words LIMINE_MEMMAP_USABLE_def)
  have "\<not> in_range (hhdm_virt_to_phys demo_info x) (demo_buf, 1576)"
    if "i < memmap_count demo_info" "in_range x (memmap_entry demo_info i, 24)" for i x
  proof -
    have "i = 0 \<or> i = 1"
      using that(1) by (auto simp: demo_info_def word_less_nat_alt word_unat_eq_iff)
    then have "unat (x - 0xFFFFFFC000002008) < 48"
      using that(2) region_part [of 24 24 48 x "0xFFFFFFC000002008"] region_part [of 0 24 48 x "0xFFFFFFC000002008"]
      by (auto simp: in_range_def memmap_entry_def demo_info_def)
    then have "unat (x - 0xFFFFFFC000002008 + 0x2008) < 0x3000"
      by (subst unat_add_nowrap) simp_all
    then have "unat (hhdm_virt_to_phys demo_info x) < 0x3000"
      by (simp add: hhdm_virt_to_phys_def demo_info_def)
    then show ?thesis
      by (simp add: in_range_nowrap demo_buf_def)
  qed
  then show "map_promise demo_buf demo_info demo_virtual"
    using demo_area by (simp add: map_promise_def areas)
  show "mode demo_info = LIMINE_PAGING_MODE_RISCV_SV39"
    by (simp add: demo_info_def LIMINE_PAGING_MODE_RISCV_SV39_def)
qed


section \<open>Parsing the device tree at boot\<close>

text \<open>The addresses that the boot leaves alone: neither the manager's buffer nor usable memory.\<close>

definition loader_memory :: "u64 \<Rightarrow> platform_info \<Rightarrow> (u64 \<times> u64) list \<Rightarrow> u64 set" where
  "loader_memory buf p areas = {v. \<not> in_range (hhdm_virt_to_phys p v) (buf, 1576) \<and>
     (\<forall>(b, l) \<in> set areas. unat (hhdm_virt_to_phys p v) < unat b \<or>
       unat b + unat l \<le> unat (hhdm_virt_to_phys p v))}"

text \<open>The direct map has room for the usable areas.\<close>

definition map_fits :: "platform_info \<Rightarrow> (u64 \<times> u64) list \<Rightarrow> bool" where
  "map_fits p areas \<longleftrightarrow> (\<forall>(b, l) \<in> set areas. unat (hhdm_base p) + unat b + unat l + 131072 \<le> 2 ^ 64)"

lemma booted_reserved:
  assumes "booted sink buf m areas s o2"
  shows "x \<in> pmm_reserved buf s \<longleftrightarrow> in_range x (buf, 1576) \<or>
    (\<exists>(b, l) \<in> set areas. unat b \<le> unat x \<and> unat x < unat b + unat l)"
proof -
  have "pmm_owned s = (\<Union>(b, l) \<in> set areas. Pmm_Source.view_bytes (fresh_view (unat b) (unat l)))"
    using assms by (simp add: booted_def pmm_owned_def split_def)
  moreover have "x \<in> Pmm_Source.view_bytes (fresh_view b l) \<longleftrightarrow> b \<le> unat x \<and> unat x < b + l" for b l
    by (simp add: Pmm_Source.view_bytes_def fresh_view_def)
  ultimately show ?thesis
    by (auto simp: pmm_reserved_def split_def)
qed

lemma booted_direct_map:
  assumes "booted sink buf m areas s o2" and "buf_ok buf" and "map_fits p areas"
  shows "direct_map p (pmm_reserved buf s)"
proof -
  have "unat (hhdm_base p) + unat x + 131072 \<le> 2 ^ 64" if "x \<in> pmm_reserved buf s" "unat x < 2 ^ 56" for x
  proof -
    have "\<not> in_range x (buf, 1576)"
      using that(2) assms(2) by (auto simp: buf_ok_def phys_limit_def in_range_nowrap)
    then show ?thesis
      using that(1) assms(3) unfolding booted_reserved [OF assms(1)] by (fastforce simp: map_fits_def)
  qed
  then show ?thesis by (simp add: direct_map_def)
qed

text \<open>An area with \<open>k\<close> pages.\<close>

definition has_pages :: "nat \<Rightarrow> (u64 \<times> u64) list \<Rightarrow> bool" where
  "has_pages k areas \<longleftrightarrow> (\<exists>(b, l) \<in> set areas. k * 4096 \<le> unat l)"

lemma booted_serving:
  assumes "booted sink buf m areas s o2" and "has_pages k areas"
  shows "serving buf k s"
proof -
  obtain b l where "(b, l) \<in> set areas" "k * 4096 \<le> unat l"
    using assms(2) by (auto simp: has_pages_def)
  then have "pages_left k s"
    using assms(1) unfolding pages_left_def
    by (intro bexI [of _ "fresh_view (unat b) (unat l)"]) (auto simp: booted_def fresh_view_def)
  then show ?thesis
    using assms(1) by (auto simp: serving_def booted_def pmm_whole_def whole_def fresh_view_def list_all_iff)
qed

text \<open>A memory that shows the blob shows the end of its reservation block.\<close>

lemma blob_reservations_end:
  assumes "dt_blob vm U dtb t" and "word_at vm U (dtb + 16) r" and "\<And>x. x \<in> U \<Longrightarrow> m x = vm x"
    and "\<forall>x. in_range x (dtb + ucast (read_big_endian32 vm (dtb + 16)), 16) \<longrightarrow> x \<in> U"
  shows "load64 m (dtb + ucast r) = 0 \<or> load64 m (dtb + ucast r + 8) = 0"
proof -
  have r: "read_big_endian32 vm (dtb + 16) = r" using assms(2) by (simp add: word_at_def)
  have "in_range x (dtb + ucast r, 16)" if "in_range x (dtb + ucast r + 8, 8)" for x
    using region_part [of 8 8 16 x "dtb + ucast r"] that by simp
  then have "load64 m (dtb + ucast r) = load64 vm (dtb + ucast r)"
    "load64 m (dtb + ucast r + 8) = load64 vm (dtb + ucast r + 8)"
    using assms(3,4) r by (auto intro!: load64_frame simp: in_range_def)
  then show ?thesis
    using assms(1) r by (auto simp: dt_blob_def word_at_def)
qed

text \<open>From the boot to the second pass.\<close>

lemma kernel_main_parses:
  assumes "buf_ok buf" and "sink \<noteq> 0"
    and "parse_platform_info vm q = Done p" and "mode p = LIMINE_PAGING_MODE_RISCV_SV39"
    and "vm = (\<lambda>v. m (hhdm_virt_to_phys p v))" and "map_promise buf p vm"
    and "length (usable_areas p vm 0) \<le> 16" and "map_fits p (usable_areas p vm 0)"
    and "dt_blob vm (loader_memory buf p (usable_areas p vm 0)) (device_tree_blob p) t"
    and "\<forall>x. in_range x (device_tree_blob p + ucast (read_big_endian32 vm (device_tree_blob p + 16)), 16) \<longrightarrow>
      x \<in> loader_memory buf p (usable_areas p vm 0)"
  shows "(\<exists>s n h. \<not> has_pages (tree_pages t) (usable_areas p vm 0) \<and> pmm_sound buf s \<and>
      alloc_noerr n s = Halt h \<and> kernel_main sink buf slash q vm m = Halt h) \<or>
    (\<exists>s o2 a st'. booted sink buf m (usable_areas p vm 0) s o2 \<and>
      parsed (pmm_sound buf) (pmm_reserved buf) pmm_ops p a t (dt_boot s o2) st' \<and>
      kernel_main sink buf slash q vm m =
        bind_outcome (rewrite_pass pmm_ops p slash st') (kernel_display p))"
proof -
  let ?U = "loader_memory buf p (usable_areas p vm 0)" and ?dtb = "device_tree_blob p"
  obtain s o2 where run: "kernel_main sink buf slash q vm m = kernel_devices p slash (dt_boot s o2)"
    and s: "booted sink buf m (usable_areas p vm 0) s o2"
    using kernel_main_boots [OF assms(1-6), of slash] assms(7) by auto
  have sound: "pmm_sound buf s" using s by (simp add: booted_def)
  have same: "dt_mem pmm_ops p (dt_boot s o2) x = vm x" if "x \<in> ?U" for x
    using s that assms(5) by (simp add: booted_def loader_memory_def dt_mem_def dt_boot_def)
  have "hhdm_virt_to_phys p v \<notin> pmm_reserved buf s" if "v \<in> ?U" for v
    using that unfolding booted_reserved [OF s] by (fastforce simp: loader_memory_def)
  then have blob: "blob_in (pmm_reserved buf) pmm_ops p vm ?U (dt_boot s o2)"
    using same by (simp add: blob_in_def agree_def dt_boot_def)
  show ?thesis
  proof (rule disjE [OF parse_blob_links [OF sound booted_direct_map [OF s assms(1,8)] blob assms(9),
      of slash]], goal_cases)
    case (1 r)
    then show ?case by (rule blob_reservations_end [OF assms(9) _ same assms(10)])
  next
    case 2
    then show ?case using run booted_serving [OF s] by (auto simp: kernel_devices_def)
  next
    case 3
    then obtain a st' where "parsed (pmm_sound buf) (pmm_reserved buf) pmm_ops p a t (dt_boot s o2) st'"
      and "parse_from_blob pmm_ops p slash ?dtb (dt_boot s o2) = rewrite_pass pmm_ops p slash st'"
      by blast
    then show ?case
      using run s by (intro disjI2 exI [of _ s] exI [of _ o2] exI [of _ a] exI [of _ st'])
        (simp add: kernel_devices_def)
  qed
qed

text \<open>
  C7. Booting and parsing. Under the conditions of the previous property, with at most sixteen
  usable areas and a well-formed blob without reservations in memory that is not usable, the
  kernel stops only if the memory manager stops it, and not at all if one area has the pages that the
  tree needs (two if the tree has up to 73 nodes and 51 properties); otherwise it links the
  tree of the blob, over the memory manager that the memory map gives, and goes on with the second pass,
  the framebuffer and the listing.
\<close>

theorem kernel_parses_tree:
  assumes "buf_ok buf" and "sink \<noteq> 0"
    and "parse_platform_info vm q = Done p" and "mode p = LIMINE_PAGING_MODE_RISCV_SV39"
    and "vm = (\<lambda>v. m (hhdm_virt_to_phys p v))" and "map_promise buf p vm"
    and "length (usable_areas p vm 0) \<le> 16" and "map_fits p (usable_areas p vm 0)"
    and "dt_blob vm (loader_memory buf p (usable_areas p vm 0)) (device_tree_blob p) t"
    and "\<forall>x. in_range x (device_tree_blob p + ucast (read_big_endian32 vm (device_tree_blob p + 16)), 16) \<longrightarrow>
      x \<in> loader_memory buf p (usable_areas p vm 0)"
  shows "(\<exists>s n h. \<not> has_pages (tree_pages t) (usable_areas p vm 0) \<and> pmm_sound buf s \<and>
      alloc_noerr n s = Halt h \<and> kernel_main sink buf slash q vm m = Halt h) \<or>
    (\<exists>s o2 a st'. booted sink buf m (usable_areas p vm 0) s o2 \<and>
      parsed (pmm_sound buf) (pmm_reserved buf) pmm_ops p a t (dt_boot s o2) st' \<and>
      kernel_main sink buf slash q vm m =
        bind_outcome (rewrite_pass pmm_ops p slash st') (kernel_display p))"
  by (rule kernel_main_parses [OF assms])

text \<open>The small machine keeps all these promises.\<close>

lemma demo_loader:
  shows "demo_virtual = (\<lambda>v. demo_blob (hhdm_virt_to_phys demo_info v))"
    and "length (usable_areas demo_info demo_virtual 0) \<le> 16"
    and "map_fits demo_info (usable_areas demo_info demo_virtual 0)"
    and "has_pages (tree_pages demo_tree) (usable_areas demo_info demo_virtual 0)"
    and "dt_blob demo_virtual (loader_memory demo_buf demo_info (usable_areas demo_info demo_virtual 0))
      (device_tree_blob demo_info) demo_tree"
    and "\<forall>x. in_range x (device_tree_blob demo_info +
        ucast (read_big_endian32 demo_virtual (device_tree_blob demo_info + 16)), 16) \<longrightarrow>
      x \<in> loader_memory demo_buf demo_info (usable_areas demo_info demo_virtual 0)"
proof -
  let ?U = "loader_memory demo_buf demo_info (usable_areas demo_info demo_virtual 0)"
  have dtb: "device_tree_blob demo_info = 0xFFFFFFC000001000" by (simp add: demo_info_def)
  have low: "shows_low demo_blob demo_virtual ?U"
    unfolding demo_boot(2)
    by (auto simp: shows_low_def demo_virtual_def loader_memory_def in_range_nowrap demo_buf_def
        hhdm_virt_to_phys_def demo_platform_def demo_info_def)
  show "dt_blob demo_virtual ?U (device_tree_blob demo_info) demo_tree"
    unfolding dtb by (rule demo_blob_tree [OF low])
  have "word_at demo_virtual ?U 0xFFFFFFC000001010 0x28"
    using demo_reads(1) [OF low, of "0xFFFFFFC000001010" "0x28"] demo_blob_words(4) by simp
  then have rsv: "ucast (read_big_endian32 demo_virtual 0xFFFFFFC000001010) = (0x28 :: u64)"
    by (simp add: word_at_def)
  have "x \<in> ?U" if "in_range x (0xFFFFFFC000001028, 16)" for x
  proof -
    have "unat (x - 0xFFFFFFC000001028 + 0x1028) < 0x80000000"
      using that by (subst unat_add_nowrap) (simp_all add: in_range_def)
    then show ?thesis using low by (simp add: shows_low_def hhdm_virt_to_phys_def demo_platform_def)
  qed
  then show "\<forall>x. in_range x (device_tree_blob demo_info +
        ucast (read_big_endian32 demo_virtual (device_tree_blob demo_info + 16)), 16) \<longrightarrow> x \<in> ?U"
    by (simp add: dtb rsv)
qed (simp_all add: demo_virtual_def fun_eq_iff demo_boot(2) map_fits_def has_pages_def demo_tree_pages,
  simp add: demo_info_def)

theorem kernel_parses_tree_witness:
  "\<exists>s o2 a st'. booted 9 demo_buf demo_blob [(0x80000000, 0x10000)] s o2 \<and>
    parsed (pmm_sound demo_buf) (pmm_reserved demo_buf) pmm_ops demo_info a demo_tree (dt_boot s o2) st' \<and>
    kernel_main 9 demo_buf str_view_empty demo_requests demo_virtual demo_blob =
      bind_outcome (rewrite_pass pmm_ops demo_info str_view_empty st') (kernel_display demo_info)"
  using kernel_parses_tree [OF demo_buf_ok _ demo_boot(1,4) demo_loader(1) demo_boot(3) demo_loader(2,3,5,6),
      of 9 str_view_empty] demo_loader(4)
  by (simp add: demo_boot(2))

end
