(* ===== verification/Kernel_Run.thy ===== *)
theory Kernel_Run
  imports Kernel_Properties Device_Tree_Cells
begin

text \<open>
  The kernel from its entry point to the loop in which it stays: what the console has been sent when
  the second pass, the framebuffer and the listing are done, and a run of the whole kernel on
  a small machine.
\<close>

section \<open>From the second pass to the listing\<close>

text \<open>The loop over the pixels only writes memory.\<close>

lemma framebuffer_loop_step:
  assumes "i < 100" and "m = dt_mem pmm_ops p st"
  shows "framebuffer_loop p fb i st = bind_outcome (dt_store pmm_ops p
      (fb_address m fb + 4 * (i * (fb_pitch m fb div 4) + i)) (bytes_of 4 (0xFFFFFF :: u32)) st)
    (framebuffer_loop p fb (i + 1))"
  using assms by (subst framebuffer_loop.simps) (simp add: Let_def)

lemma framebuffer_loop_state:
  "framebuffer_loop p fb i st = Done st' \<Longrightarrow> \<exists>s. st' = st\<lparr>dt_sup := s\<rparr>"
proof (induction p fb i st rule: framebuffer_loop.induct)
  case (1 p fb i st)
  show ?case
  proof (cases "i < 100")
    case False
    then have "st' = st\<lparr>dt_sup := dt_sup st\<rparr>"
      using 1(2) by (subst (asm) framebuffer_loop.simps) simp
    then show ?thesis by blast
  next
    case True
    then obtain st1 where store: "dt_store pmm_ops p (fb_address (dt_mem pmm_ops p st) fb +
        4 * (i * (fb_pitch (dt_mem pmm_ops p st) fb div 4) + i)) (bytes_of 4 (0xFFFFFF :: u32)) st = Done st1"
      and rest: "framebuffer_loop p fb (i + 1) st1 = Done st'"
      using 1(2) unfolding framebuffer_loop_step [OF True refl] by (auto simp: bind_outcome_Done_iff)
    obtain s where "st1 = st\<lparr>dt_sup := s\<rparr>" using store by (auto simp: dt_store_def split: if_split_asm)
    then show ?thesis using 1(1) [OF True refl rest] by auto
  qed
qed

text \<open>
  What the log holds at the end: the line about the free memory, lines of the second pass, the
  heading, and a listing that shows the nodes from the root and has the names of \<open>t\<close>.
\<close>

definition printed_tree :: "u64 \<Rightarrow> platform_info \<Rightarrow> (u64 \<times> u64) list \<Rightarrow> dt_tree \<Rightarrow> pmm dt_state \<Rightarrow> bool" where
  "printed_tree sink p areas t st \<longleftrightarrow> (\<exists>first mid l.
     free_line sink (sum_list (map (\<lambda>(b, l). unat l) areas)) first \<and>
     out_log (dt_out st) = first @ map (Pair sink)
       (mid @ ascii ''Printing the device tree:'' @ [0x0A] @ listing_text 0 l) \<and>
     listed_names l = tree_names (dt_mem pmm_ops p st) t \<and>
     node_listed (dt_mem pmm_ops p st) (dt_node_objs st) (dt_prop_objs st) (dt_root st) l)"

lemma display_prints:
  assumes run: "bind_outcome (rewrite_pass pmm_ops p slash st1) (kernel_display p) = Done st"
    and tree: "tree_at (dt_node_objs st1) (dt_prop_objs st1) (stack_index sizeof_node (dt_nodes st1) 0) 0 0 t"
    and line: "free_line sink (sum_list (map (\<lambda>(b, l). unat l) areas)) (out_log (dt_out st1))"
    and out: "out_ready (dt_out st1)" "out_put_char (dt_out st1) = sink"
  shows "printed_tree sink p areas (rename_root slash t) st"
proof -
  obtain e st2 where pass: "rewrite_pass pmm_ops p slash st1 = Done (e, st2)"
    and "kernel_display p (e, st2) = Done st"
    using run by (auto simp: bind_outcome_Done_iff)
  then obtain st3 where ok: "is_ok e"
    and loop: "framebuffer_loop p (load64 (dt_mem pmm_ops p st2) (framebuffers p)) 0 st2 = Done st3"
    and printed: "print_device_tree pmm_ops p st3 = Done st"
    by (auto simp: kernel_display_def bind_outcome_Done_iff split: if_split_asm)
  have "tree_links (dt_node_objs st1) (dt_prop_objs st1) (stack_index sizeof_node (dt_nodes st1) 0) 0 t"
    using tree_at_links(1) [OF tree] by simp
  note links = rewrite_pass_links [OF pass this]
  obtain s where st3: "st3 = st2\<lparr>dt_sup := s\<rparr>" using framebuffer_loop_state [OF loop] by blast
  obtain lines where lines: "out_put_char (dt_out st2) = sink" "out_ready (dt_out st2)"
    "out_log (dt_out st2) = out_log (dt_out st1) @ map (Pair sink) lines"
    using links(1) out by (auto simp: more_output_def)
  show ?thesis
  proof (rule print_tree_Done [OF printed])
    show "out_ready (dt_out st3)" "dt_initialized st3" using links(2) lines ok by (simp_all add: st3)
    show "tree_links (dt_node_objs st3) (dt_prop_objs st3) (dt_root st3) 0 (rename_root slash t)"
      using links(2,3) ok by (simp add: st3)
  next
    fix l o2
    assume st: "st = st3\<lparr>dt_out := o2\<rparr>" and l: "listed_names l = tree_names (dt_mem pmm_ops p st3) (rename_root slash t)"
      "node_listed (dt_mem pmm_ops p st3) (dt_node_objs st3) (dt_prop_objs st3) (dt_root st3) l"
      and log: "out_log o2 = out_log (dt_out st3) @ map (Pair (out_put_char (dt_out st3)))
        (ascii ''Printing the device tree:'' @ [0x0A] @ listing_text 0 l)"
    have "dt_mem pmm_ops p st = dt_mem pmm_ops p st3" by (simp add: st dt_mem_def)
    then show ?thesis
      using l log line lines unfolding printed_tree_def
      by (intro exI [of _ "out_log (dt_out st1)"] exI [of _ lines] exI [of _ l]) (simp add: st st3)
  qed
qed

section \<open>What the kernel prints\<close>

text \<open>
  C8. From the boot to the listing. Under the conditions under which the kernel parses the blob,
  with a tree of at most 73 nodes: whenever the kernel reaches its final loop, it has sent to the
  console the line with the sum of the usable memory, then lines of the second pass, and last the
  heading and a listing of the nodes linked from the root, whose names of nodes and properties, in
  link order, are those of the tree that the blob describes, read in the memory as it is at the end,
  the root having its new name.
\<close>

theorem kernel_prints_tree:
  assumes "buf_ok buf" and "sink \<noteq> 0"
    and "parse_platform_info vm q = Done p" and "mode p = LIMINE_PAGING_MODE_RISCV_SV39"
    and "vm = (\<lambda>v. m (hhdm_virt_to_phys p v))" and "map_promise buf p vm"
    and "length (usable_areas p vm 0) \<le> 16" and "map_fits p (usable_areas p vm 0)"
    and "dt_blob vm (loader_memory buf p (usable_areas p vm 0)) (device_tree_blob p) t"
    and "\<forall>x. in_range x (device_tree_blob p + ucast (read_big_endian32 vm (device_tree_blob p + 16)), 16) \<longrightarrow>
      x \<in> loader_memory buf p (usable_areas p vm 0)"
    and "tree_size t \<le> 73" and "kernel_main sink buf slash q vm m = Done st"
  shows "printed_tree sink p (usable_areas p vm 0) (rename_root slash t) st"
proof -
  obtain s o2 a st1 where s: "booted sink buf m (usable_areas p vm 0) s o2"
    and parsed: "parsed (pmm_sound buf) (pmm_reserved buf) pmm_ops p a t (dt_boot s o2) st1"
    and run: "bind_outcome (rewrite_pass pmm_ops p slash st1) (kernel_display p) = Done st"
    using kernel_main_parses [OF assms(1-10), of slash] assms(12) by auto
  have "dt_out st1 = o2" using parsed by (simp add: parsed_def dt_step_def dt_boot_def)
  then show ?thesis
    using display_prints [OF run, of t sink "usable_areas p vm 0"] s parsed assms(11)
    by (simp add: booted_def parsed_def)
qed

section \<open>A run from the boot to the listing\<close>

text \<open>The second pass over the tree of the small machine.\<close>

definition demo_phandle :: "u64 \<Rightarrow> prop_type \<Rightarrow> prop_data \<Rightarrow> property" where
  "demo_phandle nxt t d = \<lparr>pr_name = \<lparr>sv_data = 0xFFFFFFC000001064, sv_size = 7\<rparr>, pr_next = nxt,
     pr_type = t, pr_data = d\<rparr>"

lemma demo_pass:
  assumes tree: "tree_at (dt_node_objs st) (dt_prop_objs st) a 0 0 demo_tree"
    and first: "stack_index sizeof_node (dt_nodes st) 0 = a" "st_size (dt_nodes st) \<noteq> 0"
    and mem: "sv_bytes (dt_mem pmm_ops p st) \<lparr>sv_data = 0xFFFFFFC000001064, sv_size = 7\<rparr> = ascii ''phandle''"
      "read_big_endian32 (dt_mem pmm_ops p st) 0xFFFFFFC00000104C = 7"
  obtains st' h c where "rewrite_pass pmm_ops p slash st = Done (error_of SUCCESS, st')"
    and "dt_sup st' = dt_sup st" and "dt_out st' = dt_out st" and "dt_root st' = a" and "dt_initialized st'"
    and "a \<noteq> 0" and "dt_node_objs st' a = Some \<lparr>nd_name = slash, nd_address_cells = 2, nd_size_cells = 1,
      nd_properties = h, nd_parent = 0, nd_children = c, nd_next_sibling = 0\<rparr>"
    and "h \<noteq> 0" and "dt_prop_objs st' h = Some (demo_phandle 0 PHANDLE (D_phandle 7))"
    and "c \<noteq> 0" and "dt_node_objs st' c = Some \<lparr>nd_name = \<lparr>sv_data = 0xFFFFFFC000001054, sv_size = 1\<rparr>,
      nd_address_cells = 0, nd_size_cells = 0, nd_properties = 0, nd_parent = a, nd_children = 0,
      nd_next_sibling = 0\<rparr>"
proof -
  obtain h c where a: "a \<noteq> 0" "dt_node_objs st a = Some \<lparr>nd_name = \<lparr>sv_data = 0xFFFFFFC00000103C, sv_size = 0\<rparr>,
      nd_address_cells = 0, nd_size_cells = 0, nd_properties = h, nd_parent = 0, nd_children = c, nd_next_sibling = 0\<rparr>"
    and h: "h \<noteq> 0" "dt_prop_objs st h = Some (demo_phandle 0 RAW (D_raw \<lparr>bv_data = 0xFFFFFFC00000104C, bv_size = 4\<rparr>))"
    and c: "c \<noteq> 0" "dt_node_objs st c = Some \<lparr>nd_name = \<lparr>sv_data = 0xFFFFFFC000001054, sv_size = 1\<rparr>,
      nd_address_cells = 0, nd_size_cells = 0, nd_properties = 0, nd_parent = a, nd_children = 0, nd_next_sibling = 0\<rparr>"
    using tree unfolding demo_tree_def
    by (auto elim!: tree_atE trees_at.cases [of _ _ _ _ "_ # _"] trees_at.cases [of _ _ _ _ "[]"] simp: demo_phandle_def)
  have "c \<noteq> a" using a c by auto
  define st1 where "st1 = st\<lparr>dt_root := a, dt_node_objs := (dt_node_objs st)(a \<mapsto>
    \<lparr>nd_name = \<lparr>sv_data = 0xFFFFFFC00000103C, sv_size = 0\<rparr>, nd_address_cells = 2, nd_size_cells = 1,
     nd_properties = h, nd_parent = 0, nd_children = c, nd_next_sibling = 0\<rparr>)\<rparr>"
  define st2 where "st2 = st1\<lparr>dt_prop_objs := (dt_prop_objs st1)(h \<mapsto> demo_phandle 0 PHANDLE (D_phandle 7))\<rparr>"
  have up: "upd_node a (\<lambda>n. n\<lparr>nd_address_cells := 2, nd_size_cells := 1\<rparr>) (st\<lparr>dt_root := a\<rparr>) = Done st1"
    using a by (simp add: upd_node_def deref_def st1_def)
  have m: "dt_mem pmm_ops p st1 = dt_mem pmm_ops p st" "dt_mem pmm_ops p st2 = dt_mem pmm_ops p st"
    by (simp_all add: dt_mem_def st1_def st2_def)
  have get: "get_prop h st1 = Done (demo_phandle 0 RAW (D_raw \<lparr>bv_data = 0xFFFFFFC00000104C, bv_size = 4\<rparr>))"
    "get_prop h st2 = Done (demo_phandle 0 PHANDLE (D_phandle 7))"
    "get_node a st1 = Done (the (dt_node_objs st1 a))" "get_node a st2 = Done (the (dt_node_objs st1 a))"
    "get_node c st2 = Done (the (dt_node_objs st c))"
    using a(1) h c \<open>c \<noteq> a\<close> by (simp_all add: get_prop_def get_node_def deref_def st1_def st2_def)
  have name: "sv_bytes (dt_mem pmm_ops p st) (pr_name (demo_phandle n t d)) = ascii ''phandle''" for n t d
    using mem(1) by (simp add: demo_phandle_def)
  note named = is_named_def compare_bytes_eq_0 m name
  have "rewrite_property pmm_ops p a h st1 = Done (None, st2)"
    using get(1) mem(2)
    by (simp add: rewrite_property_def named rewrite_u32_def raw_of_def upd_prop_def get_prop_def Let_def st2_def)
      (simp add: ascii_def demo_phandle_def)
  then have lap1: "first_lap pmm_ops p a h st1 = Some (Done (None, st2))"
    using h(1) get(2) by (subst first_lap.simps) (simp add: demo_phandle_def first_lap.simps)
  have "rewrite_late pmm_ops p a h st2 = Done st2"
    using get(2) by (simp add: rewrite_late_def named) (simp add: ascii_def)
  then have lap2: "second_lap pmm_ops p a h st2 = Some (Done st2)"
    using h(1) get(2) by (subst second_lap.simps) (simp add: demo_phandle_def second_lap.simps)
  have "rewrite_node pmm_ops p a st1 = Done (None, st2)"
    using lap1 lap2 get by (simp add: rewrite_node_def st1_def)
  moreover have "rewrite_node pmm_ops p c st2 = Done (None, st2)"
    using get(5) c by (simp add: rewrite_node_def first_lap.simps second_lap.simps)
  then have "rewrite_children pmm_ops p c no_error st2 = Some (Done (no_error, st2))"
    using get(5) c by (subst rewrite_children.simps) (simp add: rewrite_children.simps [of _ _ 0])
  ultimately have rec: "recursive_property_rewrite pmm_ops p a st1 = Done (no_error, st2)"
    using get(4) by (simp add: recursive_property_rewrite_def st1_def)
  define st3 where "st3 = st2\<lparr>dt_initialized := True, dt_node_objs := (dt_node_objs st2)(a \<mapsto>
    \<lparr>nd_name = slash, nd_address_cells = 2, nd_size_cells = 1, nd_properties = h, nd_parent = 0,
     nd_children = c, nd_next_sibling = 0\<rparr>)\<rparr>"
  have "upd_node a (\<lambda>n. n\<lparr>nd_name := slash\<rparr>) (st2\<lparr>dt_initialized := True\<rparr>) = Done st3"
    using a by (simp add: upd_node_def deref_def st3_def st2_def st1_def)
  then have "rewrite_pass pmm_ops p slash st = Done (error_of SUCCESS, st3)"
    using rec up by (simp add: rewrite_pass_def first Let_def no_error_def is_err_def is_ok_def error_top_eq)
  then show ?thesis
    using a(1) h(1) c \<open>c \<noteq> a\<close> by (intro that [of st3 h c]) (simp_all add: st3_def st2_def st1_def)
qed

text \<open>The pixels of the small machine are not where its blob is.\<close>

definition shows_demo :: "mem \<Rightarrow> bool" where
  "shows_demo m \<longleftrightarrow> (\<forall>v. unat (v - 0xFFFFFFC000000000) < 0x3000 \<longrightarrow> m v = demo_blob (v - 0xFFFFFFC000000000))"

lemma shows_demo_load:
  assumes "shows_demo m" and "unat (v - 0xFFFFFFC000000000) + n \<le> 0x3000"
  shows "load_bytes n m v = load_bytes n demo_blob (v - 0xFFFFFFC000000000)"
proof -
  have "m (v + of_nat k) = demo_blob (v - 0xFFFFFFC000000000 + of_nat k)" if "k < n" for k
  proof -
    have "unat (v - 0xFFFFFFC000000000 + of_nat k) < 0x3000"
      using assms(2) that by (subst unat_add_nowrap) (simp_all add: unat_of_nat_64)
    then have "m (v + of_nat k) = demo_blob (v + of_nat k - 0xFFFFFFC000000000)"
      using assms(1) by (simp add: shows_demo_def diff_add_eq)
    then show ?thesis by (simp add: diff_add_eq)
  qed
  then show ?thesis by (simp add: load_bytes_def)
qed

lemma pixel_offset: "unat i < 100 \<Longrightarrow> unat (8 * i) = 8 * unat i" for i :: u64
  by (simp add: unat_word_ariths)

lemma demo_pixel:
  assumes "shows_demo m" and "unat i < 100" and "length bs = 4"
  shows "shows_demo (store_bytes m (0xFFFFFFC000003000 + 8 * i) bs)"
  unfolding shows_demo_def
proof (intro allI impI)
  fix v :: u64 assume v: "unat (v - 0xFFFFFFC000000000) < 0x3000"
  have i: "unat (8 * i) = 8 * unat i" by (rule pixel_offset [OF assms(2)])
  have "\<not> in_range v (0xFFFFFFC000003000 + 8 * i, 4)"
  proof
    define k where "k = v - (0xFFFFFFC000003000 + 8 * i)"
    assume "in_range v (0xFFFFFFC000003000 + 8 * i, 4)"
    then have k: "unat k < 4" by (simp add: in_range_def k_def)
    have "v - 0xFFFFFFC000000000 = 0x3000 + (8 * i + k)" by (simp add: k_def)
    moreover have "unat (0x3000 + (8 * i + k)) = 0x3000 + (8 * unat i + unat k)"
      using k i assms(2) by (simp add: unat_add_nowrap)
    ultimately show False using v by simp
  qed
  then show "store_bytes m (0xFFFFFFC000003000 + 8 * i) bs v = demo_blob (v - 0xFFFFFFC000000000)"
    using assms v store_bytes_other by (simp add: shows_demo_def)
qed

lemma demo_framebuffer:
  assumes "shows_demo (dt_mem pmm_ops p st)"
  shows "\<exists>st'. framebuffer_loop p 0xFFFFFFC000002048 i st = Done st' \<and> shows_demo (dt_mem pmm_ops p st')"
  using assms
proof (induction "100 - unat i" arbitrary: i st rule: less_induct)
  case less
  let ?m = "dt_mem pmm_ops p st"
  show ?case
  proof (cases "i < 100")
    case False
    then show ?thesis using less.prems by (intro exI [of _ st]) (simp add: framebuffer_loop.simps)
  next
    case True
    have i: "unat i < 100" "unat (i + 1) = Suc (unat i)"
      using True unat_Suc_less [OF True] by (simp_all add: word_less_nat_alt)
    have "fb_address ?m 0xFFFFFFC000002048 = 0xFFFFFFC000003000" "fb_pitch ?m 0xFFFFFFC000002048 = 4"
      using demo_map_words by (simp_all add: fb_address_def fb_pitch_def load64_def shows_demo_load [OF less.prems])
    then have at: "fb_address ?m 0xFFFFFFC000002048 + 4 * (i * (fb_pitch ?m 0xFFFFFFC000002048 div 4) + i) =
        0xFFFFFFC000003000 + 8 * i"
      by simp
    have "unat (0xFFFFFFC000003000 + 8 * i) = 0xFFFFFFC000003000 + 8 * unat i"
      using i(1) pixel_offset [OF i(1)] by (subst unat_add_nowrap) simp_all
    then have nz: "0xFFFFFFC000003000 + 8 * i \<noteq> 0" by auto
    let ?st1 = "with_mem p (store_bytes ?m (0xFFFFFFC000003000 + 8 * i) (bytes_of 4 (0xFFFFFF :: u32))) st"
    have "framebuffer_loop p 0xFFFFFFC000002048 i st = framebuffer_loop p 0xFFFFFFC000002048 (i + 1) ?st1"
      unfolding framebuffer_loop_step [OF True refl] at by (simp add: dt_store_with_mem [OF nz])
    moreover have "shows_demo (dt_mem pmm_ops p ?st1)"
      using demo_pixel [OF less.prems i(1), of "bytes_of 4 0xFFFFFF"] by simp
    ultimately show ?thesis using less.hyps [of "i + 1" ?st1] i by simp
  qed
qed

text \<open>The small machine gets to the end.\<close>

lemma demo_reaches_end:
  obtains st where "kernel_main 9 demo_buf str_view_empty demo_requests demo_virtual demo_blob = Done st"
    and "tree_names (dt_mem pmm_ops demo_info st) (rename_root str_view_empty demo_tree) =
      Names [] [ascii ''phandle''] [Names (ascii ''a'') [] []]"
proof -
  let ?p = demo_info
  obtain s o2 a st1 where s: "booted 9 demo_buf demo_blob [(0x80000000, 0x10000)] s o2"
    and parsed: "parsed (pmm_sound demo_buf) (pmm_reserved demo_buf) pmm_ops ?p a demo_tree (dt_boot s o2) st1"
    and run: "kernel_main 9 demo_buf str_view_empty demo_requests demo_virtual demo_blob =
      bind_outcome (rewrite_pass pmm_ops ?p str_view_empty st1) (kernel_display ?p)"
    using kernel_main_parses [OF demo_buf_ok _ demo_boot(1,4) demo_loader(1) demo_boot(3) demo_loader(2,3,5,6),
      of 9 str_view_empty] demo_loader(4)
    by (auto simp: demo_boot(2))
  have "x \<notin> pmm_reserved demo_buf s \<and> pm_mem s x = demo_blob x" if "unat x < 0x3000" for x
    using s that unfolding booted_reserved [OF s] by (simp add: booted_def in_range_nowrap demo_buf_def)
  then have mem1: "shows_demo (dt_mem pmm_ops ?p st1)"
    using parsed by (simp add: shows_demo_def parsed_def dt_step_def dt_boot_def dt_mem_def
        hhdm_virt_to_phys_def demo_info_def)
  have bytes: "sv_bytes m \<lparr>sv_data = 0xFFFFFFC000001064, sv_size = 7\<rparr> = ascii ''phandle''"
    "sv_bytes m \<lparr>sv_data = 0xFFFFFFC000001054, sv_size = 1\<rparr> = ascii ''a''"
    "read_big_endian32 m 0xFFFFFFC00000104C = 7"
    "load64 m 0xFFFFFFC000002040 = 0xFFFFFFC000002048" if "shows_demo m" for m
    using demo_map_words(6)
    by (simp_all add: Views.view_bytes_def read_big_endian32_def load32_def load64_def shows_demo_load [OF that])
      (simp_all add: load_bytes_def upt_rec demo_blob_def ascii_def flip_endianness32_def)
  have tree: "tree_at (dt_node_objs st1) (dt_prop_objs st1) a 0 0 demo_tree"
    "stack_index sizeof_node (dt_nodes st1) 0 = a" "st_size (dt_nodes st1) \<noteq> 0"
    using parsed by (simp_all add: parsed_def demo_tree_def)
  obtain st2 h c where pass: "rewrite_pass pmm_ops ?p str_view_empty st1 = Done (error_of SUCCESS, st2)"
    and st2: "dt_sup st2 = dt_sup st1" "dt_out st2 = dt_out st1" "dt_root st2 = a" "dt_initialized st2"
    and nodes: "a \<noteq> 0" "dt_node_objs st2 a = Some \<lparr>nd_name = str_view_empty, nd_address_cells = 2,
        nd_size_cells = 1, nd_properties = h, nd_parent = 0, nd_children = c, nd_next_sibling = 0\<rparr>"
      "h \<noteq> 0" "dt_prop_objs st2 h = Some (demo_phandle 0 PHANDLE (D_phandle 7))"
      "c \<noteq> 0" "dt_node_objs st2 c = Some \<lparr>nd_name = \<lparr>sv_data = 0xFFFFFFC000001054, sv_size = 1\<rparr>,
        nd_address_cells = 0, nd_size_cells = 0, nd_properties = 0, nd_parent = a, nd_children = 0,
        nd_next_sibling = 0\<rparr>"
    by (rule demo_pass [OF tree bytes(1,3) [OF mem1]])
  have mem2: "shows_demo (dt_mem pmm_ops ?p st2)" using mem1 st2(1) by (simp add: dt_mem_def)
  obtain st3 where loop: "framebuffer_loop ?p 0xFFFFFFC000002048 0 st2 = Done st3"
    and mem3: "shows_demo (dt_mem pmm_ops ?p st3)"
    using demo_framebuffer [OF mem2] by blast
  obtain s3 where st3: "st3 = st2\<lparr>dt_sup := s3\<rparr>" using framebuffer_loop_state [OF loop] by blast
  let ?m = "dt_mem pmm_ops ?p st3" and ?N = "dt_node_objs st2" and ?P = "dt_prop_objs st2"
  have "node_listed ?m ?N ?P c (Listing (ascii ''a'') [] [])"
    using node_listed [where m = ?m and N = ?N and P = ?P and a = c and ps = "[]" and ls = "[]"]
      nodes(5,6) bytes(2) [OF mem3] by (simp add: nodes_end)
  then have "nodes_listed ?m ?N ?P c [Listing (ascii ''a'') [] []]"
    using nodes(6) by (rule nodes_link) (simp add: nodes_end)
  moreover have "props_listed ?m ?P h [(ascii ''phandle'', hex_text 7)]"
    using nodes(3,4) bytes(1) [OF mem3] by (simp add: demo_phandle_def shows_value_def)
  moreover have "sv_bytes ?m str_view_empty = []"
    by (simp add: str_view_empty_def Views.view_bytes_def load_bytes_def)
  ultimately have listed: "node_listed ?m ?N ?P a
      (Listing [] [(ascii ''phandle'', hex_text 7)] [Listing (ascii ''a'') [] []])"
    using node_listed [where m = ?m and N = ?N and P = ?P and a = a and nd = "the (?N a)"
        and ps = "[(ascii ''phandle'', hex_text 7)]" and ls = "[Listing (ascii ''a'') [] []]"] nodes(1,2)
    by (simp del: props_listed.simps)
  have "out_ready (dt_out st3)"
    using s parsed st2(2) by (simp add: st3 parsed_def dt_step_def dt_boot_def booted_def)
  then obtain o3 where "print_device_tree pmm_ops ?p st3 = Done (st3\<lparr>dt_out := o3\<rparr>)"
    by (rule print_tree_listing) (use listed st2 in \<open>simp_all add: st3\<close>)
  moreover have "load64 (dt_mem pmm_ops ?p st2) (framebuffers ?p) = 0xFFFFFFC000002048"
    using bytes(4) [OF mem2] by (simp add: demo_info_def)
  ultimately have "kernel_main 9 demo_buf str_view_empty demo_requests demo_virtual demo_blob =
      Done (st3\<lparr>dt_out := o3\<rparr>)"
    using run pass loop by (simp add: kernel_display_def)
  moreover have "dt_mem pmm_ops ?p (st3\<lparr>dt_out := o3\<rparr>) = ?m" by (simp add: dt_mem_def)
  moreover have "tree_names ?m (rename_root str_view_empty demo_tree) =
      Names [] [ascii ''phandle''] [Names (ascii ''a'') [] []]"
    using bytes(1,2) [OF mem3]
    by (simp add: demo_tree_def str_view_empty_def Views.view_bytes_def load_bytes_def)
  ultimately show ?thesis using that by metis
qed

theorem kernel_prints_tree_witness:
  "\<exists>st. kernel_main 9 demo_buf str_view_empty demo_requests demo_virtual demo_blob = Done st \<and>
    printed_tree 9 demo_info [(0x80000000, 0x10000)] (rename_root str_view_empty demo_tree) st \<and>
    tree_names (dt_mem pmm_ops demo_info st) (rename_root str_view_empty demo_tree) =
      Names [] [ascii ''phandle''] [Names (ascii ''a'') [] []]"
proof (rule demo_reaches_end)
  fix st assume st: "kernel_main 9 demo_buf str_view_empty demo_requests demo_virtual demo_blob = Done st"
    and "tree_names (dt_mem pmm_ops demo_info st) (rename_root str_view_empty demo_tree) =
      Names [] [ascii ''phandle''] [Names (ascii ''a'') [] []]"
  moreover have "tree_size demo_tree \<le> 73" by (simp add: demo_tree_def)
  ultimately show ?thesis
    using kernel_prints_tree [OF demo_buf_ok _ demo_boot(1,4) demo_loader(1) demo_boot(3) demo_loader(2,3,5,6) _ st]
    by (auto simp: demo_boot(2))
qed

end
