(* ===== verification/Containers.thy ===== *)
theory Containers
  imports Error
begin

text \<open>
  The small containers: \<^verbatim>\<open>kernel/include/types/result.h\<close>, a value or an error, and
  \<^verbatim>\<open>kernel/include/types/static_array.h\<close>, an array of a fixed length. No part of the
  kernel that is compiled uses them yet.
\<close>

section \<open>Results\<close>

text \<open>The union: which member was written last.\<close>

datatype 'a result_union = U_value 'a | U_err error

record 'a result =
  r_some :: bool
  r_u :: "'a result_union"

definition make_some :: "'a \<Rightarrow> 'a result" where
  "make_some v = \<lparr>r_some = True, r_u = U_value v\<rparr>"

definition make_err :: "error \<Rightarrow> 'a result" where
  "make_err e = \<lparr>r_some = False, r_u = U_err e\<rparr>"

definition result_is_some :: "'a result \<Rightarrow> bool" where
  "result_is_some r = r_some r"

definition result_is_err :: "'a result \<Rightarrow> bool" where
  "result_is_err r = (\<not> r_some r)"

definition result_some :: "'a result \<Rightarrow> 'a outcome" where
  "result_some r = (case r_u r of U_value v \<Rightarrow> Done v | U_err e \<Rightarrow> Halt Inactive_member)"

definition result_err :: "'a result \<Rightarrow> error outcome" where
  "result_err r = (case r_u r of U_err e \<Rightarrow> Done e | U_value v \<Rightarrow> Halt Inactive_member)"

text \<open>The flag and the union of a result that was made agree: a result is a sum.\<close>

definition result_of_sum :: "error + 'a \<Rightarrow> 'a result" where
  "result_of_sum x = (case x of Inl e \<Rightarrow> make_err e | Inr v \<Rightarrow> make_some v)"

lemma result_of_sum_simps [simp]:
  "result_is_some (result_of_sum x) \<longleftrightarrow> \<not> isl x" "result_is_err (result_of_sum x) \<longleftrightarrow> isl x"
  "result_some (result_of_sum x) = (case x of Inl e \<Rightarrow> Halt Inactive_member | Inr v \<Rightarrow> Done v)"
  "result_err (result_of_sum x) = (case x of Inl e \<Rightarrow> Done e | Inr v \<Rightarrow> Halt Inactive_member)"
  by (cases x; simp add: result_of_sum_def result_is_some_def result_is_err_def result_some_def
      result_err_def make_some_def make_err_def)+

section \<open>Static arrays\<close>

text \<open>The elements \<^verbatim>\<open>m_data\<close>; the template argument \<^verbatim>\<open>N\<close> is the length of the list.\<close>

type_synonym 'a static_array = "'a list"

function static_array_fill :: "size_t \<Rightarrow> 'a \<Rightarrow> size_t \<Rightarrow> 'a static_array \<Rightarrow> 'a static_array" where
  "static_array_fill N val i xs =
     (if i < N then static_array_fill N val (i + 1) (xs[unat i := val]) else xs)"
  by pat_completeness auto
termination
  by (relation "measure (\<lambda>(N, val, i, xs). unat N - unat i)")
    (auto simp: unat_Suc_less word_less_nat_alt)

declare static_array_fill.simps [simp del]

text \<open>The constructor from one value, over the memory \<open>xs\<close> of the object.\<close>

definition static_array_of_value :: "'a \<Rightarrow> 'a static_array \<Rightarrow> 'a static_array" where
  "static_array_of_value val xs = static_array_fill (of_nat (length xs)) val 0 xs"

definition static_array_of_list :: "'a list \<Rightarrow> 'a static_array" where
  "static_array_of_list xs = xs"

definition static_array_index :: "'a static_array \<Rightarrow> size_t \<Rightarrow> 'a outcome" where
  "static_array_index xs i = (if unat i < length xs then Done (xs ! unat i) else Halt Out_of_bounds)"

definition static_array_empty :: "'a static_array \<Rightarrow> bool" where
  "static_array_empty xs \<longleftrightarrow> length xs = 0"

definition static_array_size :: "'a static_array \<Rightarrow> size_t" where
  "static_array_size xs = of_nat (length xs)"

lemma static_array_fill_eq:
  "unat N = length xs \<Longrightarrow> unat i \<le> length xs \<Longrightarrow>
    static_array_fill N val i xs = take (unat i) xs @ replicate (length xs - unat i) val"
proof (induction N val i xs rule: static_array_fill.induct)
  case (1 N val i xs)
  show ?case
  proof (cases "i < N")
    case True
    then have i: "unat i < length xs" "unat (i + 1) = Suc (unat i)"
      using 1(2) unat_Suc_less [OF True] by (simp_all add: word_less_nat_alt)
    then have "static_array_fill N val (i + 1) (xs[unat i := val]) =
        take (Suc (unat i)) (xs[unat i := val]) @ replicate (length xs - Suc (unat i)) val"
      using 1(1) [OF True] 1(2) by simp
    also have "\<dots> = take (unat i) xs @ val # replicate (length xs - Suc (unat i)) val"
      using i(1) by (simp add: take_Suc_conv_app_nth)
    also have "val # replicate (length xs - Suc (unat i)) val = replicate (length xs - unat i) val"
      using i(1) by (metis Suc_diff_Suc replicate_Suc)
    finally show ?thesis
      using True by (subst static_array_fill.simps) simp
  next
    case False
    then have "unat i = length xs" using 1(2,3) by (simp add: word_less_nat_alt)
    then show ?thesis using False by (subst static_array_fill.simps) simp
  qed
qed

text \<open>Every element of an array made from one value is that value.\<close>

lemma static_array_of_value_eq:
  assumes "length xs < 2 ^ 64"
  shows "static_array_of_value val xs = replicate (length xs) val"
proof -
  have "unat (of_nat (length xs) :: u64) = length xs" using assms by (intro unat_of_nat_64) simp
  then show ?thesis by (simp add: static_array_of_value_def static_array_fill_eq)
qed

lemma static_array_index_of_value:
  assumes "length xs < 2 ^ 64" and "i < static_array_size xs"
  shows "static_array_index (static_array_of_value val xs) i = Done val"
proof -
  have "unat (of_nat (length xs) :: u64) = length xs" using assms(1) by (intro unat_of_nat_64) simp
  then show ?thesis
    using assms by (simp add: static_array_index_def static_array_of_value_eq static_array_size_def
        word_less_nat_alt)
qed

lemma static_array_empty_iff: "length xs < 2 ^ 64 \<Longrightarrow> static_array_empty xs \<longleftrightarrow> static_array_size xs = 0"
  using unat_of_nat_64 [of "length xs"] by (auto simp: static_array_empty_def static_array_size_def)

end
