(* ===== verification/Dynamic_Array.thy ===== *)
theory Dynamic_Array
  imports Client_Properties Containers
begin

text \<open>
  The growing array of \<^verbatim>\<open>kernel/include/types/dynamic_array.h\<close> over any supply of pages, with
  the typed store of the stack. No part of the kernel instantiates the template, and its
  members are modelled by what their bodies say: \<^verbatim>\<open>push_back\<close> is declared in the class but
  defined as a free function with an empty body, the destructor is not implemented, and
  \<^verbatim>\<open>grow\<close> ends without a \<^verbatim>\<open>return\<close>, so that its caller has no error to look at.

  The abstraction of an array is the list of what its slots hold.
\<close>

section \<open>The array\<close>

record dyn_array =
  da_capacity :: size_t
  da_size :: size_t
  da_buffer :: u64

definition dyn_empty :: dyn_array where
  "dyn_empty = \<lparr>da_capacity = 0, da_size = 0, da_buffer = 0\<rparr>"

text \<open>The aggregate that is returned names the capacity and the buffer; the size is zero.\<close>

definition dyn_create ::
  "'s page_ops \<Rightarrow> platform_info \<Rightarrow> size_t \<Rightarrow> size_t \<Rightarrow> 's \<Rightarrow> (dyn_array result \<times> 's) outcome" where
  "dyn_create ops p sz minimum_size s =
     (let n = align_up (minimum_size * sz) sv39_PAGE_SIZE;
          count = n div sz
      in bind_outcome (po_alloc ops n s) (\<lambda>(err, ret, s1).
           if is_err err then Done (make_err (error_push err DYN_ARR_ALLOC_FAILURE), s1)
           else case ret of
             None \<Rightarrow> Halt Unreachable
           | Some pa \<Rightarrow> Done (make_some \<lparr>da_capacity = count, da_size = 0,
               da_buffer = hhdm_phys_to_virt p pa\<rparr>, s1)))"

definition dyn_destroy :: "dyn_array \<Rightarrow> 's \<Rightarrow> 's outcome" where
  "dyn_destroy a s = Halt Todo"

text \<open>Both subscripts: a reference to an element is its address, which is not checked.\<close>

definition dyn_index :: "size_t \<Rightarrow> dyn_array \<Rightarrow> size_t \<Rightarrow> u64" where
  "dyn_index sz a i = da_buffer a + i * sz"

text \<open>The error that is returned is \<open>None\<close> where the function ends without a \<^verbatim>\<open>return\<close>.\<close>

definition dyn_grow ::
  "'s page_ops \<Rightarrow> platform_info \<Rightarrow> size_t \<Rightarrow> dyn_array \<times> 'a objs \<times> 's \<Rightarrow>
   (error option \<times> dyn_array \<times> 'a objs \<times> 's) outcome" where
  "dyn_grow ops p sz = (\<lambda>(a, objs, s).
     let current_size = align_up (da_capacity a * sz) sv39_PAGE_SIZE;
         new_size = align_up ((current_size * 3) div 2) sv39_PAGE_SIZE;
         new_count = new_size div sz;
         old_buffer = da_buffer a
     in bind_outcome (po_alloc ops new_size s) (\<lambda>(err, ret, s1).
       if is_err err then Done (Some (error_push err DYN_ARR_REALLOC_FAILURE), a, objs, s1)
       else case ret of
         None \<Rightarrow> Halt Unreachable
       | Some new_pa \<Rightarrow>
           let new_buffer = hhdm_phys_to_virt p new_pa;
               objs1 = copy_objs sz old_buffer new_buffer (unat (da_capacity a)) objs;
               (err, s2) = po_free ops (hhdm_virt_to_phys p old_buffer) s1
           in if is_err err then Done (Some (error_push err DYN_ARR_REALLOC_FAILURE), a, objs1, s2)
              else Done (None, a\<lparr>da_buffer := new_buffer, da_capacity := new_count\<rparr>, objs1, s2)))"

text \<open>The free function \<^verbatim>\<open>push_back\<close>.\<close>

definition dyn_push_back :: "'a \<Rightarrow> 's \<Rightarrow> 's" where
  "dyn_push_back v s = s"

section \<open>Abstraction\<close>

definition dyn_slots :: "size_t \<Rightarrow> 'a objs \<Rightarrow> dyn_array \<Rightarrow> 'a option list" where
  "dyn_slots sz objs a = map (\<lambda>i. objs (slot (da_buffer a) sz i)) [0..<unat (da_capacity a)]"

definition dyn_rep :: "platform_info \<Rightarrow> size_t \<Rightarrow> u64 set \<Rightarrow> dyn_array \<Rightarrow> 'a objs \<Rightarrow> bool" where
  "dyn_rep p sz taken a objs \<longleftrightarrow>
     unat (da_capacity a) * unat sz \<le> 2 ^ 56 \<and>
     (\<forall>i < unat (da_capacity a). hhdm_virt_to_phys p (slot (da_buffer a) sz i) \<notin> taken) \<and>
     (\<forall>b. objs b \<noteq> None \<longrightarrow> hhdm_virt_to_phys p b \<notin> taken)"

lemma length_dyn_slots [simp]: "length (dyn_slots sz objs a) = unat (da_capacity a)"
  by (simp add: dyn_slots_def)

text \<open>A subscript below the capacity reads the element of the list.\<close>

lemma dyn_index_slots:
  "i < da_capacity a \<Longrightarrow> objs (dyn_index sz a i) = dyn_slots sz objs a ! unat i"
  by (simp add: dyn_index_def dyn_slots_def slot_def word_less_nat_alt)

text \<open>The sizes in \<^verbatim>\<open>grow\<close>: the capacity grows, unless it is zero.\<close>

lemma dyn_sizes:
  fixes cap sz :: u64
  assumes "unat cap * unat sz \<le> 2 ^ 56" and "0 < unat sz" and "unat sz \<le> 4096"
  defines "cs \<equiv> align_up (cap * sz) sv39_PAGE_SIZE"
  defines "ns \<equiv> align_up ((cs * 3) div 2) sv39_PAGE_SIZE"
  shows "cap = 0 \<Longrightarrow> ns = 0" and "cap \<noteq> 0 \<Longrightarrow> unat cap < unat (ns div sz)"
    and "unat (ns div sz) * unat sz \<le> unat ns" and "align_up ns 0x1000 = ns"
proof -
  note cs = three_halves [OF assms(1), folded cs_def]
  have ns: "unat cs * 3 div 2 \<le> unat ns" "4096 dvd unat ns"
    using unat_align_page [of "cs * 3 div 2"] cs(2) unfolding cs(4) ns_def by simp_all
  show "cap = 0 \<Longrightarrow> ns = 0"
    by (simp add: ns_def cs_def align_up_def sv39_PAGE_SIZE_def)
  show "unat cap < unat (ns div sz)" if "cap \<noteq> 0"
  proof (rule capacity_grows [OF cs(1) _ cs(3) ns(2) assms(2,3)])
    have "0 < unat cap" using that by (simp add: unat_gt_0)
    then have "0 < unat cs" using cs(1) assms(2) by (metis gr_zeroI le_zero_eq mult_is_0 less_numeral_extra(3))
    then show "unat cs < unat ns" using ns(1) cs(3) by (auto elim!: dvdE)
  qed
  show "unat (ns div sz) * unat sz \<le> unat ns"
    by (simp add: unat_div)
  show "align_up ns 0x1000 = ns"
    by (rule align_up_page_id [OF ns(2)])
qed

section \<open>Creating and growing over any supply\<close>

text \<open>What \<^verbatim>\<open>grow\<close> does when the supply gives it pages.\<close>

definition dyn_grown ::
  "platform_info \<Rightarrow> size_t \<Rightarrow> u64 set \<Rightarrow> dyn_array \<times> 'a objs \<Rightarrow> dyn_array \<times> 'a objs \<Rightarrow> bool" where
  "dyn_grown p sz taken = (\<lambda>(a, objs) (a', objs').
     dyn_rep p sz taken a' objs' \<and> da_size a' = da_size a \<and>
     (if da_capacity a = 0 then da_capacity a' = 0 else da_capacity a < da_capacity a') \<and>
     dyn_slots sz objs' a' = dyn_slots sz objs a @
       replicate (unat (da_capacity a') - unat (da_capacity a)) None \<and>
     (\<forall>b y. objs b = Some y \<longrightarrow> objs' b = Some y))"

text \<open>The store after moving into slots that the supply has given up.\<close>

lemma dyn_moved:
  assumes rep: "dyn_rep p sz taken a objs" and sz: "0 < unat sz"
    and le: "unat (da_capacity a) \<le> unat count" and lim: "unat w + n \<le> 2 ^ 56"
    and fits: "unat count * unat sz \<le> n"
    and area: "area_bytes (w, n) \<subseteq> taken" and taken': "taken' \<subseteq> taken - area_bytes (w, n)"
  defines "a' \<equiv> a\<lparr>da_buffer := hhdm_phys_to_virt p w, da_capacity := count\<rparr>"
  defines "objs' \<equiv> copy_objs sz (da_buffer a) (hhdm_phys_to_virt p w) (unat (da_capacity a)) objs"
  shows "dyn_rep p sz taken' a' objs'"
    and "dyn_slots sz objs' a' = dyn_slots sz objs a @
       replicate (unat count - unat (da_capacity a)) None"
    and "\<forall>b y. objs b = Some y \<longrightarrow> objs' b = Some y"
proof -
  let ?buf = "hhdm_phys_to_virt p w" and ?n = "unat (da_capacity a)" and ?k = "unat count"
  note R = rep [unfolded dyn_rep_def] and fresh = fresh_slots [OF lim fits sz]
  have inside: "hhdm_virt_to_phys p (slot ?buf sz i) \<in> area_bytes (w, n)" if "i < ?k" for i
    using fresh(1) [OF that] by simp
  then have new: "hhdm_virt_to_phys p (slot ?buf sz i) \<in> taken" if "i < ?k" for i
    using area that by blast
  have vacant: "\<forall>i < ?k. objs (slot ?buf sz i) = None"
    using R new by blast
  have inj: "\<forall>i < ?k. \<forall>j < ?k. slot ?buf sz i = slot ?buf sz j \<longrightarrow> i = j"
    using fresh(2) by simp
  have apart: "\<forall>i < ?n. \<forall>j < ?k. slot (da_buffer a) sz i \<noteq> slot ?buf sz j"
    using R new by metis
  note copied = copy_objs_fresh [OF inj le vacant apart, folded objs'_def]
  show "\<forall>b y. objs b = Some y \<longrightarrow> objs' b = Some y"
    using copied(3) by blast
  show "dyn_slots sz objs' a' = dyn_slots sz objs a @ replicate (?k - ?n) None"
    by (rule nth_equalityI)
      (use le copied(1,2) in \<open>auto simp: dyn_slots_def a'_def nth_append\<close>)
  have "?k * unat sz \<le> 2 ^ 56" using fits lim by linarith
  moreover have "hhdm_virt_to_phys p b \<notin> taken'" if "objs' b \<noteq> None" for b
    using copied(4) [OF that] R inside le taken' by force
  ultimately show "dyn_rep p sz taken' a' objs'"
    unfolding dyn_rep_def a'_def using inside taken' by auto
qed

lemma pushed_codes:
  "error_push (error_of PMM_OUT_OF_MEM) DYN_ARR_REALLOC_FAILURE = error_of DYN_ARR_REALLOC_FAILURE"
  "error_push (error_of PMM_OUT_OF_MEM) DYN_ARR_ALLOC_FAILURE = error_of ERROR_CODE_GUARD_VALUE"
  by (simp_all add: error_push_def error_of_def sizeof_ErrorCode_def push_bit_eq_mult)

context page_supply
begin

lemma dyn_grow_cases:
  assumes inv: "inv s" and rep: "dyn_rep p sz (owned s) a objs"
    and sz: "0 < unat sz" "unat sz \<le> 4096"
  obtains (halt) n h where "po_alloc ops n s = Halt h" "dyn_grow ops p sz (a, objs, s) = Halt h"
  | (no_pages) "dyn_grow ops p sz (a, objs, s) =
      Done (Some (error_of DYN_ARR_REALLOC_FAILURE), a, objs, s)"
  | (grown) a' objs' s' where "dyn_grow ops p sz (a, objs, s) = Done (None, a', objs', s')"
      "inv s'" "owned s' \<subseteq> owned s" "dyn_grown p sz (owned s') (a, objs) (a', objs')"
proof -
  define cs where "cs = align_up (da_capacity a * sz) sv39_PAGE_SIZE"
  define ns where "ns = align_up ((cs * 3) div 2) sv39_PAGE_SIZE"
  have "unat (da_capacity a) * unat sz \<le> 2 ^ 56" using rep by (simp add: dyn_rep_def)
  note sizes = dyn_sizes [OF this sz, folded cs_def, folded ns_def]
  show ?thesis
  proof (cases "po_alloc ops ns s")
    case (Halt h)
    then show ?thesis by (intro halt [of ns h]) (simp_all add: dyn_grow_def ns_def cs_def)
  next
    case (Done x)
    then obtain e r s1 where al: "po_alloc ops ns s = Done (e, r, s1)" by (cases x) auto
    show ?thesis
    proof (cases "e = error_of SUCCESS")
      case False
      then have "e = error_of PMM_OUT_OF_MEM" "s1 = s" using alloc_err [OF inv al] by auto
      then show ?thesis
        by (intro no_pages) (use al in \<open>simp add: dyn_grow_def ns_def cs_def pushed_codes\<close>)
    next
      case True
      then obtain w where w: "r = Some w" "inv s1" "unat w + unat ns \<le> 2 ^ 56"
        "area_bytes (w, unat ns) \<subseteq> owned s" "owned s1 \<subseteq> owned s - area_bytes (w, unat ns)"
        using alloc_ok [OF inv, of ns r s1] al sizes(4) by (auto simp: request_area_def)
      obtain e2 s2 where fr: "po_free ops (hhdm_virt_to_phys p (da_buffer a)) s1 = (e2, s2)"
        by fastforce
      note F = free_frame [OF w(2) fr]
      have le: "unat (da_capacity a) \<le> unat (ns div sz)"
        using sizes(1,2) by (cases "da_capacity a = 0") simp_all
      note M = dyn_moved [OF rep sz(1) le w(3) sizes(3) w(4,5)]
      show ?thesis
      proof (rule grown)
        show "dyn_grow ops p sz (a, objs, s) = Done (None,
            a\<lparr>da_buffer := hhdm_phys_to_virt p w, da_capacity := ns div sz\<rparr>,
            copy_objs sz (da_buffer a) (hhdm_phys_to_virt p w) (unat (da_capacity a)) objs, s2)"
          using al True w(1) fr F by (simp add: dyn_grow_def Let_def ns_def cs_def)
        show "inv s2" "owned s2 \<subseteq> owned s" using F w(5) by auto
        show "dyn_grown p sz (owned s2) (a, objs)
            (a\<lparr>da_buffer := hhdm_phys_to_virt p w, da_capacity := ns div sz\<rparr>,
             copy_objs sz (da_buffer a) (hhdm_phys_to_virt p w) (unat (da_capacity a)) objs)"
          unfolding dyn_grown_def using M F sizes(1,2) by (simp add: word_less_nat_alt)
      qed
    qed
  qed
qed

lemma dyn_create_cases:
  assumes inv: "inv s" and objs: "\<forall>b. objs b \<noteq> None \<longrightarrow> hhdm_virt_to_phys p b \<notin> owned s"
    and sz: "0 < unat sz" and small: "unat k * unat sz \<le> 2 ^ 56"
  obtains (halt) n h where "po_alloc ops n s = Halt h" "dyn_create ops p sz k s = Halt h"
  | (no_pages) "dyn_create ops p sz k s = Done (make_err (error_of ERROR_CODE_GUARD_VALUE), s)"
  | (created) a s' where "dyn_create ops p sz k s = Done (make_some a, s')" "inv s'"
      "owned s' \<subseteq> owned s" "dyn_rep p sz (owned s') a objs" "k \<le> da_capacity a" "da_size a = 0"
      "dyn_slots sz objs a = replicate (unat (da_capacity a)) None"
proof -
  define n where "n = align_up (k * sz) sv39_PAGE_SIZE"
  note cs = three_halves [OF small, folded n_def]
  have k: "unat k \<le> unat (n div sz)"
    using cs(1) sz by (simp add: unat_div less_eq_div_iff_mult_less_eq)
  have fits: "unat (n div sz) * unat sz \<le> unat n" by (simp add: unat_div)
  have n: "align_up n 0x1000 = n" by (rule align_up_page_id [OF cs(3)])
  show ?thesis
  proof (cases "po_alloc ops n s")
    case (Halt h)
    then show ?thesis by (intro halt [of n h]) (simp_all add: dyn_create_def n_def)
  next
    case (Done x)
    then obtain e r s1 where al: "po_alloc ops n s = Done (e, r, s1)" by (cases x) auto
    show ?thesis
    proof (cases "e = error_of SUCCESS")
      case False
      then have "e = error_of PMM_OUT_OF_MEM" "s1 = s" using alloc_err [OF inv al] by auto
      then show ?thesis
        by (intro no_pages) (use al in \<open>simp add: dyn_create_def n_def pushed_codes\<close>)
    next
      case True
      then obtain w where w: "r = Some w" "inv s1" "unat w + unat n \<le> 2 ^ 56"
        "area_bytes (w, unat n) \<subseteq> owned s" "owned s1 \<subseteq> owned s - area_bytes (w, unat n)"
        using alloc_ok [OF inv, of n r s1] al n by (auto simp: request_area_def)
      note fresh = fresh_slots [OF w(3) fits sz]
      have inside: "hhdm_virt_to_phys p (slot (hhdm_phys_to_virt p w) sz i) \<in> area_bytes (w, unat n)"
        if "i < unat (n div sz)" for i
        using fresh(1) [OF that] by simp
      let ?a = "\<lparr>da_capacity = n div sz, da_size = 0, da_buffer = hhdm_phys_to_virt p w\<rparr>"
      have "unat (n div sz) * unat sz \<le> 2 ^ 56" using fits w(3) by linarith
      then have rep: "dyn_rep p sz (owned s1) ?a objs"
        unfolding dyn_rep_def using inside w(5) objs by auto
      have "objs (slot (hhdm_phys_to_virt p w) sz i) = None" if "i < unat (n div sz)" for i
        using inside [OF that] w(4) objs by blast
      then have "dyn_slots sz objs ?a = replicate (unat (n div sz)) None"
        by (intro nth_equalityI) (simp_all add: dyn_slots_def)
      then show ?thesis
        by (intro created [of ?a s1])
          (use al True w k rep in \<open>auto simp: dyn_create_def n_def word_le_nat_alt\<close>)
    qed
  qed
qed

end

section \<open>Over the memory manager\<close>

text \<open>
  Creating a dynamic array. The array has room for the objects that were asked for, no
  object is in it yet, and its memory is no longer the memory manager's. Without pages the
  result is an error, but not one that can be printed: pushing \<^verbatim>\<open>DYN_ARR_ALLOC_FAILURE\<close> on
  \<^verbatim>\<open>PMM_OUT_OF_MEM\<close> gives a code behind the end of the table of messages.
\<close>

theorem dyn_create_outcome:
  assumes "pmm_sound buf s" and "0 < unat sz" and "unat k * unat sz \<le> 2 ^ 56"
    and "\<forall>b. objs b \<noteq> None \<longrightarrow> hhdm_virt_to_phys p b \<notin> pmm_reserved buf s"
  shows "case dyn_create pmm_ops p sz k s of
      Done (r, s') \<Rightarrow>
        if result_is_some r then
          \<exists>a. result_some r = Done a \<and> pmm_sound buf s' \<and> dyn_rep p sz (pmm_reserved buf s') a objs \<and>
            k \<le> da_capacity a \<and> da_size a = 0 \<and>
            dyn_slots sz objs a = replicate (unat (da_capacity a)) None
        else s' = s \<and> bind_outcome (result_err r) error_str = Halt Out_of_bounds
    | Halt h \<Rightarrow> \<exists>n. pmm_alloc n False s = Halt h"
proof (cases rule: pmm_pages.dyn_create_cases
    [OF assms(1,4,2,3), case_names halt no_pages created])
  case (halt n h)
  then show ?thesis by auto
next
  case no_pages
  then show ?thesis
    by (simp add: make_err_def result_is_some_def result_err_def error_str_def)
next
  case (created a s')
  then show ?thesis by (simp add: make_some_def result_is_some_def result_some_def)
qed

theorem dyn_create_outcome_witness:
  "\<exists>s a s'. pmm_sound demo_buf s \<and>
     dyn_create pmm_ops demo_platform 16 100 s = Done (make_some a, s') \<and> 100 \<le> da_capacity a \<and>
     dyn_slots 16 (\<lambda>_. None :: nat option) a = replicate (unat (da_capacity a)) None"
proof -
  obtain s where s: "serving demo_buf 16 s" "pmm_sound demo_buf s"
    by (rule demo_serving)
  obtain w s1 where al: "pmm_alloc sv39_PAGE_SIZE False s = Done (error_of SUCCESS, Some w, s1)"
    by (rule alloc_serving [of demo_buf 15 s]) (use s(1) in simp)
  have n: "align_up (100 * 16) sv39_PAGE_SIZE = sv39_PAGE_SIZE"
    by (simp add: align_up_def sv39_PAGE_SIZE_def)
  obtain a where run: "dyn_create pmm_ops demo_platform 16 100 s = Done (make_some a, s1)"
    using al n by (simp add: dyn_create_def Let_def)
  show ?thesis
    using dyn_create_outcome [OF s(2), of 16 100 "\<lambda>_. None :: nat option" demo_platform] s(2) run
    by (fastforce simp: make_some_def result_is_some_def result_some_def)
qed

text \<open>
  Growing a dynamic array. If the memory manager has the pages, the new array has the
  elements of the old one followed by vacant slots, references to the old elements stay
  readable, and the function ends without the \<^verbatim>\<open>return\<close> that its caller waits for. An array
  without capacity stays without capacity. If there are no pages nothing has changed.
\<close>

theorem dyn_grow_keeps:
  assumes "pmm_sound buf s" and "dyn_rep p sz (pmm_reserved buf s) a objs"
    and "0 < unat sz" and "unat sz \<le> 4096"
  shows "case dyn_grow pmm_ops p sz (a, objs, s) of
      Done (None, a', objs', s') \<Rightarrow> pmm_sound buf s' \<and>
        dyn_rep p sz (pmm_reserved buf s') a' objs' \<and>
        (if da_capacity a = 0 then da_capacity a' = 0 else da_capacity a < da_capacity a') \<and>
        dyn_slots sz objs' a' = dyn_slots sz objs a @
          replicate (unat (da_capacity a') - unat (da_capacity a)) None \<and>
        (\<forall>b y. objs b = Some y \<longrightarrow> objs' b = Some y)
    | Done (Some e, a', objs', s') \<Rightarrow>
        e = error_of DYN_ARR_REALLOC_FAILURE \<and> a' = a \<and> objs' = objs \<and> s' = s
    | Halt h \<Rightarrow> \<exists>n. pmm_alloc n False s = Halt h"
proof (cases rule: pmm_pages.dyn_grow_cases [OF assms, case_names halt no_pages grown])
  case (halt n h)
  then show ?thesis by auto
qed (simp_all add: dyn_grown_def)

text \<open>An array of four objects of 16 bytes in memory of a client, the first one alive.\<close>

definition demo_array :: dyn_array where
  "demo_array = \<lparr>da_capacity = 4, da_size = 1, da_buffer = hhdm_phys_to_virt demo_platform 0x200000\<rparr>"

definition demo_objs :: "nat objs" where
  "demo_objs = [hhdm_phys_to_virt demo_platform 0x200000 \<mapsto> 7]"

lemma demo_array_rep:
  assumes "pmm_view s = [fresh_view 0x80000000 0x10000]"
  shows "dyn_rep demo_platform 16 (pmm_reserved demo_buf s) demo_array demo_objs"
proof -
  have out: "x \<notin> pmm_reserved demo_buf s" if "in_range x (0x200000, 65536)" for x
    using that assms
    by (auto simp: pmm_reserved_def pmm_owned_def view_bytes_def fresh_view_def demo_buf_def
        in_range_nowrap)
  have slots: "in_range (hhdm_virt_to_phys demo_platform (slot (hhdm_phys_to_virt demo_platform 0x200000) 16 i))
      (0x200000, 65536)" if "i < 4" for i
    by (rule fresh_slots(1) [of _ _ 4]) (use that in simp_all)
  show ?thesis
    using slots out by (auto simp: dyn_rep_def demo_array_def demo_objs_def in_range_def split: if_splits)
qed

theorem dyn_grow_keeps_witness:
  "\<exists>s a' objs' s'. pmm_sound demo_buf s \<and>
     dyn_grow pmm_ops demo_platform 16 (demo_array, demo_objs, s) = Done (None, a', objs', s') \<and>
     4 < da_capacity a' \<and> dyn_slots 16 objs' a' ! 0 = Some 7"
proof -
  obtain s where s: "alloc_ready demo_buf s" "pmm_whole s" "pmm_sound demo_buf s"
    "pmm_view s = [fresh_view 0x80000000 0x10000]"
    by (rule demo_serving)
  have n: "align_up (align_up (4 * 16) sv39_PAGE_SIZE * 3 div 2) sv39_PAGE_SIZE = 8192"
    "align_up 8192 PAGE_SIZE = 8192"
    by (simp_all add: align_up_def sv39_PAGE_SIZE_def PAGE_SIZE_def)
  obtain w s1 where al: "pmm_alloc 8192 False s = Done (error_of SUCCESS, Some w, s1)"
    by (rule pmm_alloc_page_cases [OF s(1,2), of 8192])
      (auto simp: s(4) n pick_single fresh_view_def split: if_splits)
  have "\<exists>a' objs' s'. dyn_grow pmm_ops demo_platform 16 (demo_array, demo_objs, s) = Done (None, a', objs', s')"
    using al n(1) by (simp add: dyn_grow_def demo_array_def Let_def pmm_free_def)
  then obtain a' objs' s' where
    run: "dyn_grow pmm_ops demo_platform 16 (demo_array, demo_objs, s) = Done (None, a', objs', s')"
    by blast
  have "dyn_slots 16 demo_objs demo_array ! 0 = Some 7" "da_capacity demo_array = 4"
    by (simp_all add: dyn_slots_def demo_array_def demo_objs_def slot_simps)
  then show ?thesis
    using dyn_grow_keeps [OF s(3) demo_array_rep [OF s(4)]] s(3) run
    by (fastforce simp: nth_append)
qed

end
