(* ===== verification/Spec2Isabelle.thy ===== *)
theory Spec2Isabelle
  imports Base_Properties Slab_Source Pmm_Properties Sv39_Properties Output_Properties
    Device_Properties Client_Properties Device_Tree_Properties Device_Tree_Ranges
    Kernel_Run Dynamic_Array
begin

text \<open>
  A verification development for octiron, a RISC-V kernel in C++ that the Limine boot loader
  starts. It models the parts of \<^verbatim>\<open>src/kernel\<close> that compute, as functions on explicit states,
  and proves what they guarantee and, where they do not do what their interface says, what
  they do instead. The properties are numbered in the texts before them.

  \<^bold>\<open>Conventions\<close> (\<open>Prelude\<close>). Machine integers are words, so that arithmetic wraps as compiled code
  does. A pointer is a 64-bit address, zero is null. Memory is a function from addresses to
  bytes. A call that may stop the kernel has an \<open>outcome\<close>: \<open>Done\<close> with the result and the new
  state, or \<open>Halt\<close> with the reason: a failed assertion, a panic, a null dereference, an access
  out of bounds, the read of a union member that was not written last, a loop that never ends.
  Error codes that the code returns are part of the result. Loops with an index are \<open>function\<close>s
  with a measure; loops that may run for ever are \<open>partial_function (option)\<close>, so that not ending
  is the value \<open>None\<close>, which \<open>join_spin\<close> makes \<open>Halt Spin\<close>. There is no fuel.

  \<^bold>\<open>Support code\<close>. \<open>Number\<close> is \<^verbatim>\<open>include/types/number.h\<close>, \<open>Memory\<close> is \<^verbatim>\<open>src/memory.cpp\<close> with the loads and
  stores of compiled code, \<open>Views\<close> is \<^verbatim>\<open>byte_view.h\<close> and \<^verbatim>\<open>str_view.h\<close>, \<open>Error\<close> is \<^verbatim>\<open>error.h\<close>,
  \<open>Containers\<close> is \<^verbatim>\<open>result.h\<close> and \<^verbatim>\<open>static_array.h\<close>. \<open>Base_Properties\<close> relates them to reference
  definitions: least multiples, reversed bytes, the lexicographic order, the first zero byte.

  \<^bold>\<open>Providers of memory\<close>. The locale \<open>area_source\<close> (\<open>Area_Source\<close>) is the contract of everything that hands
  out memory; inside it, areas handed out in any history are disjoint. \<open>Slab\<close> is \<^verbatim>\<open>slab.h\<close> and
  \<open>Slab_Source\<close> interprets the contract for it. \<open>Pmm\<close> is \<^verbatim>\<open>src/pmm.cpp\<close>: the record \<open>pmm\<close> has one field per
  global of the file. \<open>Pmm_Invariant\<close> states the invariant of the region table and its list nodes,
  \<open>Pmm_Alloc\<close> the abstract first-fit allocator and the refinement to it, \<open>Pmm_Source\<close> interprets the
  contract, \<open>Pmm_Pages\<close> interprets the locale \<open>page_supply\<close> (\<open>Page_Supply\<close>), through which the clients
  of the manager see it, and \<open>Pmm_Properties\<close> has the theorems and the small machine of their
  instances.

  \<^bold>\<open>Clients of pages\<close>. \<open>Sv39\<close> is \<^verbatim>\<open>src/riscv/sv39.cpp\<close> and its header; \<open>Sv39_Properties\<close> shows that mapping
  refines an abstract map from pages to entries, and what translation returns. \<open>Stack\<close> is
  \<^verbatim>\<open>stack.h\<close>: objects live in a typed store, a partial function from addresses, and the abstraction
  is a list. \<open>Bump\<close> is \<^verbatim>\<open>src/allocators/bump.cpp\<close>, over any page supply again an \<open>area_source\<close>.
  \<open>Client_Properties\<close> instantiates both for the memory manager. \<open>Dynamic_Array\<close> is \<^verbatim>\<open>dynamic_array.h\<close>, with
  the typed store and the copying lemmas of the stack.

  \<^bold>\<open>Output and devices\<close>. \<open>Printer\<close> is \<^verbatim>\<open>include/fmt\<close> and \<^verbatim>\<open>src/fmt/fmt.cpp\<close>: the state is the log of
  characters with the function each went to, the global sink, and the static buffer of digits
  (65 digits; the largest type has 39). \<open>Output_Properties\<close> reads the texts back. \<open>Csr\<close> is \<^verbatim>\<open>riscv/csr.h\<close>,
  \<open>Uart\<close> is \<^verbatim>\<open>src/uart.cpp\<close>, \<open>Platform\<close> is \<^verbatim>\<open>src/limine/platform_info.cpp\<close>; \<open>Device_Properties\<close> is about
  these. What the assembler text of a register access does, and what the device shows at a
  read, are parameters.

  \<^bold>\<open>The device tree\<close>, \<^verbatim>\<open>src/devices/device_tree.cpp\<close>. The record \<open>dt_state\<close> has the globals of the file, with
  the three stacks and the stores of their objects, over any page supply. \<open>Device_Tree\<close> is the first
  pass, \<open>Device_Tree_Rewrite\<close> the second and \<open>parse_from_blob\<close>, \<open>Device_Tree_Print\<close> the printer. \<open>Device_Tree_Parse\<close>
  states a grammar of blobs and what linked nodes represent, and shows that the first pass
  links the tree of the blob; a page of nodes has 73 of them, after which the stack moves and
  the root of the second pass is a copy. \<open>Device_Tree_Pass\<close> has the locale \<open>pass_invariant\<close>: what each rewriting
  of a property keeps, the pass keeps; one interpretation is the type discipline of the union, the other, in \<open>Device_Tree_Links\<close>,
  that the links and names of all objects stay, so that what is printed has the names of the tree.
  \<open>Device_Tree_Fields\<close> is about arrays filled from entries of a blob, \<open>Device_Tree_Cells\<close> about the numbers in
  \<^verbatim>\<open>reg\<close> and \<open>Device_Tree_Ranges\<close> about those in \<^verbatim>\<open>ranges\<close> (up to a thousand entries, so that the arrays fit the requests
  for which the bump allocator is proved safe), \<open>Device_Tree_Listing\<close> about the printed text, and \<open>Device_Tree_Properties\<close>
  about parsing on top of the memory manager.

  \<^bold>\<open>The kernel\<close>. \<open>Kernel_Entry\<close> is \<^verbatim>\<open>src/kernel_entry.cpp\<close>; \<open>Kernel_Properties\<close> follows the boot from the loader's
  answers to the point where the device tree is parsed, with a sound manager of exactly the
  usable memory, and on to the linked tree of a well-formed blob. How many pages a tree needs is \<open>tree_pages\<close>
  (two for up to 73 nodes and 51 properties); with an area of that many pages the first pass never stops.
  \<open>Kernel_Run\<close> goes on to the listing, and runs the whole kernel once, from the answers of a small machine's
  loader to its last line.

  \<^bold>\<open>Not modelled\<close>. \<^verbatim>\<open>include/limine/limine.h\<close> is the vendored protocol header: of it, only the fields and constants
  that the kernel reads. \<^verbatim>\<open>dynamic_array.h\<close> is never instantiated and would not compile if it were (the
  initialiser of a private member, assignments from \<^verbatim>\<open>void*\<close>); it is modelled by what its bodies say. \<^verbatim>\<open>current_page_table\<close> in \<^verbatim>\<open>sv39.cpp\<close>
  uses names that are not declared. \<^verbatim>\<open>stack::grow_to_min_cap\<close> and \<^verbatim>\<open>bump_alloc::grow_by_n_pages\<close> are declared without a definition.
  \<^verbatim>\<open>vma.h\<close>, \<^verbatim>\<open>kvspace.h\<close>, \<^verbatim>\<open>ramfs_ustar\<close>, \<^verbatim>\<open>virtio.h\<close> and \<^verbatim>\<open>slab.c\<close> are declarations without code or empty. The assembly
  entry, the linker script and the build files are not programs of this language. Interrupts and
  concurrency do not occur: the kernel runs on one hart with interrupts off.
\<close>

end
